(* ===== verification/Prelude.thy ===== *)
theory Prelude
  imports
    "HOL-Library.Word"
    "HOL-Library.Multiset"
    "HOL-Library.AList"
    "HOL-Library.Char_ord"
    "HOL-Library.List_Lexorder"
    "HOL-Library.Sublist"
begin

text \<open>
  Shared vocabulary of the development: the byte and word types, the errors the Go code
  returns, Go's built-in map as an association list (so that \<^verbatim>\<open>len\<close> and
  \<^verbatim>\<open>range\<close> are computable), and the generic facts about lists that several
  components use. Theorem collections: \<open>gomap_simps\<close> rewrites map operations,
  \<open>ring_facts\<close> gathers what clients of the hash ring need.
\<close>

named_theorems gomap_simps "rewriting of Go map operations"
named_theorems dedup_simps "first-occurrence deduplication"

section \<open>Types and errors\<close>

type_synonym byte = "8 word"
type_synonym bytes = "byte list"
type_synonym uint64 = "64 word"

text \<open>
  Go's \<^verbatim>\<open>error\<close> values, as far as the program tells them apart: the sentinels
  it compares with, an opaque failure of the environment, and
  \<^verbatim>\<open>fmt.Errorf("...: %w", err)\<close>, which keeps the wrapped error.
\<close>

datatype go_error =
    EOF
  | ErrUnexpectedEOF
  | ErrNotFound
  | ErrNotExist
  | Failure string
  | Wrapped string go_error

text \<open>\<^verbatim>\<open>errors.Is(err, target)\<close>: the error itself or one it wraps.\<close>

fun errors_Is :: "go_error \<Rightarrow> go_error \<Rightarrow> bool" where
  "errors_Is (Wrapped s e) t \<longleftrightarrow> Wrapped s e = t \<or> errors_Is e t"
| "errors_Is e t \<longleftrightarrow> e = t"

section \<open>Go maps\<close>

text \<open>
  A Go map as an association list with distinct keys. Go leaves the order in which
  \<^verbatim>\<open>range\<close> visits a map unspecified and changes it from one loop to the next, so
  an operation that ranges over a map takes that order as an argument: a function \<open>ord\<close>
  with \<open>range_order ord\<close>, applied to the entries.
\<close>

type_synonym ('k, 'v) gomap = "('k \<times> 'v) list"

definition gm_ok :: "('k, 'v) gomap \<Rightarrow> bool" where
  "gm_ok m \<longleftrightarrow> distinct (map fst m)"

definition gm_get :: "('k, 'v) gomap \<Rightarrow> 'k \<Rightarrow> 'v option" where
  "gm_get m k = map_of m k"

definition gm_set :: "('k, 'v) gomap \<Rightarrow> 'k \<Rightarrow> 'v \<Rightarrow> ('k, 'v) gomap" where
  "gm_set m k v = AList.update k v m"

definition gm_del :: "('k, 'v) gomap \<Rightarrow> 'k \<Rightarrow> ('k, 'v) gomap" where
  "gm_del m k = AList.delete k m"

definition gm_len :: "('k, 'v) gomap \<Rightarrow> nat" where
  "gm_len m = length m"

definition gm_keys :: "('k, 'v) gomap \<Rightarrow> 'k list" where
  "gm_keys m = map fst m"

text \<open>\<^verbatim>\<open>m[k]\<close> on a \<^verbatim>\<open>map[..]bool\<close> and on a \<^verbatim>\<open>map[..]string\<close>: a missing key reads as the zero value.\<close>

definition gm_bool :: "('k, bool) gomap \<Rightarrow> 'k \<Rightarrow> bool" where
  "gm_bool m k = (case gm_get m k of None \<Rightarrow> False | Some b \<Rightarrow> b)"

definition str_at :: "('k \<rightharpoonup> string) \<Rightarrow> 'k \<Rightarrow> string" where
  "str_at m k = (case m k of None \<Rightarrow> '''' | Some s \<Rightarrow> s)"

definition range_order :: "('a list \<Rightarrow> 'a list) \<Rightarrow> bool" where
  "range_order ord \<longleftrightarrow> (\<forall>xs. mset (ord xs) = mset xs)"

lemma gm_ok_Nil [simp]: "gm_ok []"
  by (simp add: gm_ok_def)

lemma gm_ok_set [simp, intro]: "gm_ok m \<Longrightarrow> gm_ok (gm_set m k v)"
  by (simp add: gm_ok_def gm_set_def distinct_update)

lemma gm_ok_del [simp, intro]: "gm_ok m \<Longrightarrow> gm_ok (gm_del m k)"
  by (simp add: gm_ok_def gm_del_def distinct_delete)

lemma gm_get_Nil [gomap_simps]: "gm_get [] k = None"
  by (simp add: gm_get_def)

lemma gm_get_set [gomap_simps]: "gm_get (gm_set m k v) k' = (if k' = k then Some v else gm_get m k')"
  by (simp add: gm_get_def gm_set_def update_conv)

lemma gm_get_del [gomap_simps]: "gm_get (gm_del m k) k' = (if k' = k then None else gm_get m k')"
  by (simp add: gm_get_def gm_del_def delete_conv)

lemma gm_get_eq_Some: "gm_ok m \<Longrightarrow> gm_get m k = Some v \<longleftrightarrow> (k, v) \<in> set m"
  by (simp add: gm_ok_def gm_get_def)

lemma gm_get_eq_None: "gm_get m k = None \<longleftrightarrow> k \<notin> set (gm_keys m)"
  by (simp add: gm_get_def gm_keys_def map_of_eq_None_iff)

lemma distinct_gm_keys: "gm_ok m \<Longrightarrow> distinct (gm_keys m)"
  by (simp add: gm_ok_def gm_keys_def)

lemma gm_keys_dom: "set (gm_keys m) = dom (gm_get m)"
  using gm_get_eq_None by (force simp: dom_def)

lemma gm_keys_Nil [gomap_simps]: "set (gm_keys []) = {}"
  by (simp add: gm_keys_def)

lemma gm_keys_set [gomap_simps]: "set (gm_keys (gm_set m k v)) = insert k (set (gm_keys m))"
  by (simp add: gm_keys_def gm_set_def dom_update)

lemma gm_keys_del [gomap_simps]: "set (gm_keys (gm_del m k)) = set (gm_keys m) - {k}"
  by (simp add: gm_keys_def gm_del_def delete_keys)

lemma gm_len_card: "gm_ok m \<Longrightarrow> gm_len m = card (set (gm_keys m))"
  unfolding gm_ok_def gm_len_def gm_keys_def by (metis distinct_card length_map)

lemma gm_bool_keys:
  "\<forall>k b. gm_get m k = Some b \<longrightarrow> b \<Longrightarrow> gm_bool m k \<longleftrightarrow> k \<in> set (gm_keys m)"
  by (auto simp: gm_bool_def gm_keys_dom split: option.splits)

lemma range_order_set: "range_order ord \<Longrightarrow> set (ord xs) = set xs"
  unfolding range_order_def by (metis set_mset_mset)

lemma range_order_length: "range_order ord \<Longrightarrow> length (ord xs) = length xs"
  unfolding range_order_def by (metis size_mset)

lemma range_order_distinct: "range_order ord \<Longrightarrow> distinct (ord xs) = distinct xs"
  unfolding range_order_def using mset_eq_imp_distinct_iff by blast

lemma range_order_id: "range_order (\<lambda>xs. xs)"
  by (simp add: range_order_def)

lemma range_order_rev: "range_order rev"
  by (simp add: range_order_def)

section \<open>First-occurrence deduplication\<close>

fun dedup :: "'a list \<Rightarrow> 'a list" where
  "dedup [] = []"
| "dedup (x # xs) = x # filter (\<lambda>y. y \<noteq> x) (dedup xs)"

lemma set_dedup [dedup_simps]: "set (dedup xs) = set xs"
  by (induction xs) auto

lemma distinct_dedup [dedup_simps]: "distinct (dedup xs)"
  by (induction xs) (auto simp: set_dedup)

lemma filter_dedup: "filter P (dedup xs) = dedup (filter P xs)"
proof (induction xs)
  case (Cons x xs)
  show ?case
  proof (cases "P x")
    case True
    have "filter P (filter (\<lambda>y. y \<noteq> x) (dedup xs)) = filter (\<lambda>y. y \<noteq> x) (filter P (dedup xs))"
      by (simp add: conj_commute)
    with True Cons show ?thesis by simp
  next
    case False
    then have "filter P (filter (\<lambda>y. y \<noteq> x) (dedup xs)) = filter P (dedup xs)"
      by (auto intro: filter_cong)
    with False Cons show ?thesis by simp
  qed
qed simp

lemma length_dedup: "length (dedup xs) = card (set xs)"
  by (metis distinct_card distinct_dedup set_dedup)

lemma dedup_append: "dedup (xs @ ys) = dedup xs @ filter (\<lambda>y. y \<notin> set xs) (dedup ys)"
  by (induction xs) (auto simp: conj_commute filter_dedup intro: filter_cong)

lemma dedup_snoc: "dedup (xs @ [y]) = dedup xs @ (if y \<in> set xs then [] else [y])"
  by (simp add: dedup_append)

lemma dedup_prefix: "\<exists>zs. dedup (xs @ ys) = dedup xs @ zs"
  by (simp add: dedup_append)

section \<open>Sorted lists cut at a value\<close>

lemma sorted_takeWhile_less:
  "sorted xs \<Longrightarrow> takeWhile (\<lambda>x. x < h) xs = filter (\<lambda>x. x < h) xs"
  by (induction xs) (auto simp: not_less empty_filter_conv)

lemma sorted_dropWhile_less:
  "sorted xs \<Longrightarrow> dropWhile (\<lambda>x. x < h) xs = filter (\<lambda>x. h \<le> x) xs"
  by (induction xs) (auto simp: not_less intro!: filter_True [symmetric])

lemma sorted_eq_of_set: "sorted xs \<Longrightarrow> sorted ys \<Longrightarrow> distinct xs \<Longrightarrow> distinct ys \<Longrightarrow> set xs = set ys \<Longrightarrow> xs = ys"
  by (simp add: sorted_distinct_set_unique)

lemma take_filter_Suc:
  assumes "distinct xs"
  shows "take n (filter (\<lambda>y. y \<noteq> x) xs) = take n (filter (\<lambda>y. y \<noteq> x) (take (Suc n) xs))"
  using assms
proof (induction xs arbitrary: n)
  case (Cons y ys)
  show ?case
  proof (cases "y = x")
    case True
    with Cons.prems have "filter (\<lambda>z. z \<noteq> x) ys = ys" by (auto simp: filter_id_conv)
    moreover have "filter (\<lambda>z. z \<noteq> x) (take n ys) = take n ys"
      using True Cons.prems by (auto simp: filter_id_conv dest: in_set_takeD)
    ultimately show ?thesis using True by simp
  next
    case False
    then show ?thesis using Cons by (cases n) simp_all
  qed
qed simp

end
