(* ===== verification/GoLib.thy ===== *)
theory GoLib
  imports Prelude
begin

unbundle bit_operations_syntax

text \<open>
  The parts of Go's standard library the program computes with, written out: decimal
  formatting, hexadecimal encoding, big-endian decoding, \<^verbatim>\<open>sort.Search\<close> and the
  \<^verbatim>\<open>strings\<close> functions. A Go string is a byte sequence, here a list of \<open>char\<close>
  (256 values). The cryptographic digests are not here: the components that use one take it
  as an argument.
\<close>

section \<open>Bytes and strings\<close>

definition char_byte :: "char \<Rightarrow> byte" where
  "char_byte c = of_nat (of_char c)"

definition byte_char :: "byte \<Rightarrow> char" where
  "byte_char b = char_of (unat b)"

text \<open>\<^verbatim>\<open>[]byte(s)\<close> and \<^verbatim>\<open>string(b)\<close>.\<close>

definition bytes_of :: "string \<Rightarrow> bytes" where
  "bytes_of s = map char_byte s"

definition string_of :: "bytes \<Rightarrow> string" where
  "string_of b = map byte_char b"

lemma unat_byte_less: "unat (b :: byte) < 256"
proof -
  have "unat b < 2 ^ LENGTH(8)" by (rule unsigned_less)
  then show ?thesis by simp
qed

lemma byte_char_inverse [simp]: "byte_char (char_byte c) = c"
proof -
  have "(of_char c :: nat) < 256" by simp
  then have "unat (of_nat (of_char c) :: byte) = of_char c"
    by (simp add: unat_of_nat)
  then show ?thesis by (simp add: byte_char_def char_byte_def)
qed

lemma char_byte_inverse [simp]: "char_byte (byte_char b) = b"
proof -
  have "unat b < 256" by (rule unat_byte_less)
  then have "of_char (char_of (unat b) :: char) = unat b" by simp
  then show ?thesis by (simp add: byte_char_def char_byte_def)
qed

lemma string_of_bytes_of [simp]: "string_of (bytes_of s) = s"
  by (simp add: string_of_def bytes_of_def comp_def)

lemma bytes_of_string_of [simp]: "bytes_of (string_of b) = b"
  by (simp add: string_of_def bytes_of_def comp_def)

lemma inj_bytes_of: "inj bytes_of"
  by (metis injI string_of_bytes_of)

text \<open>\<^verbatim>\<open>binary.BigEndian.Uint64\<close>: the first byte is the most significant.\<close>

definition BigEndian_Uint64 :: "bytes \<Rightarrow> uint64" where
  "BigEndian_Uint64 b = foldl (\<lambda>acc x. push_bit 8 acc OR ucast x) 0 b"

lemma BigEndian_snoc: "BigEndian_Uint64 (b @ [x]) = push_bit 8 (BigEndian_Uint64 b) OR ucast x"
  by (simp add: BigEndian_Uint64_def)

lemma BigEndian_Nil: "BigEndian_Uint64 [] = 0"
  by (simp add: BigEndian_Uint64_def)

lemma BigEndian_bound: "bit (BigEndian_Uint64 b) n \<Longrightarrow> n < 8 * length b"
proof (induction b arbitrary: n rule: rev_induct)
  case (snoc x b)
  from snoc.prems show ?case
    using snoc.IH [of "n - 8"]
    by (auto simp: BigEndian_snoc bit_simps dest: bit_imp_le_length)
qed (simp add: BigEndian_Nil)

lemma ucast_snoc: "ucast (push_bit 8 (w :: uint64) OR ucast (x :: byte)) = x"
  by (rule bit_word_eqI) (simp add: bit_simps)

lemma drop_bit_snoc:
  assumes "\<And>n. bit w n \<Longrightarrow> n < 56"
  shows "drop_bit 8 (push_bit 8 (w :: uint64) OR ucast (x :: byte)) = w"
proof (rule bit_word_eqI)
  fix n assume "n < LENGTH(64)"
  then show "bit (drop_bit 8 (push_bit 8 w OR ucast x)) n = bit w n"
    using assms [of n] by (auto simp: bit_simps dest: bit_imp_le_length)
qed

lemma BigEndian_inj:
  "length a \<le> 8 \<Longrightarrow> length a = length b \<Longrightarrow> BigEndian_Uint64 a = BigEndian_Uint64 b \<Longrightarrow> a = b"
proof (induction a arbitrary: b rule: rev_induct)
  case (snoc x a)
  then obtain y b' where b: "b = b' @ [y]" by (cases b rule: rev_cases) auto
  with snoc.prems have len: "length a \<le> 7" "length a = length b'" by auto
  have eq: "push_bit 8 (BigEndian_Uint64 a) OR ucast x = push_bit 8 (BigEndian_Uint64 b') OR ucast y"
    using snoc.prems(3) b by (simp add: BigEndian_snoc)
  then have "x = y" by (metis ucast_snoc)
  moreover have "BigEndian_Uint64 a = BigEndian_Uint64 b'"
  proof -
    have "bit (BigEndian_Uint64 a) n \<Longrightarrow> n < 56" "bit (BigEndian_Uint64 b') n \<Longrightarrow> n < 56" for n
      using BigEndian_bound [of a n] BigEndian_bound [of b' n] len by auto
    with eq show ?thesis using drop_bit_snoc by metis
  qed
  ultimately show ?case using snoc.IH [of b'] len b by simp
qed simp

section \<open>Formatting\<close>

definition digit_char :: "nat \<Rightarrow> char" where
  "digit_char d = ''0123456789'' ! d"

text \<open>The verb \<^verbatim>\<open>%d\<close> on a non-negative integer.\<close>

fun fmt_d :: "nat \<Rightarrow> string" where
  "fmt_d n = (if n < 10 then [digit_char n] else fmt_d (n div 10) @ [digit_char (n mod 10)])"

declare fmt_d.simps [simp del]

definition digit_chars :: "char set" where
  "digit_chars = set ''0123456789''"

lemma digit_char_inj: "d < 10 \<Longrightarrow> e < 10 \<Longrightarrow> digit_char d = digit_char e \<longleftrightarrow> d = e"
proof -
  have "distinct ''0123456789''" by simp
  then show "d < 10 \<Longrightarrow> e < 10 \<Longrightarrow> digit_char d = digit_char e \<longleftrightarrow> d = e"
    unfolding digit_char_def by (subst nth_eq_iff_index_eq) simp_all
qed

lemma digit_char_in: "d < 10 \<Longrightarrow> digit_char d \<in> digit_chars"
  unfolding digit_char_def digit_chars_def by (rule nth_mem) simp

lemma set_fmt_d: "set (fmt_d n) \<subseteq> digit_chars"
proof (induction n rule: fmt_d.induct)
  case (1 n)
  then show ?case by (subst fmt_d.simps) (auto simp: digit_char_in)
qed

lemma fmt_d_nonempty [simp]: "fmt_d n \<noteq> []"
  by (subst fmt_d.simps) simp

lemma fmt_d_inj: "fmt_d m = fmt_d n \<Longrightarrow> m = n"
proof (induction m arbitrary: n rule: fmt_d.induct)
  case (1 m)
  have ms: "fmt_d m = (if m < 10 then [digit_char m] else fmt_d (m div 10) @ [digit_char (m mod 10)])"
    and ns: "fmt_d n = (if n < 10 then [digit_char n] else fmt_d (n div 10) @ [digit_char (n mod 10)])"
    by (rule fmt_d.simps)+
  show ?case
  proof (cases "m < 10")
    case True
    with "1.prems" ms have fn: "fmt_d n = [digit_char m]" by simp
    have "n < 10"
    proof (rule ccontr)
      assume "\<not> n < 10"
      with fn ns have "fmt_d (n div 10) = []" by simp
      then show False by simp
    qed
    with True fn ns show ?thesis by (simp add: digit_char_inj)
  next
    case False
    then have fm: "fmt_d n = fmt_d (m div 10) @ [digit_char (m mod 10)]"
      using "1.prems" ms by simp
    have n: "\<not> n < 10"
    proof
      assume "n < 10"
      with fm ns have "fmt_d (m div 10) = []" by simp
      then show False by simp
    qed
    with fm ns have eq: "fmt_d (m div 10) = fmt_d (n div 10)"
      and "digit_char (m mod 10) = digit_char (n mod 10)" by simp_all
    then have "m mod 10 = n mod 10" by (simp add: digit_char_inj)
    moreover have "m div 10 = n div 10" by (rule "1.IH" [OF False eq])
    ultimately show ?thesis by (metis div_mult_mod_eq)
  qed
qed

lemma sharp_not_digit: "CHR ''#'' \<notin> digit_chars"
  by (simp add: digit_chars_def)

lemma fmt_d_no_sharp: "CHR ''#'' \<notin> set (fmt_d n)"
  using set_fmt_d sharp_not_digit by blast

section \<open>Hexadecimal\<close>

definition hex_char :: "nat \<Rightarrow> char" where
  "hex_char n = ''0123456789abcdef'' ! n"

text \<open>\<^verbatim>\<open>hex.EncodeToString\<close>: two lower-case digits a byte, the high half first.\<close>

definition EncodeToString :: "bytes \<Rightarrow> string" where
  "EncodeToString b = concat (map (\<lambda>x. [hex_char (unat x div 16), hex_char (unat x mod 16)]) b)"

definition hex_chars :: "char set" where
  "hex_chars = set ''0123456789abcdef''"

lemma hex_char_inj: "m < 16 \<Longrightarrow> n < 16 \<Longrightarrow> hex_char m = hex_char n \<longleftrightarrow> m = n"
proof -
  have "distinct ''0123456789abcdef''" by simp
  then show "m < 16 \<Longrightarrow> n < 16 \<Longrightarrow> hex_char m = hex_char n \<longleftrightarrow> m = n"
    unfolding hex_char_def by (subst nth_eq_iff_index_eq) simp_all
qed

lemma hex_char_in: "n < 16 \<Longrightarrow> hex_char n \<in> hex_chars"
  unfolding hex_char_def hex_chars_def by (rule nth_mem) simp

lemma byte_halves: "unat (x :: byte) div 16 < 16" "unat x mod 16 < 16"
  using unat_byte_less [of x] by auto

lemma EncodeToString_simps [simp]:
  "EncodeToString [] = []"
  "EncodeToString (x # b) = hex_char (unat x div 16) # hex_char (unat x mod 16) # EncodeToString b"
  by (simp_all add: EncodeToString_def)

lemma EncodeToString_inj: "EncodeToString a = EncodeToString b \<Longrightarrow> a = b"
proof (induction a arbitrary: b)
  case Nil
  then show ?case by (cases b) auto
next
  case (Cons x a)
  then obtain y b' where b: "b = y # b'" by (cases b) auto
  with Cons.prems have "unat x div 16 = unat y div 16" "unat x mod 16 = unat y mod 16"
    by (auto simp: hex_char_inj byte_halves)
  then have "unat x = unat y" by (metis div_mult_mod_eq)
  then have "x = y" by (simp add: unsigned_word_eqI)
  with Cons b show ?case by auto
qed

lemma length_EncodeToString [simp]: "length (EncodeToString b) = 2 * length b"
  by (induction b) auto

lemma set_EncodeToString: "set (EncodeToString b) \<subseteq> hex_chars"
  by (induction b) (auto simp: hex_char_in byte_halves)

section \<open>Strings\<close>

text \<open>\<^verbatim>\<open>strings.Index\<close>: where a substring first occurs.\<close>

fun strings_Index :: "string \<Rightarrow> string \<Rightarrow> nat option" where
  "strings_Index [] sub = (if sub = [] then Some 0 else None)"
| "strings_Index (c # s) sub = (if prefix sub (c # s) then Some 0 else map_option Suc (strings_Index s sub))"

text \<open>\<^verbatim>\<open>strings.Split\<close> at a separator of one character, and \<^verbatim>\<open>strings.SplitN\<close> into at most two parts.\<close>

fun strings_Split :: "char \<Rightarrow> string \<Rightarrow> string list" where
  "strings_Split x [] = [[]]"
| "strings_Split x (c # s) =
     (if c = x then [] # strings_Split x s
      else case strings_Split x s of [] \<Rightarrow> [[c]] | w # ws \<Rightarrow> (c # w) # ws)"

definition SplitN2 :: "char \<Rightarrow> string \<Rightarrow> string list" where
  "SplitN2 x s = (case strings_Index s [x] of None \<Rightarrow> [s] | Some i \<Rightarrow> [take i s, drop (Suc i) s])"

text \<open>
  \<^verbatim>\<open>strings.TrimSpace\<close> and \<^verbatim>\<open>strings.ToLower\<close> on ASCII, and
  \<^verbatim>\<open>strings.ReplaceAll\<close> of a pattern that is not empty.
\<close>

definition is_space :: "char \<Rightarrow> bool" where
  "is_space c \<longleftrightarrow> c \<in> {CHR 0x09, CHR 0x0A, CHR 0x0B, CHR 0x0C, CHR 0x0D, CHR '' ''}"

definition TrimSpace :: "string \<Rightarrow> string" where
  "TrimSpace s = rev (dropWhile is_space (rev (dropWhile is_space s)))"

definition lower_char :: "char \<Rightarrow> char" where
  "lower_char c = (if CHR ''A'' \<le> c \<and> c \<le> CHR ''Z'' then char_of (of_char c + 32 :: nat) else c)"

definition upper_char :: "char \<Rightarrow> char" where
  "upper_char c = (if CHR ''a'' \<le> c \<and> c \<le> CHR ''z'' then char_of (of_char c - 32 :: nat) else c)"

definition ToLower :: "string \<Rightarrow> string" where
  "ToLower s = map lower_char s"

function ReplaceAll :: "string \<Rightarrow> string \<Rightarrow> string \<Rightarrow> string" where
  "ReplaceAll old new s =
     (if s = [] \<or> old = [] then s
      else if prefix old s then new @ ReplaceAll old new (drop (length old) s)
      else hd s # ReplaceAll old new (tl s))"
  by pat_completeness auto
termination
  by (relation "measure (\<lambda>(old, new, s). length s)") auto

declare ReplaceAll.simps [simp del]

text \<open>\<^verbatim>\<open>strings.Join\<close>.\<close>

fun strings_Join :: "string \<Rightarrow> string list \<Rightarrow> string" where
  "strings_Join sep [] = ''''"
| "strings_Join sep [s] = s"
| "strings_Join sep (s # t # ss) = s @ sep @ strings_Join sep (t # ss)"

lemma strings_Split_nonempty [simp]: "strings_Split x s \<noteq> []"
  by (induction s) (auto split: list.split)

lemma strings_Split_free: "x \<notin> set s \<Longrightarrow> strings_Split x s = [s]"
  by (induction s) auto

lemma strings_Split_append: "x \<notin> set s \<Longrightarrow> strings_Split x (s @ x # t) = s # strings_Split x t"
  by (induction s) auto

lemma strings_Split_Join:
  "ss \<noteq> [] \<Longrightarrow> \<forall>s \<in> set ss. x \<notin> set s \<Longrightarrow> strings_Split x (strings_Join [x] ss) = ss"
  by (induction "[x]" ss rule: strings_Join.induct) (auto simp: strings_Split_free strings_Split_append)

lemma strings_Index_char: "x \<notin> set s \<Longrightarrow> strings_Index (s @ x # t) [x] = Some (length s)"
  by (induction s) auto

lemma SplitN2_append: "x \<notin> set s \<Longrightarrow> SplitN2 x (s @ x # t) = [s, t]"
  by (simp add: SplitN2_def strings_Index_char)

lemma strings_Index_None_char: "strings_Index s [x] = None \<longleftrightarrow> x \<notin> set s"
  by (induction s) auto

lemma SplitN2_free: "x \<notin> set s \<Longrightarrow> SplitN2 x s = [s]"
  using strings_Index_None_char [of s x] by (simp add: SplitN2_def)

lemma TrimSpace_id: "s = [] \<or> \<not> is_space (hd s) \<and> \<not> is_space (last s) \<Longrightarrow> TrimSpace s = s"
  by (auto simp: TrimSpace_def dropWhile_eq_self_iff [THEN iffD2] hd_rev)

lemma ReplaceAll_Nil [simp]: "ReplaceAll old new [] = []"
  by (simp add: ReplaceAll.simps)

section \<open>sort.Search\<close>

text \<open>
  The library's binary search: the least index in \<open>[0, n)\<close> at which \<open>f\<close> holds, \<open>n\<close> if
  there is none, provided \<open>f\<close> is false up to some index and true from there on.
\<close>

function search_loop :: "(nat \<Rightarrow> bool) \<Rightarrow> nat \<Rightarrow> nat \<Rightarrow> nat" where
  "search_loop f i j =
     (if i < j then
        let h = (i + j) div 2
        in if \<not> f h then search_loop f (Suc h) j else search_loop f i h
      else i)"
  by pat_completeness auto
termination
  by (relation "measure (\<lambda>(f, i, j). j - i)") auto

declare search_loop.simps [simp del]

definition sort_Search :: "nat \<Rightarrow> (nat \<Rightarrow> bool) \<Rightarrow> nat" where
  "sort_Search n f = search_loop f 0 n"

lemma search_loop_finds:
  assumes "i \<le> p" and "p \<le> j" and "\<And>k. k < lim \<Longrightarrow> f k \<longleftrightarrow> p \<le> k" and "j \<le> lim"
  shows "search_loop f i j = p"
  using assms
proof (induction f i j rule: search_loop.induct)
  case (1 f i j)
  show ?case
  proof (cases "i < j")
    case False
    with 1 show ?thesis by (subst search_loop.simps) auto
  next
    case True
    define h where "h = (i + j) div 2"
    have h: "i \<le> h" "h < j" using True by (auto simp: h_def)
    show ?thesis
    proof (cases "f h")
      case fh: True
      with h "1.prems" have "p \<le> h" by auto
      with 1(2) [OF True h_def] fh h "1.prems" have "search_loop f i h = p" by simp
      with True fh show ?thesis by (subst search_loop.simps) (simp add: Let_def h_def)
    next
      case fh: False
      with h "1.prems" have "Suc h \<le> p" by auto
      with 1(1) [OF True h_def] fh h "1.prems" have "search_loop f (Suc h) j = p" by simp
      with True fh show ?thesis by (subst search_loop.simps) (simp add: Let_def h_def)
    qed
  qed
qed

lemma sort_Search_sorted:
  assumes "sorted xs"
  shows "sort_Search (length xs) (\<lambda>i. h \<le> xs ! i) = length (takeWhile (\<lambda>x. x < h) xs)"
proof -
  let ?p = "length (takeWhile (\<lambda>x. x < h) xs)"
  have "(h \<le> xs ! k) = (?p \<le> k)" if k: "k < length xs" for k
  proof
    assume "h \<le> xs ! k"
    then show "?p \<le> k"
      by (metis linorder_not_less nth_mem set_takeWhileD takeWhile_nth)
  next
    assume pk: "?p \<le> k"
    with k have "?p < length xs" by simp
    from nth_length_takeWhile [OF this] have "\<not> xs ! ?p < h" .
    moreover have "xs ! ?p \<le> xs ! k" using assms pk k by (simp add: sorted_nth_mono)
    ultimately show "h \<le> xs ! k" by simp
  qed
  then show ?thesis
    unfolding sort_Search_def by (intro search_loop_finds [where lim = "length xs"]) (auto simp: length_takeWhile_le)
qed

end
