(* ===== verification/Chunk.thy ===== *)
theory Chunk
  imports GoLib
begin

text \<open>
  Content-addressed chunks, \<^verbatim>\<open>pkg/chunk/chunk.go\<close>: \<^verbatim>\<open>Split\<close>,
  \<^verbatim>\<open>ID\<close>, \<^verbatim>\<open>Verify\<close> and \<^verbatim>\<open>Reassemble\<close>. The SHA-256
  digest is an argument \<open>sha256\<close>. A reader is the list of what its successive
  \<^verbatim>\<open>Read\<close> calls deliver, so that every fragmentation of the stream is covered.
\<close>

section \<open>Readers\<close>

text \<open>
  A source delivers pieces of data and may end in an error, which it then repeats; after the
  last piece it reports \<^verbatim>\<open>io.EOF\<close>.
\<close>

datatype read_event = RData bytes | RErr go_error

type_synonym reader = "read_event list"

text \<open>\<^verbatim>\<open>Read\<close> into a buffer of \<open>k\<close> bytes: the bytes read, the error, the reader after it.\<close>

fun Read :: "nat \<Rightarrow> reader \<Rightarrow> bytes \<times> go_error option \<times> reader" where
  "Read k [] = ([], Some EOF, [])"
| "Read k (RErr e # rd) = ([], Some e, RErr e # rd)"
| "Read k (RData d # rd) =
     (if length d \<le> k then (d, None, rd) else (take k d, None, RData (drop k d) # rd))"

fun reader_size :: "reader \<Rightarrow> nat" where
  "reader_size [] = 0"
| "reader_size (RErr e # rd) = Suc (reader_size rd)"
| "reader_size (RData d # rd) = Suc (length d + reader_size rd)"

lemma Read_size: "Read k rd = (d, None, rd') \<Longrightarrow> 0 < k \<Longrightarrow> reader_size rd' < reader_size rd"
  by (induction k rd rule: Read.induct) (auto split: if_splits)

text \<open>The loop of \<^verbatim>\<open>io.ReadAtLeast\<close>, with the bytes read so far as accumulator.\<close>

function read_at_least :: "nat \<Rightarrow> bytes \<Rightarrow> reader \<Rightarrow> bytes \<times> go_error option \<times> reader" where
  "read_at_least k acc rd =
     (if length acc < k then
        case Read (k - length acc) rd of
          (d, None, rd') \<Rightarrow> read_at_least k (acc @ d) rd'
        | (d, Some e, rd') \<Rightarrow> (acc @ d, Some e, rd')
      else (acc, None, rd))"
  by pat_completeness auto
termination
  by (relation "measure (\<lambda>(k, acc, rd). reader_size rd)") (auto dest!: Read_size [OF sym])

declare read_at_least.simps [simp del]

definition ReadFull :: "nat \<Rightarrow> reader \<Rightarrow> bytes \<times> go_error option \<times> reader" where
  "ReadFull k rd =
     (case read_at_least k [] rd of (b, err, rd') \<Rightarrow>
        if k \<le> length b then (b, None, rd')
        else if 0 < length b \<and> err = Some EOF then (b, Some ErrUnexpectedEOF, rd')
        else (b, err, rd'))"

section \<open>Chunks and manifests\<close>

record chunk =
  chunkID :: string
  chunkIndex :: int
  chunkData :: bytes

record manifest =
  BlobID :: string
  Size :: "64 word"
  ChunkIDs :: "string list"
  ChunkSize :: int

definition DefaultSize :: int where
  "DefaultSize = 4 * 1024 * 1024"

definition ID :: "(bytes \<Rightarrow> bytes) \<Rightarrow> bytes \<Rightarrow> string" where
  "ID sha256 data = EncodeToString (sha256 data)"

definition Verify :: "(bytes \<Rightarrow> bytes) \<Rightarrow> string \<Rightarrow> bytes \<Rightarrow> bool" where
  "Verify sha256 cid data \<longleftrightarrow> ID sha256 data = cid"

text \<open>
  The read loop of \<^verbatim>\<open>Split\<close>. It has no bound of its own, so its model is a partial
  function: \<open>None\<close> is a loop that does not end. The state is the chunks so far, the
  \<^verbatim>\<open>int64\<close> total and the next index.
\<close>

partial_function (option) split_loop ::
  "(bytes \<Rightarrow> bytes) \<Rightarrow> string \<Rightarrow> nat \<Rightarrow> reader \<Rightarrow> chunk list \<Rightarrow> 64 word \<Rightarrow> int
     \<Rightarrow> (go_error + chunk list \<times> 64 word) option" where
  "split_loop sha256 blobID k rd chunks totalSize idx =
     (case ReadFull k rd of (buf, err, rd') \<Rightarrow>
        (let n = length buf;
             chunks' = (if 0 < n then chunks @ [\<lparr>chunkID = ID sha256 buf, chunkIndex = idx, chunkData = buf\<rparr>]
                        else chunks);
             totalSize' = (if 0 < n then totalSize + of_nat n else totalSize);
             idx' = (if 0 < n then idx + 1 else idx)
         in case err of
              Some e \<Rightarrow>
                if e = EOF then Some (Inr (chunks', totalSize'))
                else if e = ErrUnexpectedEOF then Some (Inr (chunks', totalSize'))
                else Some (Inl (Wrapped (''chunk: reading blob '' @ blobID) e))
            | None \<Rightarrow> split_loop sha256 blobID k rd' chunks' totalSize' idx'))"

definition Split ::
  "(bytes \<Rightarrow> bytes) \<Rightarrow> string \<Rightarrow> reader \<Rightarrow> int \<Rightarrow> (go_error + chunk list \<times> manifest) option" where
  "Split sha256 blobID r chunkSize0 =
     (let chunkSize = (if chunkSize0 \<le> 0 then DefaultSize else chunkSize0)
      in case split_loop sha256 blobID (nat chunkSize) r [] 0 0 of
           None \<Rightarrow> None
         | Some (Inl e) \<Rightarrow> Some (Inl e)
         | Some (Inr (chunks, totalSize)) \<Rightarrow>
             Some (Inr (chunks, \<lparr>BlobID = blobID, Size = totalSize,
                                 ChunkIDs = map chunkID chunks, ChunkSize = chunkSize\<rparr>)))"

text \<open>
  \<^verbatim>\<open>Reassemble\<close> over a world \<open>'s\<close> that the callback \<open>get\<close> and the writer share:
  both may change it and both may fail.
\<close>

fun reassemble_loop ::
  "(bytes \<Rightarrow> bytes) \<Rightarrow> (bytes \<Rightarrow> 's \<Rightarrow> go_error option \<times> 's) \<Rightarrow> (string \<Rightarrow> 's \<Rightarrow> (go_error + bytes) \<times> 's)
     \<Rightarrow> string list \<Rightarrow> 's \<Rightarrow> go_error option \<times> 's" where
  "reassemble_loop sha256 wr get [] s = (None, s)"
| "reassemble_loop sha256 wr get (cid # ids) s =
     (case get cid s of
        (Inl e, s1) \<Rightarrow> (Some (Wrapped (''chunk: fetching '' @ cid) e), s1)
      | (Inr data, s1) \<Rightarrow>
          if \<not> Verify sha256 cid data
          then (Some (Failure (''chunk: integrity check failed for '' @ cid)), s1)
          else case wr data s1 of
                 (Some e, s2) \<Rightarrow> (Some (Wrapped (''chunk: writing '' @ cid) e), s2)
               | (None, s2) \<Rightarrow> reassemble_loop sha256 wr get ids s2)"

definition Reassemble ::
  "(bytes \<Rightarrow> bytes) \<Rightarrow> (bytes \<Rightarrow> 's \<Rightarrow> go_error option \<times> 's) \<Rightarrow> manifest
     \<Rightarrow> (string \<Rightarrow> 's \<Rightarrow> (go_error + bytes) \<times> 's) \<Rightarrow> 's \<Rightarrow> go_error option \<times> 's" where
  "Reassemble sha256 wr m get s = reassemble_loop sha256 wr get (ChunkIDs m) s"

section \<open>What a reader delivers\<close>

fun content :: "reader \<Rightarrow> bytes" where
  "content [] = []"
| "content (RErr e # rd) = []"
| "content (RData d # rd) = d @ content rd"

fun ending :: "reader \<Rightarrow> go_error" where
  "ending [] = EOF"
| "ending (RErr e # rd) = e"
| "ending (RData d # rd) = ending rd"

lemma Read_spec:
  "Read k rd = (d, err, rd') \<Longrightarrow>
     content rd = d @ content rd' \<and> ending rd' = ending rd \<and> length d \<le> k \<and>
     (err \<noteq> None \<longrightarrow> d = [] \<and> content rd = [] \<and> content rd' = [] \<and> err = Some (ending rd))"
  by (induction k rd rule: Read.induct) (auto split: if_splits simp flip: append_assoc)

lemma read_at_least_spec:
  "length acc \<le> k \<Longrightarrow> \<exists>rd'. ending rd' = ending rd \<and>
     (if k \<le> length acc + length (content rd)
      then read_at_least k acc rd = (acc @ take (k - length acc) (content rd), None, rd')
           \<and> content rd' = drop (k - length acc) (content rd)
      else read_at_least k acc rd = (acc @ content rd, Some (ending rd), rd') \<and> content rd' = [])"
proof (induction k acc rd rule: read_at_least.induct)
  case (1 k acc rd)
  note unfold = read_at_least.simps [of k acc rd]
  show ?case
  proof (cases "length acc < k")
    case False
    with 1(2) show ?thesis by (intro exI [of _ rd]) (simp add: unfold)
  next
    case True
    obtain d err rd' where R: "Read (k - length acc) rd = (d, err, rd')" by (metis prod_cases3)
    note S = Read_spec [OF R]
    show ?thesis
    proof (cases err)
      case (Some e)
      with S True R show ?thesis by (intro exI [of _ rd']) (simp add: unfold)
    next
      case None
      have "length d \<le> k - length acc" using S by blast
      with True have "length (acc @ d) \<le> k" by simp
      from 1(1) [OF True R [symmetric] refl None this]
      obtain rd2 where IH: "ending rd2 = ending rd'"
        "if k \<le> length (acc @ d) + length (content rd')
         then read_at_least k (acc @ d) rd' = ((acc @ d) @ take (k - length (acc @ d)) (content rd'), None, rd2)
              \<and> content rd2 = drop (k - length (acc @ d)) (content rd')
         else read_at_least k (acc @ d) rd' = ((acc @ d) @ content rd', Some (ending rd'), rd2) \<and> content rd2 = []"
        by blast
      have eq: "read_at_least k acc rd = read_at_least k (acc @ d) rd'"
        using True R None by (simp add: unfold)
      show ?thesis
        using IH S True unfolding eq by (intro exI [of _ rd2]) (auto split: if_splits)
    qed
  qed
qed

lemma ReadFull_spec:
  assumes "0 < k"
  shows "\<exists>rd'. ending rd' = ending rd \<and>
     (if k \<le> length (content rd)
      then ReadFull k rd = (take k (content rd), None, rd') \<and> content rd' = drop k (content rd)
      else ReadFull k rd = (content rd,
             Some (if content rd \<noteq> [] \<and> ending rd = EOF then ErrUnexpectedEOF else ending rd), rd'))"
  using read_at_least_spec [of "[]" k rd] assms
  by (auto simp: ReadFull_def split: if_splits)

section \<open>Split in closed form\<close>

function pieces :: "nat \<Rightarrow> bytes \<Rightarrow> bytes list" where
  "pieces k b = (if k = 0 \<or> b = [] then [] else take k b # pieces k (drop k b))"
  by pat_completeness auto
termination
  by (relation "measure (\<lambda>(k, b). length b)") auto

declare pieces.simps [simp del]

definition make_chunks :: "(bytes \<Rightarrow> bytes) \<Rightarrow> int \<Rightarrow> bytes list \<Rightarrow> chunk list" where
  "make_chunks sha256 i ds =
     map (\<lambda>(j, d). \<lparr>chunkID = ID sha256 d, chunkIndex = i + int j, chunkData = d\<rparr>) (enumerate 0 ds)"

lemma make_chunks_simps [simp]:
  "make_chunks sha256 i [] = []"
  "make_chunks sha256 i (d # ds) =
     \<lparr>chunkID = ID sha256 d, chunkIndex = i, chunkData = d\<rparr> # make_chunks sha256 (i + 1) ds"
  by (simp_all add: make_chunks_def enumerate_Suc_eq comp_def split_beta algebra_simps)

lemma make_chunks_data [simp]: "map chunkData (make_chunks sha256 i ds) = ds"
  by (induction ds arbitrary: i) auto

lemma make_chunks_ids [simp]: "map chunkID (make_chunks sha256 i ds) = map (ID sha256) ds"
  by (induction ds arbitrary: i) auto

lemma make_chunks_mem:
  "d \<in> set ds \<Longrightarrow> \<exists>ch \<in> set (make_chunks sha256 i ds). chunkData ch = d \<and> chunkID ch = ID sha256 d"
  by (induction ds arbitrary: i) auto

lemma make_chunks_index: "map chunkIndex (make_chunks sha256 i ds) = map (\<lambda>j. i + int j) [0..<length ds]"
  by (rule nth_equalityI) (simp_all add: make_chunks_def split_beta enumerate_eq_zip)

lemma pieces_Nil [simp]: "pieces k [] = []"
  by (simp add: pieces.simps [of k "[]"])

lemma pieces_step: "0 < k \<Longrightarrow> b \<noteq> [] \<Longrightarrow> pieces k b = take k b # pieces k (drop k b)"
  by (simp add: pieces.simps [of k b])

lemma pieces_short: "0 < k \<Longrightarrow> b \<noteq> [] \<Longrightarrow> length b \<le> k \<Longrightarrow> pieces k b = [b]"
  by (simp add: pieces_step)

lemma concat_pieces: "0 < k \<Longrightarrow> concat (pieces k b) = b"
proof (induction k b rule: pieces.induct)
  case (1 k b)
  then show ?case by (cases "b = []") (simp_all add: pieces_step)
qed

lemma pieces_bounds: "d \<in> set (pieces k b) \<Longrightarrow> 0 < length d \<and> length d \<le> k"
proof (induction k b rule: pieces.induct)
  case (1 k b)
  then show ?case by (cases "k = 0 \<or> b = []") (auto simp: pieces.simps [of k b])
qed

lemma pieces_full: "i + 1 < length (pieces k b) \<Longrightarrow> length (pieces k b ! i) = k"
proof (induction k b arbitrary: i rule: pieces.induct)
  case (1 k b)
  have kb: "\<not> (k = 0 \<or> b = [])"
  proof
    assume "k = 0 \<or> b = []"
    then have "pieces k b = []" by (simp only: pieces.simps [of k b] if_True)
    with "1.prems" show False by simp
  qed
  show ?case
  proof (cases i)
    case 0
    with "1.prems" kb have "pieces k (drop k b) \<noteq> []" by (auto simp: pieces.simps [of k b])
    then have "drop k b \<noteq> []" by auto
    with 0 kb show ?thesis by (simp add: pieces.simps [of k b])
  next
    case (Suc j)
    from "1.prems" Suc kb have "j + 1 < length (pieces k (drop k b))" by (simp add: pieces.simps [of k b])
    from "1.IH" [OF kb this] Suc kb show ?thesis by (simp add: pieces.simps [of k b])
  qed
qed

text \<open>The errors after which \<^verbatim>\<open>Split\<close> reports success.\<close>

definition accepted_end :: "go_error \<Rightarrow> bool" where
  "accepted_end e \<longleftrightarrow> e = EOF \<or> e = ErrUnexpectedEOF"

definition split_result ::
  "(bytes \<Rightarrow> bytes) \<Rightarrow> string \<Rightarrow> nat \<Rightarrow> bytes \<Rightarrow> go_error \<Rightarrow> chunk list \<Rightarrow> 64 word \<Rightarrow> int
     \<Rightarrow> (go_error + chunk list \<times> 64 word)" where
  "split_result sha256 blobID k b e chunks tot idx =
     (if accepted_end e
      then Inr (chunks @ make_chunks sha256 idx (pieces k b), tot + of_nat (length b))
      else Inl (Wrapped (''chunk: reading blob '' @ blobID) e))"

lemma split_loop_spec:
  assumes "0 < k"
  shows "split_loop sha256 blobID k rd chunks tot idx
    = Some (split_result sha256 blobID k (content rd) (ending rd) chunks tot idx)"
proof (induction "length (content rd)" arbitrary: rd chunks tot idx rule: less_induct)
  case less
  obtain rd' where e': "ending rd' = ending rd" and R:
    "if k \<le> length (content rd)
     then ReadFull k rd = (take k (content rd), None, rd') \<and> content rd' = drop k (content rd)
     else ReadFull k rd = (content rd,
            Some (if content rd \<noteq> [] \<and> ending rd = EOF then ErrUnexpectedEOF else ending rd), rd')"
    using ReadFull_spec [OF assms, of rd] by blast
  note unfold = split_loop.simps [of sha256 blobID k rd chunks tot idx]
  show ?case
  proof (cases "k \<le> length (content rd)")
    case False
    with R assms show ?thesis
      by (cases "content rd = []")
         (simp_all add: unfold split_result_def accepted_end_def pieces_short)
  next
    case True
    let ?d = "take k (content rd)"
    let ?chunks = "chunks @ [\<lparr>chunkID = ID sha256 ?d, chunkIndex = idx, chunkData = ?d\<rparr>]"
    have ne: "content rd \<noteq> []" using True assms by auto
    have IH: "split_loop sha256 blobID k rd' ?chunks (tot + of_nat k) (idx + 1)
        = Some (split_result sha256 blobID k (content rd') (ending rd') ?chunks (tot + of_nat k) (idx + 1))"
      by (rule less) (use True R ne assms in auto)
    have len: "of_nat k + of_nat (length (content rd) - k) = (of_nat (length (content rd)) :: 64 word)"
      using True by (metis le_add_diff_inverse of_nat_add)
    have "split_loop sha256 blobID k rd chunks tot idx
        = split_loop sha256 blobID k rd' ?chunks (tot + of_nat k) (idx + 1)"
      using R True ne assms by (subst unfold) (simp add: Let_def min_def)
    also note IH
    also have "split_result sha256 blobID k (content rd') (ending rd') ?chunks (tot + of_nat k) (idx + 1)
        = split_result sha256 blobID k (content rd) (ending rd) chunks tot idx"
      using R True ne assms len e' by (simp add: split_result_def pieces_step add.assoc)
    finally show ?thesis .
  qed
qed

definition effective_size :: "int \<Rightarrow> int" where
  "effective_size chunkSize = (if chunkSize \<le> 0 then DefaultSize else chunkSize)"

lemma effective_size_pos [simp]: "0 < effective_size c"
  by (simp add: effective_size_def DefaultSize_def)

lemma Split_spec:
  "Split sha256 blobID rd c = Some
     (if accepted_end (ending rd)
      then let ds = pieces (nat (effective_size c)) (content rd)
           in Inr (make_chunks sha256 0 ds,
                   \<lparr>BlobID = blobID, Size = of_nat (length (content rd)),
                    ChunkIDs = map (ID sha256) ds, ChunkSize = effective_size c\<rparr>)
      else Inl (Wrapped (''chunk: reading blob '' @ blobID) (ending rd)))"
  using effective_size_pos [of c]
  unfolding Split_def effective_size_def [symmetric]
  by (simp add: split_loop_spec split_result_def Let_def)

section \<open>Reassembly over any source and any sink\<close>

text \<open>
  The contract of the two parameters of \<^verbatim>\<open>Reassemble\<close>: fetching does not touch
  the output, a successful write appends the whole piece, a failed one a part of it. As long as
  \<open>inv\<close> holds, asking for one of \<open>ids\<close> is answered by a member of \<open>served\<close>, the byte
  strings the source may hand out, correct or not.
\<close>

locale blob_io =
  fixes get :: "string \<Rightarrow> 's \<Rightarrow> (go_error + bytes) \<times> 's"
    and wr :: "bytes \<Rightarrow> 's \<Rightarrow> go_error option \<times> 's"
    and out :: "'s \<Rightarrow> bytes"
    and inv :: "'s \<Rightarrow> bool"
    and ids :: "string set"
    and served :: "bytes set"
  assumes get_out: "get c s = (x, s') \<Longrightarrow> out s' = out s"
    and get_inv: "inv s \<Longrightarrow> c \<in> ids \<Longrightarrow> get c s = (x, s') \<Longrightarrow> inv s'"
    and get_served: "inv s \<Longrightarrow> c \<in> ids \<Longrightarrow> get c s = (Inr d, s') \<Longrightarrow> d \<in> served"
    and write_inv: "inv s \<Longrightarrow> wr d s = (r, s') \<Longrightarrow> inv s'"
    and write_ok: "wr d s = (None, s') \<Longrightarrow> out s' = out s @ d"
    and write_err: "wr d s = (Some e, s') \<Longrightarrow> \<exists>n. out s' = out s @ take n d"
begin

lemma reassemble_prefix:
  assumes "inv s" and "inj_on sha256 (set ds \<union> served)" and "ID sha256 ` set ds \<subseteq> ids"
    and "reassemble_loop sha256 wr get (map (ID sha256) ds) s = (r, s')"
  shows "\<exists>n. out s' = out s @ take n (concat ds) \<and> (r = None \<longrightarrow> out s' = out s @ concat ds)"
  using assms
proof (induction ds arbitrary: s)
  case (Cons d ds)
  have d: "ID sha256 d \<in> ids" using Cons.prems(3) by simp
  obtain x s1 where g: "get (ID sha256 d) s = (x, s1)" by (cases "get (ID sha256 d) s") auto
  have o1: "out s1 = out s" using get_out [OF g] .
  have i1: "inv s1" using get_inv [OF Cons.prems(1) d g] .
  consider (stop) "(\<exists>e. x = Inl e) \<or> (\<exists>b. x = Inr b \<and> \<not> Verify sha256 (ID sha256 d) b)"
    | (ok) b where "x = Inr b" "Verify sha256 (ID sha256 d) b" by (cases x) auto
  then show ?case
  proof cases
    case stop
    with Cons.prems(4) g have "s' = s1" "r \<noteq> None" by auto
    with o1 show ?thesis by (intro exI [of _ 0]) auto
  next
    case ok
    then have "sha256 b = sha256 d" by (auto simp: Verify_def ID_def dest: EncodeToString_inj)
    moreover have "b \<in> set (d # ds) \<union> served" "d \<in> set (d # ds) \<union> served"
      using get_served [OF Cons.prems(1) d, of b s1] g ok by simp_all
    ultimately have "b = d" by (metis inj_onD [OF Cons.prems(2)])
    obtain w s2 where w: "wr b s1 = (w, s2)" by (cases "wr b s1") auto
    show ?thesis
    proof (cases w)
      case (Some e)
      with write_err [of b s1 e s2] w obtain n where "out s2 = out s1 @ take n b" by auto
      moreover have "s' = s2" "r \<noteq> None" using Cons.prems(4) g ok w Some by auto
      ultimately show ?thesis using o1 \<open>b = d\<close>
        by (intro exI [of _ "min n (length d)"]) (auto simp: min_def)
    next
      case None
      with Cons.prems(4) g ok w have
        "reassemble_loop sha256 wr get (map (ID sha256) ds) s2 = (r, s')" by simp
      moreover have "inj_on sha256 (set ds \<union> served)"
        using Cons.prems(2) by (rule inj_on_subset) auto
      moreover have "ID sha256 ` set ds \<subseteq> ids" using Cons.prems(3) by simp
      ultimately obtain n where n: "out s' = out s2 @ take n (concat ds)"
        "r = None \<longrightarrow> out s' = out s2 @ concat ds"
        using Cons.IH [OF write_inv [OF i1 w]] by blast
      have "out s2 = out s @ d" using write_ok [of b s1 s2] w None o1 \<open>b = d\<close> by simp
      with n show ?thesis by (intro exI [of _ "length d + n"]) simp
    qed
  qed
qed simp

lemma reassemble_complete:
  assumes "P s" and "\<And>d s. P s \<Longrightarrow> d \<in> set ds \<Longrightarrow> \<exists>s'. get (ID sha256 d) s = (Inr d, s') \<and> P s'"
    and "\<And>d s. P s \<Longrightarrow> d \<in> set ds \<Longrightarrow> \<exists>s'. wr d s = (None, s') \<and> P s'"
  shows "\<exists>s'. reassemble_loop sha256 wr get (map (ID sha256) ds) s = (None, s')
    \<and> out s' = out s @ concat ds \<and> P s'"
  using assms
proof (induction ds arbitrary: s)
  case (Cons d ds)
  obtain s1 where g: "get (ID sha256 d) s = (Inr d, s1)" "P s1" using Cons.prems(1,2) by force
  obtain s2 where w: "wr d s1 = (None, s2)" "P s2" using Cons.prems(3) [OF g(2), of d] by auto
  obtain s' where s': "reassemble_loop sha256 wr get (map (ID sha256) ds) s2 = (None, s')"
    "out s' = out s2 @ concat ds" "P s'" using Cons.IH [OF w(2)] Cons.prems(2,3) by auto
  moreover have "out s2 = out s @ d" using write_ok [OF w(1)] get_out [OF g(1)] by simp
  ultimately show ?case using g w by (auto simp: Verify_def)
qed simp

end

text \<open>\<^verbatim>\<open>bytes.Buffer\<close> as the sink and a fixed lookup as the source.\<close>

definition buffer_Write :: "bytes \<Rightarrow> bytes \<Rightarrow> go_error option \<times> bytes" where
  "buffer_Write d buf = (None, buf @ d)"

definition lookup_get :: "(string \<Rightarrow> go_error + bytes) \<Rightarrow> string \<Rightarrow> 's \<Rightarrow> (go_error + bytes) \<times> 's" where
  "lookup_get g c s = (g c, s)"

interpretation buf: blob_io "lookup_get g" buffer_Write "\<lambda>s. s" "\<lambda>s. True" UNIV "{d. \<exists>c. g c = Inr d}" for g
  by unfold_locales (auto simp: lookup_get_def buffer_Write_def)

section \<open>Properties\<close>

text \<open>
  C30. \<^verbatim>\<open>Split\<close> returns for every reader and every chunk size, and what it
  returns depends only on the bytes delivered and on the final error, never on how the reads
  were fragmented.
\<close>

theorem Split_total_and_fragmentation_independent:
  assumes "content rd = content rd'" and "ending rd = ending rd'"
  shows "\<exists>res. Split sha256 blobID rd c = Some res \<and> Split sha256 blobID rd' c = Some res"
  using assms by (simp add: Split_spec)

lemma Split_total_and_fragmentation_independent_witness:
  "\<exists>res. Split (\<lambda>b. b) ''x'' [RData [1, 2], RData [], RData [3]] 2 = Some res
       \<and> Split (\<lambda>b. b) ''x'' [RData [1], RData [2, 3], RErr EOF] 2 = Some res"
  by (rule Split_total_and_fragmentation_independent) simp_all

text \<open>
  C29. On a stream that ends properly \<^verbatim>\<open>Split\<close> cuts the bytes into chunks of the
  chunk size (the default for a size that is not positive), only the last one shorter and none
  empty; the indices count up from 0, every ID is the hash of its data, and the manifest lists
  the IDs in order with the total length (modulo the 64 bits of its size field).
\<close>

theorem Split_partitions_stream:
  assumes "ending rd = EOF"
  shows "\<exists>chunks m. Split sha256 blobID rd c = Some (Inr (chunks, m))
    \<and> concat (map chunkData chunks) = content rd
    \<and> (\<forall>ch \<in> set chunks. 0 < length (chunkData ch) \<and> int (length (chunkData ch)) \<le> effective_size c
                           \<and> Verify sha256 (chunkID ch) (chunkData ch))
    \<and> (\<forall>i. i + 1 < length chunks \<longrightarrow> int (length (chunkData (chunks ! i))) = effective_size c)
    \<and> map chunkIndex chunks = map int [0..<length chunks]
    \<and> m = \<lparr>BlobID = blobID, Size = of_nat (length (content rd)),
           ChunkIDs = map chunkID chunks, ChunkSize = effective_size c\<rparr>"
proof -
  let ?k = "nat (effective_size c)"
  let ?ds = "pieces ?k (content rd)"
  let ?cs = "make_chunks sha256 0 ?ds"
  have k: "0 < ?k" "int ?k = effective_size c"
    using less_imp_le [OF effective_size_pos, of c] by simp_all
  have data: "map chunkData ?cs = ?ds" by simp
  have len: "length ?cs = length ?ds" by (simp add: make_chunks_def)
  have "0 < length (chunkData ch) \<and> int (length (chunkData ch)) \<le> effective_size c
      \<and> Verify sha256 (chunkID ch) (chunkData ch)" if "ch \<in> set ?cs" for ch
  proof -
    have "chunkData ch \<in> set ?ds" "Verify sha256 (chunkID ch) (chunkData ch)"
      using that by (auto simp: make_chunks_def Verify_def enumerate_eq_zip dest: set_zip_rightD)
    moreover from this have b: "0 < length (chunkData ch)" "length (chunkData ch) \<le> ?k"
      using pieces_bounds by blast+
    from b(2) have "int (length (chunkData ch)) \<le> int ?k" by (rule of_nat_mono)
    ultimately show ?thesis using b(1) by (simp only: k(2))
  qed
  moreover have "int (length (chunkData (?cs ! i))) = effective_size c" if "i + 1 < length ?cs" for i
  proof -
    have "chunkData (?cs ! i) = ?ds ! i" using that len by (metis add_lessD1 data nth_map)
    then show ?thesis using pieces_full [of i ?k "content rd"] that len k by simp
  qed
  ultimately show ?thesis
    using assms concat_pieces [OF k(1), of "content rd"]
    by (intro exI [of _ ?cs] exI) (auto simp: Split_spec Let_def accepted_end_def len make_chunks_index)
qed

lemma Split_partitions_stream_witness:
  "\<exists>chunks m. Split (\<lambda>b. b) ''x'' [RData [1, 2, 3]] 2 = Some (Inr (chunks, m))
     \<and> concat (map chunkData chunks) = [1, 2, 3]"
  using Split_partitions_stream [of "[RData [1, 2, 3]]" "\<lambda>b. b" "''x''" 2] by auto

text \<open>
  A stream cut short is not told apart from one that ends: when the source reports
  \<^verbatim>\<open>io.ErrUnexpectedEOF\<close> (as an HTTP request body does when the client disconnects
  before its announced length), \<^verbatim>\<open>Split\<close> returns success with the chunks and the
  manifest of the truncated bytes.
\<close>

lemma Split_accepts_truncated_stream:
  "Split sha256 blobID [RData d, RErr ErrUnexpectedEOF] c = Split sha256 blobID [RData d] c
    \<and> (\<exists>chunks m. Split sha256 blobID [RData d, RErr ErrUnexpectedEOF] c = Some (Inr (chunks, m))
          \<and> concat (map chunkData chunks) = d)"
  using concat_pieces [of "nat (effective_size c)" d]
  by (simp add: Split_spec accepted_end_def Let_def)

text \<open>
  Any other read error is reported, wrapped with the blob's name, and no chunk or manifest
  is returned, wherever in the stream it occurs.
\<close>

lemma Split_reports_read_error:
  assumes "ending rd \<noteq> EOF" and "ending rd \<noteq> ErrUnexpectedEOF"
  shows "Split sha256 blobID rd c = Some (Inl (Wrapped (''chunk: reading blob '' @ blobID) (ending rd)))
    \<and> errors_Is (Wrapped (''chunk: reading blob '' @ blobID) (ending rd)) (ending rd)"
proof -
  have "errors_Is e e" for e by (cases e) auto
  with assms show ?thesis by (simp add: Split_spec accepted_end_def)
qed

lemma Split_reports_read_error_witness:
  "Split (\<lambda>b. b) ''x'' [RData [1], RErr (Failure ''reset'')] 4
     = Some (Inl (Wrapped ''chunk: reading blob x'' (Failure ''reset'')))"
  using Split_reports_read_error [of "[RData [1], RErr (Failure ''reset'')]"] by simp

text \<open>
  C14. What \<^verbatim>\<open>Split\<close> took apart \<^verbatim>\<open>Reassemble\<close> puts together: from any
  store that returns each chunk of the manifest, the writer receives exactly the original bytes
  and no error is reported.
\<close>

theorem Split_Reassemble_roundtrip:
  assumes "Split sha256 blobID rd c = Some (Inr (chunks, m))"
    and "\<And>ch. ch \<in> set chunks \<Longrightarrow> g (chunkID ch) = Inr (chunkData ch)"
  shows "Reassemble sha256 buffer_Write m (lookup_get g) [] = (None, content rd)"
proof -
  let ?ds = "pieces (nat (effective_size c)) (content rd)"
  have m: "chunks = make_chunks sha256 0 ?ds" "ChunkIDs m = map (ID sha256) ?ds"
    using assms(1) by (auto simp: Split_spec Let_def split: if_splits)
  have "g (ID sha256 d) = Inr d" if "d \<in> set ?ds" for d
  proof -
    from that obtain ch where "ch \<in> set chunks" "chunkData ch = d" "chunkID ch = ID sha256 d"
      unfolding m(1) using make_chunks_mem by blast
    with assms(2) show ?thesis by metis
  qed
  then show ?thesis
    using buf.reassemble_complete [where P = "\<lambda>s. True" and ds = ?ds and g = g and s = "[]"] less_imp_le [OF effective_size_pos, of c]
    by (simp add: Reassemble_def m(2) lookup_get_def buffer_Write_def concat_pieces)
qed

lemma Split_Reassemble_roundtrip_witness:
  "\<exists>chunks m. Split (\<lambda>b. b) ''x'' [RData [1, 2, 3]] 2 = Some (Inr (chunks, m))
     \<and> Reassemble (\<lambda>b. b) buffer_Write m
         (lookup_get (\<lambda>c. if c = ''0102'' then Inr [1, 2] else Inr [3])) [] = (None, [1, 2, 3])"
proof -
  let ?ds = "[[1, 2], [3]] :: bytes list"
  have ds: "pieces 2 [1, 2, 3] = ?ds" by (simp add: pieces_step)
  let ?m = "\<lparr>BlobID = ''x'', Size = 3, ChunkIDs = map (ID (\<lambda>b. b)) ?ds, ChunkSize = 2\<rparr>"
  have S: "Split (\<lambda>b. b) ''x'' [RData [1, 2, 3]] 2 = Some (Inr (make_chunks (\<lambda>b. b) 0 ?ds, ?m))"
    by (simp add: Split_spec accepted_end_def Let_def effective_size_def ds)
  let ?g = "\<lambda>c. if c = ''0102'' then Inr [1, 2] else Inr [3]"
  have "?g (chunkID ch) = Inr (chunkData ch)" if "ch \<in> set (make_chunks (\<lambda>b. b) 0 ?ds)" for ch
    using that by (auto simp: ID_def hex_char_def)
  from Split_Reassemble_roundtrip [OF S, of ?g, OF this] S show ?thesis
    by (intro exI [of _ "make_chunks (\<lambda>b. b) 0 ?ds"] exI [of _ ?m] conjI) simp_all
qed

text \<open>
  Whatever the source serves, corrupted or stale, \<^verbatim>\<open>Reassemble\<close> never emits a
  wrong byte: the output is always a prefix of the original, and it is the whole original when
  no error is reported; provided the digest separates the chunks from what is served.
\<close>

lemma Reassemble_never_corrupts:
  assumes "Split sha256 blobID rd c = Some (Inr (chunks, m))"
    and "inj_on sha256 (chunkData ` set chunks \<union> {d. \<exists>i. g i = Inr d})"
    and "Reassemble sha256 buffer_Write m (lookup_get g) [] = (err, w)"
  shows "prefix w (content rd) \<and> (err = None \<longrightarrow> w = content rd)"
proof -
  let ?ds = "pieces (nat (effective_size c)) (content rd)"
  have m: "chunks = make_chunks sha256 0 ?ds" "ChunkIDs m = map (ID sha256) ?ds"
    using assms(1) by (auto simp: Split_spec Let_def split: if_splits)
  have "chunkData ` set chunks = set ?ds" unfolding m(1) by (metis list.set_map make_chunks_data)
  with assms(2) have inj: "inj_on sha256 (set ?ds \<union> {d. \<exists>i. g i = Inr d})" by simp
  have run: "reassemble_loop sha256 buffer_Write (lookup_get g) (map (ID sha256) ?ds) [] = (err, w)"
    using assms(3) by (simp add: Reassemble_def m(2))
  show ?thesis
    using buf.reassemble_prefix [OF TrueI inj subset_UNIV run] concat_pieces [of "nat (effective_size c)" "content rd"]
    by (auto simp: take_is_prefix)
qed

lemma Reassemble_never_corrupts_witness:
  "prefix (snd (Reassemble (\<lambda>b. b) buffer_Write
       \<lparr>BlobID = ''x'', Size = 3, ChunkIDs = [ID (\<lambda>b. b) [1, 2], ID (\<lambda>b. b) [3]], ChunkSize = 2\<rparr>
       (lookup_get (\<lambda>c. Inr [1, 2])) [])) [1, 2, 3]"
proof -
  let ?ds = "[[1, 2], [3]] :: bytes list"
  have ds: "pieces 2 [1, 2, 3] = ?ds" by (simp add: pieces_step)
  let ?m = "\<lparr>BlobID = ''x'', Size = 3, ChunkIDs = map (ID (\<lambda>b. b)) ?ds, ChunkSize = 2\<rparr>"
  have S: "Split (\<lambda>b. b) ''x'' [RData [1, 2, 3]] 2 = Some (Inr (make_chunks (\<lambda>b. b) 0 ?ds, ?m))"
    by (simp add: Split_spec accepted_end_def Let_def effective_size_def ds)
  have inj: "inj_on (\<lambda>b. b) A" for A :: "bytes set" by (simp add: inj_on_def)
  show ?thesis
    using Reassemble_never_corrupts [OF S inj, of "\<lambda>c. Inr [1, 2]", OF surjective_pairing] by simp
qed

end
