(* ===== verification/GoNet.thy ===== *)
theory GoNet
  imports Chunk
begin

text \<open>
  The parts of \<^verbatim>\<open>net/url\<close> and \<^verbatim>\<open>net/http\<close> the S3 client computes
  with, and \<^verbatim>\<open>crypto/hmac\<close>: percent encoding, the parsing of an absolute URL, query
  strings, request headers and requests. A URL is read down to its host, its decoded path and its
  raw query. URLs without a scheme and an authority, with user information, or with a bracketed
  or percent-encoded host are outside the model: their parsing fails here.
\<close>

section \<open>Percent encoding\<close>

abbreviation between :: "char \<Rightarrow> char \<Rightarrow> char \<Rightarrow> bool" where
  "between lo hi c \<equiv> lo \<le> c \<and> c \<le> hi"

definition is_digit :: "char \<Rightarrow> bool" where
  "is_digit = between (CHR ''0'') (CHR ''9'')"

definition is_letter :: "char \<Rightarrow> bool" where
  "is_letter c \<longleftrightarrow> between (CHR ''A'') (CHR ''Z'') c \<or> between (CHR ''a'') (CHR ''z'') c"

definition unreserved :: "char \<Rightarrow> bool" where
  "unreserved c \<longleftrightarrow> is_letter c \<or> is_digit c \<or> c \<in> set ''-_.~''"

definition upper_hex :: "nat \<Rightarrow> char" where
  "upper_hex n = ''0123456789ABCDEF'' ! n"

definition percent :: "char \<Rightarrow> string" where
  "percent c = [CHR ''%'', upper_hex (of_char c div 16), upper_hex (of_char c mod 16)]"

text \<open>\<^verbatim>\<open>url.PathEscape\<close> and \<^verbatim>\<open>url.QueryEscape\<close>.\<close>

definition segment_char :: "char \<Rightarrow> bool" where
  "segment_char c \<longleftrightarrow> unreserved c \<or> c \<in> set ''$&+:=@''"

definition PathEscape :: "string \<Rightarrow> string" where
  "PathEscape s = concat (map (\<lambda>c. if segment_char c then [c] else percent c) s)"

definition QueryEscape :: "string \<Rightarrow> string" where
  "QueryEscape s =
     concat (map (\<lambda>c. if c = CHR '' '' then ''+'' else if unreserved c then [c] else percent c) s)"

text \<open>\<^verbatim>\<open>unescape\<close> of a path, and of a query, where \<^verbatim>\<open>+\<close> stands for a space.\<close>

definition hex_digit :: "char \<Rightarrow> nat option" where
  "hex_digit c =
     (if is_digit c then Some (of_char c - 48)
      else if between (CHR ''a'') (CHR ''f'') c then Some (of_char c - 87)
      else if between (CHR ''A'') (CHR ''F'') c then Some (of_char c - 55)
      else None)"

fun unescape :: "bool \<Rightarrow> string \<Rightarrow> go_error + string" where
  "unescape query [] = Inr []"
| "unescape query (c # s) =
     (if c = CHR ''%'' then
        (case s of
           a # b # t \<Rightarrow>
             (case (hex_digit a, hex_digit b) of
                (Some m, Some n) \<Rightarrow>
                  (case unescape query t of
                     Inl e \<Rightarrow> Inl e
                   | Inr r \<Rightarrow> Inr (char_of (16 * m + n) # r))
              | r \<Rightarrow> Inl (Failure ''invalid URL escape''))
         | r \<Rightarrow> Inl (Failure ''invalid URL escape''))
      else
        (case unescape query s of
           Inl e \<Rightarrow> Inl e
         | Inr r \<Rightarrow> Inr ((if query \<and> c = CHR ''+'' then CHR '' '' else c) # r)))"

section \<open>URLs\<close>

record url =
  url_Host :: string
  url_Path :: string
  RawQuery :: string

definition is_control :: "char \<Rightarrow> bool" where
  "is_control c \<longleftrightarrow> (of_char c :: nat) < 32 \<or> c = CHR 0x7F"

definition cut_at :: "char \<Rightarrow> string \<Rightarrow> string \<times> string" where
  "cut_at x s = (takeWhile (\<lambda>c. c \<noteq> x) s, drop 1 (dropWhile (\<lambda>c. c \<noteq> x) s))"

definition valid_scheme :: "string \<Rightarrow> bool" where
  "valid_scheme s \<longleftrightarrow> s \<noteq> [] \<and> is_letter (hd s)
     \<and> list_all (\<lambda>c. is_letter c \<or> is_digit c \<or> c \<in> set ''+-.'') s"

definition host_char :: "char \<Rightarrow> bool" where
  "host_char c \<longleftrightarrow> unreserved c \<or> c \<in> set ''!$&()*+,;=:<>'' \<or> c = CHR 0x22 \<or> c = CHR 0x27 \<or> 128 \<le> (of_char c :: nat)"

text \<open>A host may end in a colon and a decimal port; an empty port is dropped by \<^verbatim>\<open>NewRequest\<close>.\<close>

definition valid_host :: "string \<Rightarrow> bool" where
  "valid_host h \<longleftrightarrow> list_all host_char h
     \<and> (CHR '':'' \<in> set h \<longrightarrow> list_all is_digit (rev (takeWhile (\<lambda>c. c \<noteq> CHR '':'') (rev h))))"

definition removeEmptyPort :: "string \<Rightarrow> string" where
  "removeEmptyPort h = (if h \<noteq> [] \<and> last h = CHR '':'' then butlast h else h)"

definition url_Parse :: "string \<Rightarrow> go_error + url" where
  "url_Parse raw =
     (let (u, frag) = cut_at (CHR ''#'') raw;
          (u1, query) = cut_at (CHR ''?'') u;
          (scheme, rest) = cut_at (CHR '':'') u1;
          (host, path) = (takeWhile (\<lambda>c. c \<noteq> CHR ''/'') (drop 2 rest), dropWhile (\<lambda>c. c \<noteq> CHR ''/'') (drop 2 rest))
      in if list_ex is_control u then Inl (Failure ''net/url: invalid control character in URL'')
         else if \<not> valid_scheme scheme \<or> take 2 rest \<noteq> ''//'' \<or> \<not> valid_host host
         then Inl (Failure ''unsupported URL'')
         else case (unescape False path, unescape False frag) of
                (Inr p, Inr f) \<Rightarrow> Inr \<lparr>url_Host = host, url_Path = p, RawQuery = query\<rparr>
              | (Inl e, f) \<Rightarrow> Inl e
              | (p, Inl e) \<Rightarrow> Inl e)"

section \<open>Query strings\<close>

text \<open>\<^verbatim>\<open>url.Values\<close>: \<^verbatim>\<open>URL.Query\<close> drops the malformed parts of the raw query.\<close>

type_synonym url_values = "(string, string list) gomap"

fun parse_query :: "string list \<Rightarrow> url_values \<Rightarrow> url_values" where
  "parse_query [] m = m"
| "parse_query (p # ps) m =
     (if p = '''' \<or> CHR '';'' \<in> set p then parse_query ps m
      else
        (let (k, v) = cut_at (CHR ''='') p
         in case (unescape True k, unescape True v) of
              (Inr k', Inr v') \<Rightarrow>
                parse_query ps (gm_set m k' ((case gm_get m k' of None \<Rightarrow> [] | Some vs \<Rightarrow> vs) @ [v']))
            | r \<Rightarrow> parse_query ps m))"

definition url_Query :: "url \<Rightarrow> url_values" where
  "url_Query u = parse_query (strings_Split (CHR ''&'') (RawQuery u)) []"

definition Values_Set :: "url_values \<Rightarrow> string \<Rightarrow> string \<Rightarrow> url_values" where
  "Values_Set m k v = gm_set m k [v]"

text \<open>\<^verbatim>\<open>Values.Encode\<close> sorts by key.\<close>

definition Values_Encode :: "url_values \<Rightarrow> string" where
  "Values_Encode m =
     strings_Join ''&'' (concat (map (\<lambda>(k, vs). map (\<lambda>v. QueryEscape k @ ''='' @ QueryEscape v) vs) (sort_key fst m)))"

section \<open>Headers and requests\<close>

type_synonym http_header = "(string, string list) gomap"

text \<open>The canonical form of a header name: capitals at the start and after each hyphen.\<close>

fun canonical_key :: "bool \<Rightarrow> string \<Rightarrow> string" where
  "canonical_key up [] = []"
| "canonical_key up (c # s) = (if up then upper_char c else lower_char c) # canonical_key (c = CHR ''-'') s"

definition hdr_Set :: "http_header \<Rightarrow> string \<Rightarrow> string \<Rightarrow> http_header" where
  "hdr_Set h k v = gm_set h (canonical_key True k) [v]"

definition hdr_Get :: "http_header \<Rightarrow> string \<Rightarrow> string" where
  "hdr_Get h k = (case gm_get h (canonical_key True k) of Some (v # vs) \<Rightarrow> v | r \<Rightarrow> '''')"

record http_request =
  rq_Method :: string
  rq_URL :: url
  rq_Header :: http_header
  rq_Body :: bytes

definition http_NewRequest :: "string \<Rightarrow> string \<Rightarrow> bytes \<Rightarrow> go_error + http_request" where
  "http_NewRequest meth u body =
     (case url_Parse u of
        Inl e \<Rightarrow> Inl e
      | Inr p \<Rightarrow> Inr \<lparr>rq_Method = meth, rq_URL = p\<lparr>url_Host := removeEmptyPort (url_Host p)\<rparr>, rq_Header = [],
                      rq_Body = body\<rparr>)"

section \<open>HMAC\<close>

text \<open>\<^verbatim>\<open>hmac.New(sha256.New, key)\<close> over a digest with 64-byte blocks.\<close>

definition hmac_pad :: "byte \<Rightarrow> bytes \<Rightarrow> bytes" where
  "hmac_pad x key = map (\<lambda>b. b XOR x) (key @ replicate (64 - length key) 0)"

definition hmac :: "(bytes \<Rightarrow> bytes) \<Rightarrow> bytes \<Rightarrow> bytes \<Rightarrow> bytes" where
  "hmac sha256 key msg =
     (let k = (if 64 < length key then sha256 key else key)
      in sha256 (hmac_pad 0x5C k @ sha256 (hmac_pad 0x36 k @ msg)))"

section \<open>Lemmas\<close>

lemma hex_digit_upper: "n < 16 \<Longrightarrow> hex_digit (upper_hex n) = Some n"
proof -
  assume "n < 16"
  then have "n \<in> set [0..<16]" by simp
  moreover have "\<forall>n \<in> set [0..<16]. hex_digit (upper_hex n) = Some n"
    by code_simp
  ultimately show ?thesis by blast
qed

lemma char_halves: "(of_char (c :: char) :: nat) div 16 < 16" "(of_char c :: nat) mod 16 < 16"
proof -
  have "n div 16 < 16" if "n < 256" for n :: nat using that by simp
  then show "(of_char c :: nat) div 16 < 16" by simp
  show "(of_char c :: nat) mod 16 < 16" by simp
qed

lemma char_of_halves: "char_of (16 * (of_char (c :: char) div 16) + of_char c mod 16 :: nat) = c"
  by (simp only: mult_div_mod_eq char_of_char)

lemma unescape_percent:
  "unescape q (percent c @ s) = (case unescape q s of Inl e \<Rightarrow> Inl e | Inr r \<Rightarrow> Inr (c # r))"
  by (cases "unescape q s") (simp_all add: percent_def hex_digit_upper char_halves char_of_halves)

definition path_char :: "char \<Rightarrow> bool" where
  "path_char c \<longleftrightarrow> segment_char c \<or> c = CHR ''/''"

definition escape_path :: "string \<Rightarrow> string" where
  "escape_path s = concat (map (\<lambda>c. if path_char c then [c] else percent c) s)"

lemma escape_path_simps [simp]:
  "escape_path [] = []"
  "escape_path (c # s) = (if path_char c then [c] else percent c) @ escape_path s"
  by (simp_all add: escape_path_def)

lemma upper_hex_in: "n < 16 \<Longrightarrow> upper_hex n \<in> set ''0123456789ABCDEF''"
  unfolding upper_hex_def by (rule nth_mem) simp

lemma percent_not_path_char: "\<not> path_char (CHR ''%'')"
  by (simp add: path_char_def segment_char_def unreserved_def is_letter_def is_digit_def less_eq_char_def)

lemma unescape_escape_path: "unescape False (escape_path s) = Inr s"
proof (induction s)
  case (Cons c s)
  then show ?case
    using percent_not_path_char by (auto simp: unescape_percent)
qed simp

lemma upper_hex_inj: "m < 16 \<Longrightarrow> n < 16 \<Longrightarrow> upper_hex m = upper_hex n \<longleftrightarrow> m = n"
proof -
  have "distinct ''0123456789ABCDEF''" by simp
  then show "m < 16 \<Longrightarrow> n < 16 \<Longrightarrow> upper_hex m = upper_hex n \<longleftrightarrow> m = n"
    unfolding upper_hex_def by (subst nth_eq_iff_index_eq) simp_all
qed

lemma percent_slash: "percent (CHR ''/'') = ''%2F''"
  by code_simp

lemma percent_inj: "percent c = percent d \<longleftrightarrow> c = d"
proof
  assume "percent c = percent d"
  then have "(of_char c :: nat) div 16 = of_char d div 16" "(of_char c :: nat) mod 16 = of_char d mod 16"
    by (simp_all add: percent_def upper_hex_inj char_halves)
  then show "c = d" by (metis char_of_halves)
qed simp

lemma upper_hex_not_percent: "n < 16 \<Longrightarrow> upper_hex n \<noteq> CHR ''%''"
  using upper_hex_in [of n] by auto

lemma ReplaceAll_other: "c \<noteq> CHR ''%'' \<Longrightarrow> ReplaceAll ''%2F'' new (c # s) = c # ReplaceAll ''%2F'' new s"
  by (simp add: ReplaceAll.simps [of _ _ "c # s"])

lemma ReplaceAll_percent:
  "c \<noteq> CHR ''/'' \<Longrightarrow> ReplaceAll ''%2F'' new (percent c @ s) = percent c @ ReplaceAll ''%2F'' new s"
proof -
  assume "c \<noteq> CHR ''/''"
  then have "percent c \<noteq> ''%2F''" using percent_inj [of c "CHR ''/''"] by (simp add: percent_slash)
  then have "\<not> prefix ''%2F'' (percent c @ s)"
    by (auto simp: percent_def)
  moreover have "percent c \<noteq> []" by (simp add: percent_def)
  ultimately have "ReplaceAll ''%2F'' new (percent c @ s) = hd (percent c @ s) # ReplaceAll ''%2F'' new (tl (percent c @ s))"
    by (subst ReplaceAll.simps) simp
  then show ?thesis
    using upper_hex_not_percent [OF char_halves(1), of c] upper_hex_not_percent [OF char_halves(2), of c]
    by (simp add: percent_def ReplaceAll_other)
qed

lemma ReplaceAll_append_free:
  "CHR ''%'' \<notin> set a \<Longrightarrow> ReplaceAll ''%2F'' new (a @ s) = a @ ReplaceAll ''%2F'' new s"
  by (induction a) (auto simp: ReplaceAll_other)

lemma ReplaceAll_slash: "ReplaceAll ''%2F'' new (percent (CHR ''/'') @ s) = new @ ReplaceAll ''%2F'' new s"
  by (subst ReplaceAll.simps) (simp add: percent_slash)

lemma PathEscape_slashes: "ReplaceAll ''%2F'' ''/'' (PathEscape s) = escape_path s"
proof (induction s)
  case (Cons c s)
  consider "segment_char c" | "c = CHR ''/''" "\<not> segment_char c" | "c \<noteq> CHR ''/''" "\<not> segment_char c" by blast
  then show ?case
  proof cases
    case 1
    then have "c \<noteq> CHR ''%''" using percent_not_path_char by (auto simp: path_char_def)
    with 1 Cons show ?thesis by (simp add: PathEscape_def path_char_def ReplaceAll_other)
  next
    case 2
    with Cons show ?thesis by (simp add: PathEscape_def path_char_def ReplaceAll_slash)
  next
    case 3
    with Cons show ?thesis by (simp add: PathEscape_def path_char_def ReplaceAll_percent)
  qed
qed (simp add: PathEscape_def)

lemma path_char_plain: "path_char c \<Longrightarrow> \<not> is_control c \<and> c \<notin> set ''?#''"
  by (auto simp: path_char_def segment_char_def unreserved_def is_letter_def is_digit_def is_control_def less_eq_char_def)

lemma set_escape_path: "c \<in> set (escape_path s) \<Longrightarrow> \<not> is_control c \<and> c \<notin> set ''?#''"
proof (induction s)
  case (Cons d s)
  show ?case
  proof (cases "path_char d \<or> c \<in> set (escape_path s)")
    case True
    with Cons path_char_plain show ?thesis by (cases "path_char d") (auto simp: percent_def)
  next
    case False
    then have "c \<in> set (percent d)" using Cons.prems by simp
    then have "c \<in> set ''%0123456789ABCDEF''"
      using upper_hex_in [OF char_halves(1), of d] upper_hex_in [OF char_halves(2), of d] by (auto simp: percent_def)
    then show ?thesis by (auto simp: is_control_def)
  qed
qed simp

end
