(* ===== verification/HashRing.thy ===== *)
theory HashRing
  imports GoLib
begin

text \<open>
  The consistent hash ring of \<^verbatim>\<open>internal/hashring/hashring.go\<close>. The SHA-1 digest is an
  argument \<open>sha1\<close> of every operation that hashes, so that each statement holds for the real
  digest and a witness can use a computable one. The theory ends with the interface
  \<open>placement\<close> that the replication, recovery and API components rely on, interpreted on the
  ring's own operations.
\<close>

section \<open>The ring's state and operations\<close>

record ring =
  sortedHashes :: "uint64 list"
  hashToNode :: "uint64 \<rightharpoonup> string"
  nodes :: "(string, bool) gomap"

definition VirtualNodesPerNode :: nat where
  "VirtualNodesPerNode = 150"

definition ring_New :: ring where
  "ring_New = \<lparr>sortedHashes = [], hashToNode = Map.empty, nodes = []\<rparr>"

definition hashKey :: "(bytes \<Rightarrow> bytes) \<Rightarrow> string \<Rightarrow> uint64" where
  "hashKey sha1 key = (let sum = sha1 (bytes_of key) in BigEndian_Uint64 (take 8 sum))"

text \<open>\<^verbatim>\<open>fmt.Sprintf("%s#%d", nodeID, i)\<close>.\<close>

definition vKey :: "string \<Rightarrow> nat \<Rightarrow> string" where
  "vKey nodeID i = nodeID @ ''#'' @ fmt_d i"

text \<open>One round of the loop of \<^verbatim>\<open>AddNode\<close>, on the two fields it writes.\<close>

definition add_point ::
  "(bytes \<Rightarrow> bytes) \<Rightarrow> string \<Rightarrow> nat \<Rightarrow> (uint64 \<rightharpoonup> string) \<times> uint64 list \<Rightarrow> (uint64 \<rightharpoonup> string) \<times> uint64 list" where
  "add_point sha1 nodeID i st =
     (let (h2n, hs) = st; h = hashKey sha1 (vKey nodeID i) in (h2n(h \<mapsto> nodeID), hs @ [h]))"

definition AddNode :: "(bytes \<Rightarrow> bytes) \<Rightarrow> string \<Rightarrow> ring \<Rightarrow> ring" where
  "AddNode sha1 nodeID r =
     (if gm_bool (nodes r) nodeID then r
      else
        let (h2n, hs) = fold (add_point sha1 nodeID) [0..<VirtualNodesPerNode]
                          (hashToNode r, sortedHashes r)
        in r\<lparr>nodes := gm_set (nodes r) nodeID True, hashToNode := h2n, sortedHashes := sort hs\<rparr>)"

text \<open>
  The loop of \<^verbatim>\<open>RemoveNode\<close>: it deletes from the map while it walks the hashes, so a
  hash that occurs twice reads as the empty string the second time.
\<close>

fun remove_points ::
  "string \<Rightarrow> uint64 list \<Rightarrow> (uint64 \<rightharpoonup> string) \<Rightarrow> (uint64 \<rightharpoonup> string) \<times> uint64 list" where
  "remove_points nodeID [] h2n = (h2n, [])"
| "remove_points nodeID (h # hs) h2n =
     (if str_at h2n h = nodeID then remove_points nodeID hs (h2n(h := None))
      else let (h2n', newHashes) = remove_points nodeID hs h2n in (h2n', h # newHashes))"

definition RemoveNode :: "string \<Rightarrow> ring \<Rightarrow> ring" where
  "RemoveNode nodeID r =
     (if \<not> gm_bool (nodes r) nodeID then r
      else
        let (h2n, newHashes) = remove_points nodeID (sortedHashes r) (hashToNode r)
        in r\<lparr>nodes := gm_del (nodes r) nodeID, hashToNode := h2n, sortedHashes := newHashes\<rparr>)"

definition ring_Nodes :: "((string \<times> bool) list \<Rightarrow> (string \<times> bool) list) \<Rightarrow> ring \<Rightarrow> string list" where
  "ring_Nodes ord r = sort (map fst (ord (nodes r)))"

text \<open>
  \<^verbatim>\<open>GetN\<close>: the search for the first position at or after the key's hash, and the
  clockwise loop with its three stop conditions.
\<close>

function getn_loop ::
  "ring \<Rightarrow> int \<Rightarrow> nat \<Rightarrow> nat \<Rightarrow> (string, bool) gomap \<Rightarrow> string list \<Rightarrow> string list" where
  "getn_loop r n idx i seen result =
     (if i < length (sortedHashes r) \<and> int (length result) < n \<and> gm_len seen < gm_len (nodes r)
      then
        let pos = (idx + i) mod length (sortedHashes r);
            node = str_at (hashToNode r) (sortedHashes r ! pos)
        in if \<not> gm_bool seen node
           then getn_loop r n idx (Suc i) (gm_set seen node True) (result @ [node])
           else getn_loop r n idx (Suc i) seen result
      else result)"
  by pat_completeness auto
termination
  by (relation "measure (\<lambda>(r, n, idx, i, seen, result). length (sortedHashes r) - i)") auto

declare getn_loop.simps [simp del]

definition GetN :: "(bytes \<Rightarrow> bytes) \<Rightarrow> ring \<Rightarrow> string \<Rightarrow> int \<Rightarrow> string list" where
  "GetN sha1 r key n =
     (if length (sortedHashes r) = 0 \<or> n \<le> 0 then []
      else
        let h = hashKey sha1 key;
            idx = sort_Search (length (sortedHashes r)) (\<lambda>i. h \<le> sortedHashes r ! i)
        in getn_loop r n idx 0 [] [])"

definition ring_Get :: "(bytes \<Rightarrow> bytes) \<Rightarrow> ring \<Rightarrow> string \<Rightarrow> string \<times> bool" where
  "ring_Get sha1 r key =
     (let ns = GetN sha1 r key 1 in if length ns = 0 then ('''', False) else (ns ! 0, True))"

section \<open>Virtual node points\<close>

lemma vKey_inj: "vKey m i = vKey n j \<longleftrightarrow> m = n \<and> i = j"
proof
  assume eq: "vKey m i = vKey n j"
  have *: "takeWhile (\<lambda>c. c \<noteq> CHR ''#'') (rev (vKey a k)) = rev (fmt_d k)" for a k
  proof -
    have "takeWhile (\<lambda>c. c \<noteq> CHR ''#'') (rev (fmt_d k)) = rev (fmt_d k)"
      using fmt_d_no_sharp [of k] by (auto simp: takeWhile_eq_all_conv)
    then show ?thesis by (simp add: vKey_def takeWhile_tail)
  qed
  from eq have "rev (fmt_d i) = rev (fmt_d j)" using * by metis
  then have "i = j" using fmt_d_inj by simp
  with eq show "m = n \<and> i = j" by (simp add: vKey_def)
qed simp

definition vpoint :: "(bytes \<Rightarrow> bytes) \<Rightarrow> string \<Rightarrow> nat \<Rightarrow> uint64" where
  "vpoint sha1 n i = hashKey sha1 (vKey n i)"

definition vpoints :: "(bytes \<Rightarrow> bytes) \<Rightarrow> string \<Rightarrow> uint64 list" where
  "vpoints sha1 n = map (vpoint sha1 n) [0..<VirtualNodesPerNode]"

text \<open>
  No two virtual nodes of the nodes in \<open>U\<close> share a ring position: what the code relies on
  SHA-1 for.
\<close>

definition collision_free :: "(bytes \<Rightarrow> bytes) \<Rightarrow> string set \<Rightarrow> bool" where
  "collision_free sha1 U \<longleftrightarrow>
     (\<forall>m \<in> U. distinct (vpoints sha1 m)) \<and>
     (\<forall>m \<in> U. \<forall>n \<in> U. m \<noteq> n \<longrightarrow> set (vpoints sha1 m) \<inter> set (vpoints sha1 n) = {})"

lemma collision_freeD:
  assumes "collision_free sha1 U"
  shows "m \<in> U \<Longrightarrow> distinct (vpoints sha1 m)"
    and "m \<in> U \<Longrightarrow> n \<in> U \<Longrightarrow> h \<in> set (vpoints sha1 m) \<Longrightarrow> h \<in> set (vpoints sha1 n) \<Longrightarrow> m = n"
  using assms unfolding collision_free_def by blast+

lemma collision_free_mono: "collision_free sha1 U \<Longrightarrow> V \<subseteq> U \<Longrightarrow> collision_free sha1 V"
  unfolding collision_free_def by blast

lemma vpoints_nonempty [simp]: "vpoints sha1 n \<noteq> []"
  by (simp add: vpoints_def VirtualNodesPerNode_def)

lemma fold_add_point:
  "fold (add_point sha1 n) is (m, hs) =
     ((\<lambda>h. if h \<in> vpoint sha1 n ` set is then Some n else m h), hs @ map (vpoint sha1 n) is)"
  by (induction "is" arbitrary: m hs)
     (auto simp: add_point_def vpoint_def fun_eq_iff Let_def)

lemma add_points:
  "fold (add_point sha1 n) [0..<VirtualNodesPerNode] (m, hs) =
     ((\<lambda>h. if h \<in> set (vpoints sha1 n) then Some n else m h), hs @ vpoints sha1 n)"
  by (simp add: fold_add_point vpoints_def)

section \<open>The ring invariant\<close>

text \<open>
  The ring over the node set \<open>ring_set r\<close>: sorted, duplicate-free positions, exactly the
  virtual points of the nodes, each mapped to its node. \<open>U\<close> is the universe of node names
  that may ever join, collision-free as a whole.
\<close>

definition ring_set :: "ring \<Rightarrow> string set" where
  "ring_set r = set (gm_keys (nodes r))"

definition points_of :: "(bytes \<Rightarrow> bytes) \<Rightarrow> string set \<Rightarrow> uint64 set" where
  "points_of sha1 N = (\<Union>n \<in> N. set (vpoints sha1 n))"

definition ring_inv :: "(bytes \<Rightarrow> bytes) \<Rightarrow> string set \<Rightarrow> ring \<Rightarrow> bool" where
  "ring_inv sha1 U r \<longleftrightarrow>
     collision_free sha1 U \<and> ring_set r \<subseteq> U \<and> gm_ok (nodes r) \<and>
     (\<forall>n b. gm_get (nodes r) n = Some b \<longrightarrow> b) \<and>
     sorted (sortedHashes r) \<and> distinct (sortedHashes r) \<and>
     set (sortedHashes r) = points_of sha1 (ring_set r) \<and>
     (\<forall>h n. hashToNode r h = Some n \<longleftrightarrow> n \<in> ring_set r \<and> h \<in> set (vpoints sha1 n))"

lemma ring_invD:
  assumes "ring_inv sha1 U r"
  shows "collision_free sha1 U" "ring_set r \<subseteq> U" "gm_ok (nodes r)"
    and "gm_bool (nodes r) n \<longleftrightarrow> n \<in> ring_set r"
    and "sorted (sortedHashes r)" "distinct (sortedHashes r)"
    and "set (sortedHashes r) = points_of sha1 (ring_set r)"
    and "hashToNode r h = Some n \<longleftrightarrow> n \<in> ring_set r \<and> h \<in> set (vpoints sha1 n)"
  using assms gm_bool_keys [of "nodes r" n] by (auto simp: ring_inv_def ring_set_def)

lemma finite_ring_set [simp]: "finite (ring_set r)"
  by (simp add: ring_set_def)

lemma ring_New_inv: "collision_free sha1 U \<Longrightarrow> ring_inv sha1 U ring_New"
  by (simp add: ring_inv_def ring_New_def ring_set_def points_of_def gomap_simps)

lemma ring_set_New [simp]: "ring_set ring_New = {}"
  by (simp add: ring_New_def ring_set_def gomap_simps)

lemma ring_set_AddNode:
  "ring_inv sha1 U r \<Longrightarrow> ring_set (AddNode sha1 x r) = insert x (ring_set r)"
  by (auto simp: AddNode_def ring_invD(4) add_points)
     (auto simp: ring_set_def gomap_simps)

lemma AddNode_inv:
  assumes inv: "ring_inv sha1 U r" and x: "x \<in> U"
  shows "ring_inv sha1 U (AddNode sha1 x r)"
proof (cases "x \<in> ring_set r")
  case True
  with inv show ?thesis by (simp add: AddNode_def ring_invD(4))
next
  case False
  let ?r = "AddNode sha1 x r"
  note D = ring_invD [OF inv]
  have fields: "nodes ?r = gm_set (nodes r) x True"
    "hashToNode ?r = (\<lambda>h. if h \<in> set (vpoints sha1 x) then Some x else hashToNode r h)"
    "sortedHashes ?r = sort (sortedHashes r @ vpoints sha1 x)"
    using False by (simp_all add: AddNode_def D(4) add_points)
  have rs: "ring_set ?r = insert x (ring_set r)" using inv by (rule ring_set_AddNode)
  have disj: "h \<notin> set (vpoints sha1 x)" if "n \<in> ring_set r" "h \<in> set (vpoints sha1 n)" for h n
    using that False x D(2) collision_freeD(2) [OF D(1), of n x h] by blast
  have "distinct (sortedHashes r @ vpoints sha1 x)"
    using D(6,7) collision_freeD(1) [OF D(1) x] disj by (auto simp: points_of_def)
  moreover have "set (sortedHashes r @ vpoints sha1 x) = points_of sha1 (ring_set ?r)"
    using D(7) rs by (auto simp: points_of_def)
  moreover have "hashToNode ?r h = Some n \<longleftrightarrow> n \<in> ring_set ?r \<and> h \<in> set (vpoints sha1 n)" for h n
    using D(8) disj rs fields(2) by auto
  moreover have "\<forall>n b. gm_get (nodes ?r) n = Some b \<longrightarrow> b"
    using inv unfolding fields(1) ring_inv_def by (simp add: gomap_simps) blast
  ultimately show ?thesis
    using D(1,2,3) x rs fields by (simp add: ring_inv_def)
qed

lemma remove_points_distinct:
  "distinct hs \<Longrightarrow> remove_points x hs m =
     ((\<lambda>h. if h \<in> set hs \<and> str_at m h = x then None else m h),
      filter (\<lambda>h. str_at m h \<noteq> x) hs)"
proof (induction hs arbitrary: m)
  case (Cons h hs)
  have cong: "str_at (m(h := None)) k = str_at m k" if "k \<in> set hs" for k
    using that Cons.prems by (auto simp: str_at_def)
  have "filter (\<lambda>k. str_at (m(h := None)) k \<noteq> x) hs = filter (\<lambda>k. str_at m k \<noteq> x) hs"
    using cong by (auto intro!: filter_cong)
  moreover have "(\<lambda>k. if k \<in> set hs \<and> str_at (m(h := None)) k = x then None else (m(h := None)) k) =
      (\<lambda>k. if k = h then None else if k \<in> set hs \<and> str_at m k = x then None else m k)"
    using cong by (auto simp: fun_eq_iff)
  ultimately show ?case using Cons by (auto simp: fun_eq_iff)
qed simp

text \<open>The node a ring position belongs to.\<close>

definition owner :: "ring \<Rightarrow> uint64 \<Rightarrow> string" where
  "owner r h = str_at (hashToNode r) h"

lemma owner_eq:
  assumes inv: "ring_inv sha1 U r" and h: "h \<in> set (sortedHashes r)"
  shows "owner r h = n \<longleftrightarrow> n \<in> ring_set r \<and> h \<in> set (vpoints sha1 n)"
proof -
  note D = ring_invD [OF inv]
  from h D(7) obtain m where m: "m \<in> ring_set r" "h \<in> set (vpoints sha1 m)"
    by (auto simp: points_of_def)
  with D(8) have "hashToNode r h = Some m" by blast
  then have "owner r h = m" by (simp add: owner_def str_at_def)
  moreover have "n = m" if "n \<in> ring_set r" "h \<in> set (vpoints sha1 n)"
    using that m D(2) collision_freeD(2) [OF D(1)] by blast
  ultimately show ?thesis using m by blast
qed

lemma RemoveNode_fields:
  assumes inv: "ring_inv sha1 U r" and x: "x \<in> ring_set r"
  shows "nodes (RemoveNode x r) = gm_del (nodes r) x"
    and "sortedHashes (RemoveNode x r) = filter (\<lambda>h. owner r h \<noteq> x) (sortedHashes r)"
    and "hashToNode (RemoveNode x r) =
           (\<lambda>h. if h \<in> set (sortedHashes r) \<and> owner r h = x then None else hashToNode r h)"
proof -
  note D = ring_invD [OF inv]
  have eq: "RemoveNode x r = r\<lparr>nodes := gm_del (nodes r) x,
      hashToNode := (\<lambda>h. if h \<in> set (sortedHashes r) \<and> owner r h = x then None else hashToNode r h),
      sortedHashes := filter (\<lambda>h. owner r h \<noteq> x) (sortedHashes r)\<rparr>"
    using x by (simp add: RemoveNode_def D(4) remove_points_distinct [OF D(6)] owner_def)
  show "nodes (RemoveNode x r) = gm_del (nodes r) x"
    and "sortedHashes (RemoveNode x r) = filter (\<lambda>h. owner r h \<noteq> x) (sortedHashes r)"
    and "hashToNode (RemoveNode x r) =
           (\<lambda>h. if h \<in> set (sortedHashes r) \<and> owner r h = x then None else hashToNode r h)"
    by (simp_all add: eq)
qed

lemma RemoveNode_absent: "ring_inv sha1 U r \<Longrightarrow> x \<notin> ring_set r \<Longrightarrow> RemoveNode x r = r"
  by (simp add: RemoveNode_def ring_invD(4))

lemma ring_set_RemoveNode:
  assumes "ring_inv sha1 U r"
  shows "ring_set (RemoveNode x r) = ring_set r - {x}"
proof (cases "x \<in> ring_set r")
  case True
  with RemoveNode_fields(1) [OF assms] show ?thesis by (simp add: ring_set_def gomap_simps)
qed (use assms in \<open>simp add: RemoveNode_absent\<close>)

lemma RemoveNode_inv:
  assumes inv: "ring_inv sha1 U r"
  shows "ring_inv sha1 U (RemoveNode x r)"
proof (cases "x \<in> ring_set r")
  case True
  note D = ring_invD [OF inv] and F = RemoveNode_fields [OF inv True] and O = owner_eq [OF inv]
  have rs: "ring_set (RemoveNode x r) = ring_set r - {x}" by (rule ring_set_RemoveNode [OF inv])
  have disj: "h \<notin> set (vpoints sha1 x)" if "n \<in> ring_set r" "n \<noteq> x" "h \<in> set (vpoints sha1 n)" for h n
    using that True D(2) collision_freeD(2) [OF D(1), of n x h] by blast
  have pts: "h \<in> set (sortedHashes r)" if "n \<in> ring_set r" "h \<in> set (vpoints sha1 n)" for h n
    using that D(7) by (auto simp: points_of_def)
  have "set (sortedHashes (RemoveNode x r)) = points_of sha1 (ring_set r - {x})"
  proof -
    have "{h \<in> set (sortedHashes r). owner r h \<noteq> x} = points_of sha1 (ring_set r - {x})"
    proof (intro set_eqI iffI)
      fix h assume h: "h \<in> {h \<in> set (sortedHashes r). owner r h \<noteq> x}"
      then have "owner r h \<in> ring_set r" "h \<in> set (vpoints sha1 (owner r h))"
        using O [of h "owner r h"] by auto
      with h show "h \<in> points_of sha1 (ring_set r - {x})" by (auto simp: points_of_def)
    next
      fix h assume "h \<in> points_of sha1 (ring_set r - {x})"
      then obtain n where n: "n \<in> ring_set r" "n \<noteq> x" "h \<in> set (vpoints sha1 n)"
        by (auto simp: points_of_def)
      then show "h \<in> {h \<in> set (sortedHashes r). owner r h \<noteq> x}"
        using pts [of n h] O [of h n] by simp
    qed
    then show ?thesis by (simp add: F(2) set_filter)
  qed
  moreover have "hashToNode (RemoveNode x r) h = Some n \<longleftrightarrow>
      n \<in> ring_set r - {x} \<and> h \<in> set (vpoints sha1 n)" for h n
    using D(8) [of h n] O [of h x] O [of h n] pts [of n h] disj [of n h] True
    by (auto simp: F(3))
  moreover have "\<forall>n b. gm_get (nodes (RemoveNode x r)) n = Some b \<longrightarrow> b"
    using inv unfolding F(1) ring_inv_def by (simp add: gomap_simps) blast
  moreover have "sorted (sortedHashes (RemoveNode x r))" "distinct (sortedHashes (RemoveNode x r))"
    using D(5,6) by (simp_all add: F(2) sorted_wrt_filter)
  ultimately show ?thesis
    using D(1,2,3) by (auto simp: ring_inv_def rs F(1))
qed (use assms in \<open>simp add: RemoveNode_absent\<close>)

section \<open>The clockwise walk\<close>

text \<open>
  What \<^verbatim>\<open>GetN\<close> computes, stated without indices: the positions from the key's hash
  upwards and then from the start of the ring, their owners, each owner once.
\<close>

definition clockwise :: "uint64 \<Rightarrow> uint64 list \<Rightarrow> uint64 list" where
  "clockwise h hs = filter (\<lambda>x. h \<le> x) hs @ filter (\<lambda>x. x < h) hs"

definition walk :: "(bytes \<Rightarrow> bytes) \<Rightarrow> ring \<Rightarrow> string \<Rightarrow> string list" where
  "walk sha1 r key = dedup (map (owner r) (clockwise (hashKey sha1 key) (sortedHashes r)))"

lemma set_clockwise [simp]: "set (clockwise h hs) = set hs"
  by (auto simp: clockwise_def)

lemma filter_clockwise: "filter P (clockwise h hs) = clockwise h (filter P hs)"
  by (simp add: clockwise_def conj_commute)

lemma clockwise_rotate:
  assumes "sorted hs"
  shows "clockwise h hs = rotate (sort_Search (length hs) (\<lambda>i. h \<le> hs ! i)) hs"
proof -
  let ?p = "length (takeWhile (\<lambda>x. x < h) hs)"
  have t: "take ?p hs = filter (\<lambda>x. x < h) hs"
    by (metis takeWhile_eq_take sorted_takeWhile_less [OF assms])
  have d: "drop ?p hs = filter (\<lambda>x. h \<le> x) hs"
    by (metis dropWhile_eq_drop sorted_dropWhile_less [OF assms])
  have "rotate ?p hs = drop ?p hs @ take ?p hs"
  proof (cases "?p < length hs")
    case False
    then have "?p = length hs" using length_takeWhile_le [of "\<lambda>x. x < h" hs] by simp
    then show ?thesis by simp
  qed (simp add: rotate_drop_take)
  with t d show ?thesis
    by (simp only: clockwise_def sort_Search_sorted [OF assms])
qed

lemma owners_ring_set:
  assumes inv: "ring_inv sha1 U r"
  shows "owner r ` set (sortedHashes r) = ring_set r"
proof (intro set_eqI iffI)
  fix n assume "n \<in> owner r ` set (sortedHashes r)"
  then show "n \<in> ring_set r" using owner_eq [OF inv] by blast
next
  fix n assume n: "n \<in> ring_set r"
  obtain h where h: "h \<in> set (vpoints sha1 n)" using vpoints_nonempty by (meson last_in_set)
  with n have "h \<in> set (sortedHashes r)" using ring_invD(7) [OF inv] by (auto simp: points_of_def)
  moreover from this have "owner r h = n" using owner_eq [OF inv] n h by blast
  ultimately show "n \<in> owner r ` set (sortedHashes r)" by blast
qed

lemma set_walk: "ring_inv sha1 U r \<Longrightarrow> set (walk sha1 r key) = ring_set r"
  by (simp add: walk_def set_dedup owners_ring_set)

lemma distinct_walk: "distinct (walk sha1 r key)"
  by (simp add: walk_def distinct_dedup)

lemma length_walk: "ring_inv sha1 U r \<Longrightarrow> length (walk sha1 r key) = card (ring_set r)"
  by (metis distinct_card distinct_walk set_walk)

lemma getn_loop_spec:
  assumes "xs = map (\<lambda>i. owner r (sortedHashes r ! ((idx + i) mod length (sortedHashes r)))) [0..<length (sortedHashes r)]"
    and "gm_len (nodes r) = card (set xs)"
    and "i \<le> length xs" and "result = dedup (take i xs)" and "int (length result) \<le> n"
    and "gm_ok seen" and "set (gm_keys seen) = set (take i xs)"
    and "\<forall>k b. gm_get seen k = Some b \<longrightarrow> b"
  shows "getn_loop r n idx i seen result = take (nat n) (dedup xs)"
  using assms
proof (induction r n idx i seen result rule: getn_loop.induct)
  case (1 r n idx i seen result)
  note unfold = getn_loop.simps [of r n idx i seen result]
  let ?L = "length (sortedHashes r)"
  let ?node = "owner r (sortedHashes r ! ((idx + i) mod ?L))"
  have L: "length xs = ?L" using 1(3) by simp
  have len_seen: "gm_len seen = length result"
    using 1(6,8,9) by (simp add: gm_len_card length_dedup)
  have split: "dedup xs = result @ filter (\<lambda>y. y \<notin> set (take i xs)) (dedup (drop i xs))"
    using dedup_append [of "take i xs" "drop i xs"] 1(6) by simp
  show ?case
  proof (cases "i < ?L \<and> int (length result) < n \<and> gm_len seen < gm_len (nodes r)")
    case False
    then consider "i \<ge> ?L" | "int (length result) \<ge> n" | "gm_len seen \<ge> gm_len (nodes r)"
      by linarith
    then have "take (nat n) (dedup xs) = result"
    proof cases
      case 1
      with L split have "dedup xs = result" by simp
      with \<open>int (length result) \<le> n\<close> show ?thesis by simp
    next
      case 2
      with \<open>int (length result) \<le> n\<close> have "nat n = length result" by simp
      with split show ?thesis by simp
    next
      case 3
      then have "length (dedup xs) \<le> length result"
        using len_seen \<open>gm_len (nodes r) = card (set xs)\<close> by (simp add: length_dedup)
      with split have "dedup xs = result" by simp
      with \<open>int (length result) \<le> n\<close> show ?thesis by simp
    qed
    then show ?thesis by (simp only: unfold False if_False)
  next
    case True
    then have xi: "xs ! i = ?node" and i: "i < length xs" using 1(3) by simp_all
    have snoc: "take (Suc i) xs = take i xs @ [?node]"
      using i xi by (simp add: take_Suc_conv_app_nth)
    have seen_iff: "gm_bool seen ?node \<longleftrightarrow> ?node \<in> set (take i xs)"
      using gm_bool_keys [OF 1(10)] 1(9) by simp
    show ?thesis
    proof (cases "gm_bool seen ?node")
      case old: True
      have "getn_loop r n idx (Suc i) seen result = take (nat n) (dedup xs)"
        using old seen_iff snoc i 1(6,7,8,9,10)
        by (intro 1(2) [OF True refl] 1(3,4)) (auto simp: owner_def dedup_snoc)
      then show ?thesis using old by (simp only: unfold True if_True Let_def owner_def) simp
    next
      case new: False
      have "getn_loop r n idx (Suc i) (gm_set seen ?node True) (result @ [?node]) = take (nat n) (dedup xs)"
        unfolding owner_def
        using new seen_iff snoc i True 1(6,7,8,9,10)
        by (intro 1(1) [OF True refl refl] 1(3,4)) (auto simp: owner_def dedup_snoc gomap_simps)
      then show ?thesis using new by (simp only: unfold True if_True Let_def owner_def) simp
    qed
  qed
qed

lemma GetN_walk:
  assumes inv: "ring_inv sha1 U r"
  shows "GetN sha1 r key n = take (nat n) (walk sha1 r key)"
proof (cases "length (sortedHashes r) = 0 \<or> n \<le> 0")
  case True
  then show ?thesis by (auto simp: GetN_def walk_def clockwise_def)
next
  case False
  let ?hs = "sortedHashes r" and ?h = "hashKey sha1 key"
  let ?idx = "sort_Search (length ?hs) (\<lambda>i. ?h \<le> ?hs ! i)"
  define xs where "xs = map (\<lambda>i. owner r (?hs ! ((?idx + i) mod length ?hs))) [0..<length ?hs]"
  have "clockwise ?h ?hs = map (\<lambda>i. ?hs ! ((?idx + i) mod length ?hs)) [0..<length ?hs]"
    unfolding clockwise_rotate [OF ring_invD(5) [OF inv]]
    by (rule nth_equalityI) (simp_all add: nth_rotate)
  then have xs: "map (owner r) (clockwise ?h ?hs) = xs" by (simp add: xs_def)
  then have "set xs = ring_set r" using owners_ring_set [OF inv] by (metis set_clockwise set_map)
  then have card: "gm_len (nodes r) = card (set xs)"
    using gm_len_card [OF ring_invD(3) [OF inv]] by (simp add: ring_set_def)
  have "getn_loop r n ?idx 0 [] [] = take (nat n) (dedup xs)"
    using False by (intro getn_loop_spec xs_def card) (simp_all add: gomap_simps)
  with False xs show ?thesis by (simp add: GetN_def walk_def Let_def)
qed

section \<open>Joining and leaving\<close>

lemma ring_canonical:
  assumes inv: "ring_inv sha1 U r" "ring_inv sha1 V r'" and eq: "ring_set r = ring_set r'"
  shows "sortedHashes r = sortedHashes r'" and "hashToNode r = hashToNode r'"
proof -
  note D = ring_invD [OF inv(1)] and D' = ring_invD [OF inv(2)]
  show "sortedHashes r = sortedHashes r'"
    using D(5-7) D'(5-7) eq by (intro sorted_eq_of_set) simp_all
  show "hashToNode r = hashToNode r'"
  proof
    fix h
    have "hashToNode r h = Some n \<longleftrightarrow> hashToNode r' h = Some n" for n
      using D(8) D'(8) eq by simp
    then show "hashToNode r h = hashToNode r' h" by (metis not_None_eq)
  qed
qed

lemma walk_canonical:
  assumes "ring_inv sha1 U r" "ring_inv sha1 V r'" "ring_set r = ring_set r'"
  shows "walk sha1 r key = walk sha1 r' key"
  using ring_canonical [OF assms] by (simp add: walk_def owner_def [abs_def])

lemma walk_RemoveNode:
  assumes inv: "ring_inv sha1 U r"
  shows "walk sha1 (RemoveNode x r) key = filter (\<lambda>n. n \<noteq> x) (walk sha1 r key)"
proof (cases "x \<in> ring_set r")
  case False
  then have "filter (\<lambda>n. n \<noteq> x) (walk sha1 r key) = walk sha1 r key"
    using set_walk [OF inv] by (auto simp: filter_id_conv)
  with False show ?thesis by (simp add: RemoveNode_absent [OF inv])
next
  case True
  note F = RemoveNode_fields [OF inv True]
  let ?hs = "clockwise (hashKey sha1 key) (sortedHashes r)"
  have own: "owner (RemoveNode x r) h = owner r h" if "h \<in> set (filter (\<lambda>h. owner r h \<noteq> x) ?hs)" for h
    using that by (auto simp: F(3) owner_def str_at_def)
  have "walk sha1 (RemoveNode x r) key
      = dedup (map (owner (RemoveNode x r)) (filter (\<lambda>h. owner r h \<noteq> x) ?hs))"
    by (simp add: walk_def F(2) filter_clockwise)
  also have "map (owner (RemoveNode x r)) (filter (\<lambda>h. owner r h \<noteq> x) ?hs)
      = filter (\<lambda>n. n \<noteq> x) (map (owner r) ?hs)"
    using own by (simp add: filter_map comp_def cong: map_cong)
  finally show ?thesis by (simp add: walk_def filter_dedup)
qed

lemma walk_RemoveNode_AddNode:
  assumes inv: "ring_inv sha1 U r" and x: "x \<in> U" "x \<notin> ring_set r"
  shows "filter (\<lambda>n. n \<noteq> x) (walk sha1 (AddNode sha1 x r) key) = walk sha1 r key"
proof -
  have inv': "ring_inv sha1 U (AddNode sha1 x r)" by (rule AddNode_inv [OF inv x(1)])
  have "ring_set (RemoveNode x (AddNode sha1 x r)) = ring_set r"
    using x by (simp add: ring_set_RemoveNode [OF inv'] ring_set_AddNode [OF inv])
  then have "walk sha1 (RemoveNode x (AddNode sha1 x r)) key = walk sha1 r key"
    by (rule walk_canonical [OF RemoveNode_inv [OF inv'] inv])
  then show ?thesis by (simp add: walk_RemoveNode [OF inv'])
qed

section \<open>The interface the ring's clients use\<close>

text \<open>
  What replication, recovery and the API rely on: a replica set is a duplicate-free prefix of
  a preference order over the members, it depends on the members only, and losing a member
  deletes it from every preference order.
\<close>

locale placement =
  fixes U :: "string set"
    and inv :: "'r \<Rightarrow> bool"
    and members :: "'r \<Rightarrow> string set"
    and add :: "string \<Rightarrow> 'r \<Rightarrow> 'r"
    and remove :: "string \<Rightarrow> 'r \<Rightarrow> 'r"
    and getn :: "'r \<Rightarrow> string \<Rightarrow> int \<Rightarrow> string list"
  assumes inv_add: "inv r \<Longrightarrow> x \<in> U \<Longrightarrow> inv (add x r)"
    and inv_remove: "inv r \<Longrightarrow> inv (remove x r)"
    and members_add: "inv r \<Longrightarrow> x \<in> U \<Longrightarrow> members (add x r) = insert x (members r)"
    and members_remove: "inv r \<Longrightarrow> members (remove x r) = members r - {x}"
    and getn_distinct: "inv r \<Longrightarrow> distinct (getn r k n)"
    and getn_members: "inv r \<Longrightarrow> set (getn r k n) \<subseteq> members r"
    and getn_length: "inv r \<Longrightarrow> length (getn r k n) = min (nat n) (card (members r))"
    and getn_take: "inv r \<Longrightarrow> m \<le> n \<Longrightarrow> getn r k m = take (nat m) (getn r k n)"
    and getn_remove: "inv r \<Longrightarrow> 0 \<le> n \<Longrightarrow>
          getn (remove x r) k n = take (nat n) (filter (\<lambda>y. y \<noteq> x) (getn r k (n + 1)))"
    and getn_cong: "inv r \<Longrightarrow> inv r' \<Longrightarrow> members r = members r' \<Longrightarrow> getn r k n = getn r' k n"
begin

lemma getn_nonpos: "inv r \<Longrightarrow> n \<le> 0 \<Longrightarrow> getn r k n = []"
  using getn_length [of r k n] by simp

lemma getn_remove_eq:
  assumes "inv r"
  shows "getn (remove x r) k n = take (nat n) (filter (\<lambda>y. y \<noteq> x) (getn r k (n + 1)))"
  using assms getn_remove getn_nonpos [OF inv_remove] by (cases "0 \<le> n") simp_all

lemma getn_prefix:
  assumes "inv r" "0 \<le> n"
  shows "take (nat n) (getn r k (n + 1)) = getn r k n"
  using getn_take [OF assms(1), of n "n + 1" k] by simp

lemma getn_remove_absent: "inv r \<Longrightarrow> x \<notin> set (getn (remove x r) k n)"
  using getn_members [OF inv_remove, of r x k n] members_remove by fastforce

lemma getn_remove_keeps:
  assumes "inv r" "y \<in> set (getn r k n)" "y \<noteq> x"
  shows "y \<in> set (getn (remove x r) k n)"
proof -
  have n: "0 \<le> n" using assms getn_nonpos by (cases "0 \<le> n") auto
  let ?xs = "getn r k (n + 1)"
  have y: "y \<in> set (take (nat n) ?xs)" using assms n by (simp add: getn_prefix)
  have "set (filter (\<lambda>z. z \<noteq> x) (take (nat n) ?xs)) \<subseteq> set (take (nat n) (filter (\<lambda>z. z \<noteq> x) ?xs))"
  proof -
    have "filter (\<lambda>z. z \<noteq> x) ?xs
        = filter (\<lambda>z. z \<noteq> x) (take (nat n) ?xs) @ filter (\<lambda>z. z \<noteq> x) (drop (nat n) ?xs)"
      by (metis append_take_drop_id filter_append)
    moreover have "length (filter (\<lambda>z. z \<noteq> x) (take (nat n) ?xs)) \<le> nat n"
      by (rule order_trans [OF length_filter_le]) simp
    ultimately show ?thesis by simp
  qed
  with y assms n show ?thesis by (auto simp: getn_remove_eq)
qed

lemma getn_remove_unaffected:
  assumes inv: "inv r" and x: "x \<notin> set (getn r k n)"
  shows "getn (remove x r) k n = getn r k n"
proof (cases "0 \<le> n")
  case False
  then show ?thesis using getn_nonpos inv inv_remove by simp
next
  case True
  let ?xs = "getn r k (n + 1)"
  have eq: "take (nat n) ?xs = getn r k n" by (rule getn_prefix [OF inv True])
  then have "filter (\<lambda>y. y \<noteq> x) (take (nat n) ?xs) = take (nat n) ?xs"
    using x by (auto simp: filter_id_conv)
  then have "filter (\<lambda>y. y \<noteq> x) ?xs = take (nat n) ?xs @ filter (\<lambda>y. y \<noteq> x) (drop (nat n) ?xs)"
    by (metis append_take_drop_id filter_append)
  then have "take (nat n) (filter (\<lambda>y. y \<noteq> x) ?xs) = take (nat n) ?xs"
    by (cases "nat n \<le> length ?xs") simp_all
  then show ?thesis using inv eq by (simp add: getn_remove_eq)
qed

lemma getn_remove_new:
  assumes inv: "inv r"
  shows "set (getn (remove x r) k n) - set (getn r k n) \<subseteq> set (drop (nat n) (getn r k (n + 1)))"
proof (cases "0 \<le> n")
  case False
  then show ?thesis using getn_nonpos inv inv_remove by simp
next
  case True
  let ?xs = "getn r k (n + 1)"
  have "set ?xs = set (getn r k n) \<union> set (drop (nat n) ?xs)"
    by (metis append_take_drop_id getn_prefix [OF inv True] set_append)
  moreover have "set (getn (remove x r) k n) \<subseteq> set ?xs"
    using inv by (auto simp: getn_remove_eq dest: in_set_takeD)
  ultimately show ?thesis by blast
qed

lemma getn_remove_one_new:
  assumes inv: "inv r"
  shows "card (set (getn (remove x r) k n) - set (getn r k n)) \<le> 1"
proof -
  have "length (drop (nat n) (getn r k (n + 1))) \<le> 1"
    using getn_length [OF inv, of k "n + 1"] by (cases "0 \<le> n") (simp_all add: nat_add_distrib)
  then have "card (set (drop (nat n) (getn r k (n + 1)))) \<le> 1"
    using card_length order_trans by blast
  then show ?thesis
    using card_mono [OF _ getn_remove_new [OF inv, of x k n]] by (meson List.finite_set order_trans)
qed

lemma getn_remove_add:
  assumes "inv r" "x \<in> U" "x \<notin> members r"
  shows "getn (remove x (add x r)) k n = getn r k n"
  using assms by (intro getn_cong inv_remove inv_add) (simp_all add: members_remove members_add inv_add)

lemma getn_add_old:
  assumes "inv r" "x \<in> U" "x \<notin> members r" "y \<in> set (getn (add x r) k n)" "y \<noteq> x"
  shows "y \<in> set (getn r k n)"
  using getn_remove_keeps [OF inv_add [OF assms(1,2)] assms(4,5)] assms(1-3)
  by (simp add: getn_remove_add)

lemma getn_add_unaffected:
  assumes "inv r" "x \<in> U" "x \<notin> members r" "x \<notin> set (getn (add x r) k n)"
  shows "getn (add x r) k n = getn r k n"
  using getn_remove_unaffected [OF inv_add [OF assms(1,2)] assms(4)] assms(1-3)
  by (simp add: getn_remove_add)

lemma getn_all_members:
  assumes "inv r" "card (members r) \<le> nat n"
  shows "card (set (getn r k n)) = card (members r)"
  using assms getn_distinct [of r k n] getn_length [of r k n] by (simp add: distinct_card)

end

interpretation hr: placement U "ring_inv sha1 U" ring_set "AddNode sha1" RemoveNode "GetN sha1"
  for U sha1
proof
  fix r k and m n :: int assume inv: "ring_inv sha1 U r"
  show "distinct (GetN sha1 r k n)"
    by (simp add: GetN_walk [OF inv] distinct_walk)
  show "set (GetN sha1 r k n) \<subseteq> ring_set r"
    using set_walk [OF inv] by (auto simp: GetN_walk [OF inv] dest: in_set_takeD)
  show "length (GetN sha1 r k n) = min (nat n) (card (ring_set r))"
    by (simp add: GetN_walk [OF inv] length_walk [OF inv] min.commute)
  show "m \<le> n \<Longrightarrow> GetN sha1 r k m = take (nat m) (GetN sha1 r k n)"
    by (simp add: GetN_walk [OF inv] min_def nat_mono)
  show "0 \<le> n \<Longrightarrow> GetN sha1 (RemoveNode x r) k n
      = take (nat n) (filter (\<lambda>y. y \<noteq> x) (GetN sha1 r k (n + 1)))" for x
    using take_filter_Suc [OF distinct_walk, of "nat n" x sha1 r k]
    by (simp add: GetN_walk [OF inv] GetN_walk [OF RemoveNode_inv [OF inv]] walk_RemoveNode [OF inv]
        nat_add_distrib)
next
  fix r r' k n assume "ring_inv sha1 U r" "ring_inv sha1 U r'" "ring_set r = ring_set r'"
  then show "GetN sha1 r k n = GetN sha1 r' k n"
    by (metis GetN_walk walk_canonical)
qed (simp_all add: AddNode_inv RemoveNode_inv ring_set_AddNode ring_set_RemoveNode)

end
