(* ===== verification/RingProperties.thy ===== *)
theory RingProperties
  imports HashRing
begin

text \<open>
  The properties of the hash ring: membership histories, replica sets, minimal disruption, and
  what a hash collision does. A sample digest, computable and collision-free on one-letter
  node names, serves the witnesses here and in the other theories.
\<close>

section \<open>A sample digest\<close>

text \<open>The first byte, then the last seven bytes of the rest, padded on the left with zeros.\<close>

definition sample_sha1 :: "bytes \<Rightarrow> bytes" where
  "sample_sha1 b = (let p = replicate 7 0 @ drop 1 b in take 1 b @ drop (length p - 7) p)"

definition letter_nodes :: "string set" where
  "letter_nodes = range (\<lambda>c. [c])"

lemma fmt_d_short: "i < 1000 \<Longrightarrow> length (fmt_d i) \<le> 3"
proof -
  assume "i < 1000"
  then have "i div 10 < 100" "i div 10 div 10 < 10" by (simp_all add: div_less_iff_less_mult)
  then show ?thesis
    by (subst fmt_d.simps, subst fmt_d.simps, subst fmt_d.simps) (auto simp: not_less)
qed

lemma sample_digest_vKey:
  assumes "i < 1000"
  defines "d \<equiv> bytes_of (CHR ''#'' # fmt_d i)"
  shows "sample_sha1 (bytes_of (vKey [c] i)) = char_byte c # replicate (7 - length d) 0 @ d"
proof -
  have "length d \<le> 7" using fmt_d_short [OF assms(1)] by (simp add: d_def bytes_of_def)
  then show ?thesis
    by (simp add: sample_sha1_def vKey_def d_def bytes_of_def Let_def)
qed

lemma sample_vpoint_inj:
  assumes eq: "vpoint sample_sha1 [c] i = vpoint sample_sha1 [d] j" and i: "i < 1000" and j: "j < 1000"
  shows "c = d \<and> i = j"
proof -
  let ?D = "\<lambda>i. bytes_of (CHR ''#'' # fmt_d i)"
  let ?S = "\<lambda>c i. char_byte c # replicate (7 - length (?D i)) 0 @ ?D i"
  have len: "length (?S c i) = 8" if "i < 1000" for c i
    using fmt_d_short [OF that] by (simp add: bytes_of_def)
  have vp: "vpoint sample_sha1 [c] i = BigEndian_Uint64 (?S c i)" if "i < 1000" for c i
    unfolding vpoint_def hashKey_def sample_digest_vKey [OF that] Let_def
    by (subst take_all) (use len [OF that, of c] in simp_all)
  have "?S c i = ?S d j"
    by (rule BigEndian_inj) (use eq len i j vp in simp_all)
  then have cd: "char_byte c = char_byte d"
    and tl: "replicate (7 - length (?D i)) 0 @ ?D i = replicate (7 - length (?D j)) 0 @ ?D j"
    by simp_all
  have dw: "dropWhile (\<lambda>x. x = 0) (replicate k 0 @ ?D i) = ?D i" for k i
    by (induction k) (simp_all add: bytes_of_def char_byte_def)
  from tl have "?D i = ?D j" by (metis dw)
  then have "fmt_d i = fmt_d j" using inj_bytes_of by (auto dest: injD)
  moreover from cd have "c = d" by (metis byte_char_inverse)
  ultimately show ?thesis using fmt_d_inj by blast
qed

lemma sample_collision_free: "collision_free sample_sha1 letter_nodes"
  unfolding collision_free_def letter_nodes_def
  by (auto simp: vpoints_def VirtualNodesPerNode_def distinct_map inj_on_def dest!: sample_vpoint_inj)

section \<open>Histories of joins and leaves\<close>

datatype ring_op = Join string | Leave string

fun ring_op_name :: "ring_op \<Rightarrow> string" where
  "ring_op_name (Join x) = x"
| "ring_op_name (Leave x) = x"

fun ring_step :: "(bytes \<Rightarrow> bytes) \<Rightarrow> ring_op \<Rightarrow> ring \<Rightarrow> ring" where
  "ring_step sha1 (Join x) r = AddNode sha1 x r"
| "ring_step sha1 (Leave x) r = RemoveNode x r"

fun set_step :: "ring_op \<Rightarrow> string set \<Rightarrow> string set" where
  "set_step (Join x) N = insert x N"
| "set_step (Leave x) N = N - {x}"

definition ring_run :: "(bytes \<Rightarrow> bytes) \<Rightarrow> ring_op list \<Rightarrow> ring" where
  "ring_run sha1 ops = fold (ring_step sha1) ops ring_New"

definition set_run :: "ring_op list \<Rightarrow> string set" where
  "set_run ops = fold set_step ops {}"

lemma ring_step_refines:
  assumes "ring_inv sha1 U r" "ring_op_name op \<in> U"
  shows "ring_inv sha1 U (ring_step sha1 op r)" "ring_set (ring_step sha1 op r) = set_step op (ring_set r)"
  using assms by (cases op; simp add: hr.inv_add hr.inv_remove hr.members_add hr.members_remove)+

lemma fold_ring_step_refines:
  "ring_inv sha1 U r \<Longrightarrow> ring_op_name ` set ops \<subseteq> U \<Longrightarrow>
     ring_inv sha1 U (fold (ring_step sha1) ops r) \<and>
     ring_set (fold (ring_step sha1) ops r) = fold set_step ops (ring_set r)"
  by (induction ops arbitrary: r) (simp_all add: ring_step_refines)

lemma ring_run_refines:
  assumes "collision_free sha1 U" "ring_op_name ` set ops \<subseteq> U"
  shows "ring_inv sha1 U (ring_run sha1 ops)" "ring_set (ring_run sha1 ops) = set_run ops"
  using fold_ring_step_refines [OF ring_New_inv [OF assms(1)] assms(2)]
  by (simp_all add: ring_run_def set_run_def)

text \<open>A five-node ring for the witnesses.\<close>

definition sample_ops :: "ring_op list" where
  "sample_ops = [Join ''a'', Join ''b'', Join ''c'', Join ''d'']"

definition sample_ring :: ring where
  "sample_ring = ring_run sample_sha1 sample_ops"

lemma sample_ring_inv: "ring_inv sample_sha1 letter_nodes sample_ring"
  unfolding sample_ring_def
  by (rule ring_run_refines [OF sample_collision_free]) (auto simp: sample_ops_def letter_nodes_def)

lemma sample_ring_set: "ring_set sample_ring = {''a'', ''b'', ''c'', ''d''}"
proof -
  have "ring_set sample_ring = set_run sample_ops"
    unfolding sample_ring_def
    by (rule ring_run_refines [OF sample_collision_free]) (auto simp: sample_ops_def letter_nodes_def)
  then show ?thesis by (auto simp: set_run_def sample_ops_def)
qed

section \<open>Properties\<close>

text \<open>
  C21. Any two nodes that have seen joins and leaves ending in the same membership hold the
  same ring, whatever the order of events: same positions, same owners, and the same replica
  set for every key. So the cluster's members place chunks without talking to each other.
\<close>

theorem placement_agreement:
  assumes "collision_free sha1 U"
    and "ring_op_name ` set ops \<subseteq> U" and "ring_op_name ` set ops' \<subseteq> U"
    and "set_run ops = set_run ops'"
  shows "sortedHashes (ring_run sha1 ops) = sortedHashes (ring_run sha1 ops')
    \<and> hashToNode (ring_run sha1 ops) = hashToNode (ring_run sha1 ops')
    \<and> (\<forall>key n. GetN sha1 (ring_run sha1 ops) key n = GetN sha1 (ring_run sha1 ops') key n)"
proof -
  note R = ring_run_refines [OF assms(1,2)] and R' = ring_run_refines [OF assms(1,3)]
  have eq: "ring_set (ring_run sha1 ops) = ring_set (ring_run sha1 ops')" using R(2) R'(2) assms(4) by simp
  show ?thesis
    using ring_canonical [OF R(1) R'(1) eq] hr.getn_cong [OF R(1) R'(1) eq] by blast
qed

lemma placement_agreement_witness:
  "set_run [Join ''a'', Join ''b'', Leave ''a''] = {''b''} \<and>
   GetN sample_sha1 (ring_run sample_sha1 [Join ''a'', Join ''b'', Leave ''a'']) ''k'' 3
     = GetN sample_sha1 (ring_run sample_sha1 [Join ''b'']) ''k'' 3"
proof -
  have "set_run [Join ''a'', Join ''b'', Leave ''a''] = set_run [Join ''b'']"
    by (auto simp: set_run_def)
  then have "GetN sample_sha1 (ring_run sample_sha1 [Join ''a'', Join ''b'', Leave ''a'']) ''k'' 3
      = GetN sample_sha1 (ring_run sample_sha1 [Join ''b'']) ''k'' 3"
    by (intro placement_agreement [OF sample_collision_free, THEN conjunct2, THEN conjunct2, rule_format])
       (auto simp: letter_nodes_def)
  then show ?thesis by (auto simp: set_run_def)
qed

text \<open>
  C12. \<^verbatim>\<open>GetN\<close> returns the first \<open>n\<close> distinct nodes met walking clockwise from the key's
  hash: no node twice, members only, exactly \<open>min n |nodes|\<close> of them, the primary being the
  owner of the first position at or after the hash (or of the ring's first position).
\<close>

theorem GetN_replica_set:
  assumes "ring_inv sha1 U r" and "0 < n" and "ring_set r \<noteq> {}"
  shows "distinct (GetN sha1 r key n) \<and> set (GetN sha1 r key n) \<subseteq> ring_set r
    \<and> length (GetN sha1 r key n) = min (nat n) (card (ring_set r))
    \<and> GetN sha1 r key n = take (nat n) (dedup (map (owner r) (clockwise (hashKey sha1 key) (sortedHashes r))))
    \<and> hd (GetN sha1 r key n) = owner r (hd (clockwise (hashKey sha1 key) (sortedHashes r)))"
proof -
  let ?c = "clockwise (hashKey sha1 key) (sortedHashes r)"
  have "?c \<noteq> []"
    using assms(3) owners_ring_set [OF assms(1)] by (metis image_is_empty set_clockwise set_empty)
  then obtain h hs where c: "?c = h # hs" by (cases ?c) auto
  with assms(2) have "hd (take (nat n) (dedup (map (owner r) ?c))) = owner r (hd ?c)"
    by (cases "nat n") simp_all
  then show ?thesis
    using GetN_walk [OF assms(1)] hr.getn_distinct [OF assms(1)] hr.getn_members [OF assms(1)]
      hr.getn_length [OF assms(1)] by (simp add: walk_def)
qed

lemma GetN_replica_set_witness:
  "length (GetN sample_sha1 sample_ring ''key'' 3) = 3 \<and> distinct (GetN sample_sha1 sample_ring ''key'' 3)"
proof -
  have "0 < (3 :: int)" "ring_set sample_ring \<noteq> {}" by (simp_all add: sample_ring_set)
  note T = GetN_replica_set [OF sample_ring_inv this, of "''key''"]
  from T have "length (GetN sample_sha1 sample_ring ''key'' 3) = min (nat 3) (card (ring_set sample_ring))"
    by blast
  moreover from T have "distinct (GetN sample_sha1 sample_ring ''key'' 3)" by blast
  ultimately show ?thesis by (simp add: sample_ring_set)
qed

text \<open>
  C10. Removing a node takes it out of every replica set and moves nothing else: a key whose
  set did not hold it keeps its set, every other member of a set stays in it, and at most one
  node is promoted.
\<close>

theorem RemoveNode_minimal_disruption:
  assumes "ring_inv sha1 U r"
  shows "x \<notin> set (GetN sha1 (RemoveNode x r) key n)
    \<and> (x \<in> set (GetN sha1 r key n) \<or> GetN sha1 (RemoveNode x r) key n = GetN sha1 r key n)
    \<and> set (GetN sha1 r key n) - {x} \<subseteq> set (GetN sha1 (RemoveNode x r) key n)
    \<and> card (set (GetN sha1 (RemoveNode x r) key n) - set (GetN sha1 r key n)) \<le> 1"
  using hr.getn_remove_absent [OF assms] hr.getn_remove_unaffected [OF assms]
    hr.getn_remove_keeps [OF assms] hr.getn_remove_one_new [OF assms]
  by blast

lemma RemoveNode_minimal_disruption_witness:
  "''b'' \<notin> set (GetN sample_sha1 (RemoveNode ''b'' sample_ring) ''key'' 3)"
  using RemoveNode_minimal_disruption [OF sample_ring_inv] by blast

text \<open>
  A joining node is the only one that gains keys: after the join each replica set holds
  the newcomer or is unchanged, and no old node enters a set it was not in.
\<close>

lemma AddNode_minimal_disruption:
  assumes "ring_inv sha1 U r" and "x \<in> U" and "x \<notin> ring_set r"
  shows "(x \<in> set (GetN sha1 (AddNode sha1 x r) key n)
           \<or> GetN sha1 (AddNode sha1 x r) key n = GetN sha1 r key n)
    \<and> set (GetN sha1 (AddNode sha1 x r) key n) \<subseteq> insert x (set (GetN sha1 r key n))"
  using hr.getn_add_unaffected [OF assms] hr.getn_add_old [OF assms] by blast

lemma AddNode_minimal_disruption_witness:
  "set (GetN sample_sha1 (AddNode sample_sha1 ''e'' sample_ring) ''key'' 3)
     \<subseteq> insert ''e'' (set (GetN sample_sha1 sample_ring ''key'' 3))"
proof -
  have "''e'' \<in> letter_nodes" "''e'' \<notin> ring_set sample_ring"
    by (simp_all add: letter_nodes_def sample_ring_set)
  then show ?thesis using AddNode_minimal_disruption [OF sample_ring_inv] by blast
qed

text \<open>
  A node that joins and leaves again leaves no trace in the ring's positions and owners,
  and joining twice is joining once.
\<close>

lemma RemoveNode_AddNode_roundtrip:
  assumes "ring_inv sha1 U r" and "x \<in> U" and "x \<notin> ring_set r"
  shows "sortedHashes (RemoveNode x (AddNode sha1 x r)) = sortedHashes r
    \<and> hashToNode (RemoveNode x (AddNode sha1 x r)) = hashToNode r
    \<and> ring_set (RemoveNode x (AddNode sha1 x r)) = ring_set r
    \<and> AddNode sha1 x (AddNode sha1 x r) = AddNode sha1 x r"
proof -
  have inv': "ring_inv sha1 U (AddNode sha1 x r)" by (rule hr.inv_add [OF assms(1,2)])
  have mem: "ring_set (RemoveNode x (AddNode sha1 x r)) = ring_set r"
    using assms by (simp add: hr.members_remove [OF inv'] hr.members_add)
  have "gm_bool (nodes (AddNode sha1 x r)) x"
    using ring_invD(4) [OF inv'] hr.members_add [OF assms(1,2)] by simp
  then have "AddNode sha1 x (AddNode sha1 x r) = AddNode sha1 x r"
    by (subst AddNode_def) simp
  with ring_canonical [OF hr.inv_remove [OF inv'] assms(1) mem] mem show ?thesis by simp
qed

lemma RemoveNode_AddNode_roundtrip_witness:
  "sortedHashes (RemoveNode ''e'' (AddNode sample_sha1 ''e'' sample_ring)) = sortedHashes sample_ring"
proof -
  have "''e'' \<in> letter_nodes" "''e'' \<notin> ring_set sample_ring"
    by (simp_all add: letter_nodes_def sample_ring_set)
  then show ?thesis using RemoveNode_AddNode_roundtrip [OF sample_ring_inv] by blast
qed

subsection \<open>Colliding virtual nodes\<close>

lemma remove_points_map: "fst (remove_points x hs m) h = Some n \<Longrightarrow> m h = Some n"
  by (induction x hs m rule: remove_points.induct)
     (auto simp: split_beta Let_def split: if_splits)

lemma remove_points_first:
  "h \<in> set hs \<Longrightarrow> m h = Some x \<Longrightarrow> fst (remove_points x hs m) h = None"
proof (induction x hs m rule: remove_points.induct)
  case (2 x k hs m)
  show ?case
  proof (cases "str_at m k = x")
    case True
    show ?thesis
    proof (cases "h = k")
      case hk: True
      have "fst (remove_points x hs (m(k := None))) h \<noteq> Some n" for n
        using remove_points_map [of x hs "m(k := None)" h n] hk by auto
      then show ?thesis using True by (simp add: not_Some_eq [symmetric])
    next
      case False
      with 2 True show ?thesis by (simp add: fun_upd_def)
    qed
  next
    case False
    then have "h \<noteq> k" using 2 by (auto simp: str_at_def)
    with 2 False show ?thesis by (simp add: split_beta Let_def)
  qed
qed simp

lemma remove_points_gone:
  "m h = None \<Longrightarrow> h \<in> set hs \<Longrightarrow> x \<noteq> '''' \<Longrightarrow> h \<in> set (snd (remove_points x hs m))"
  by (induction x hs m rule: remove_points.induct)
     (auto simp: split_beta Let_def str_at_def)

lemma remove_points_twice:
  "m h = Some x \<Longrightarrow> 2 \<le> count_list hs h \<Longrightarrow> x \<noteq> '''' \<Longrightarrow> h \<in> set (snd (remove_points x hs m))"
proof (induction x hs m rule: remove_points.induct)
  case (2 x k hs m)
  show ?case
  proof (cases "h = k")
    case True
    with 2 have "h \<in> set hs" by (cases "h \<in> set hs") (simp_all add: count_notin)
    with 2 True show ?thesis by (simp add: str_at_def remove_points_gone)
  next
    case False
    with 2 show ?thesis by (simp add: split_beta Let_def fun_upd_def)
  qed
qed simp

lemma remove_points_subseq: "subseq (snd (remove_points x hs m)) hs"
  by (induction x hs m rule: remove_points.induct) (auto simp: split_beta Let_def fun_upd_def)

lemma sorted_subseq: "subseq xs ys \<Longrightarrow> sorted ys \<Longrightarrow> sorted xs"
  by (metis sorted_nths subseq_conv_nths)

lemma count_list_mem: "x \<in> set xs \<Longrightarrow> 1 \<le> count_list xs x"
  by (induction xs) auto

lemma count_list_sort: "count_list (sort xs) x = count_list xs x"
  by (metis count_mset mset_sort)

lemma getn_loop_first:
  assumes "0 < length (sortedHashes r)" and "gm_len (nodes r) \<noteq> 0"
  shows "getn_loop r 1 idx 0 [] [] = [owner r (sortedHashes r ! (idx mod length (sortedHashes r)))]"
  using assms
  by (simp add: getn_loop.simps [of r 1 idx 0] getn_loop.simps [of r 1 idx "Suc 0"] Let_def
      gm_bool_def gomap_simps owner_def) (simp add: gm_len_def)

lemma ring_Get_exact:
  assumes "sorted (sortedHashes r)" and "hashKey sha1 key \<in> set (sortedHashes r)" and "gm_len (nodes r) \<noteq> 0"
  shows "ring_Get sha1 r key = (owner r (hashKey sha1 key), True)"
proof -
  let ?hs = "sortedHashes r" and ?h = "hashKey sha1 key"
  let ?p = "length (takeWhile (\<lambda>x. x < ?h) ?hs)"
  have p: "?p < length ?hs"
  proof (rule ccontr)
    assume "\<not> ?p < length ?hs"
    then have "takeWhile (\<lambda>x. x < ?h) ?hs = ?hs"
      by (metis length_takeWhile_le linorder_neqE_nat not_le takeWhile_eq_take take_all_iff)
    with assms(2) show False by (metis less_irrefl set_takeWhileD)
  qed
  have "?hs ! ?p = ?h"
  proof -
    have "?h \<le> ?hs ! ?p" using nth_length_takeWhile [OF p] by simp
    moreover obtain i where i: "i < length ?hs" "?hs ! i = ?h" using assms(2) by (auto simp: in_set_conv_nth)
    then have "?p \<le> i" by (metis less_irrefl not_le nth_mem set_takeWhileD takeWhile_nth)
    then have "?hs ! ?p \<le> ?h" using assms(1) i sorted_nth_mono by metis
    ultimately show ?thesis by simp
  qed
  with p assms show ?thesis
    by (auto simp: ring_Get_def GetN_def Let_def sort_Search_sorted getn_loop_first)
qed

text \<open>
  When a virtual point of one node collides with a virtual point of another, the second
  node's departure orphans the shared position: it stays on the ring but maps to no node, and
  \<^verbatim>\<open>Get\<close> answers the empty node name, with success, for a key that hashes there.
\<close>

lemma collision_orphans_position:
  assumes "vpoint sha1 a i = vpoint sha1 b j" and "i < VirtualNodesPerNode" and "j < VirtualNodesPerNode"
    and "a \<noteq> b" and "b \<noteq> ''''"
  defines "r \<equiv> RemoveNode b (AddNode sha1 b (AddNode sha1 a ring_New))"
  shows "ring_set r = {a} \<and> vpoint sha1 a i \<in> set (sortedHashes r)
    \<and> hashToNode r (vpoint sha1 a i) = None \<and> ring_Get sha1 r (vKey a i) = ('''', True)"
proof -
  let ?p = "vpoint sha1 a i"
  let ?r2 = "AddNode sha1 b (AddNode sha1 a ring_New)"
  have p: "?p \<in> set (vpoints sha1 a)" "?p \<in> set (vpoints sha1 b)"
    using assms(1-3) by (auto simp: vpoints_def intro: image_eqI [where x = i])
  have r2: "nodes ?r2 = [(a, True), (b, True)]" "hashToNode ?r2 ?p = Some b"
    "sortedHashes ?r2 = sort (sort (vpoints sha1 a) @ vpoints sha1 b)"
    using \<open>a \<noteq> b\<close> p
    by (simp_all add: AddNode_def ring_New_def add_points gm_bool_def gm_get_def gm_set_def)
  have two: "2 \<le> count_list (sortedHashes ?r2) ?p"
    using count_list_mem [OF p(1)] count_list_mem [OF p(2)] by (simp add: r2(3) count_list_sort)
  have mem: "?p \<in> set (sortedHashes ?r2)" using p by (simp add: r2(3))
  have r: "nodes r = [(a, True)]"
    "sortedHashes r = snd (remove_points b (sortedHashes ?r2) (hashToNode ?r2))"
    "hashToNode r = fst (remove_points b (sortedHashes ?r2) (hashToNode ?r2))"
    using \<open>a \<noteq> b\<close>
    by (auto simp: r_def RemoveNode_def r2(1) gm_bool_def gm_get_def gm_del_def split_beta Let_def)
  have in_r: "?p \<in> set (sortedHashes r)"
    unfolding r(2) by (rule remove_points_twice [of "hashToNode ?r2", OF r2(2) two \<open>b \<noteq> ''''\<close>])
  have none: "hashToNode r ?p = None"
    unfolding r(3) by (rule remove_points_first [of _ _ "hashToNode ?r2", OF mem r2(2)])
  have "sorted (sortedHashes r)"
    unfolding r(2) by (rule sorted_subseq [OF remove_points_subseq]) (simp add: r2(3))
  then have "ring_Get sha1 r (vKey a i) = (owner r ?p, True)"
    using ring_Get_exact [of r sha1 "vKey a i"] in_r r(1) by (simp add: vpoint_def gm_len_def)
  with in_r none r(1) show ?thesis
    by (simp add: owner_def str_at_def ring_set_def gm_keys_def)
qed

lemma collision_orphans_position_witness:
  "ring_Get (\<lambda>b. replicate 20 0) (RemoveNode ''b'' (AddNode (\<lambda>b. replicate 20 0) ''b''
     (AddNode (\<lambda>b. replicate 20 0) ''a'' ring_New))) (vKey ''a'' 0) = ('''', True)"
proof -
  have "vpoint (\<lambda>b. replicate 20 0) ''a'' 0 = vpoint (\<lambda>b. replicate 20 0) ''b'' 0"
    by (simp add: vpoint_def hashKey_def)
  then show ?thesis
    using collision_orphans_position [of "\<lambda>b. replicate 20 0" "''a''" 0 "''b''" 0]
    by (simp add: VirtualNodesPerNode_def)
qed

end
