(* ===== verification/Storage.thy ===== *)
theory Storage
  imports GoLib
begin

text \<open>
  The storage interface of \<^verbatim>\<open>internal/storage/storage.go\<close>, its in-memory
  implementation and \<^verbatim>\<open>Copy\<close>. A Go value of the interface type is a record of its
  five methods over a world \<open>'s\<close>; the contract the clients rely on is the locale
  \<open>backend_spec\<close>, interpreted here on \<^verbatim>\<open>Memory\<close> and in the theory LocalFS on
  the file-system store.
\<close>

section \<open>The interface\<close>

record 's backend =
  b_Put :: "string \<Rightarrow> bytes \<Rightarrow> 's \<Rightarrow> go_error option \<times> 's"
  b_Get :: "string \<Rightarrow> 's \<Rightarrow> (go_error + bytes) \<times> 's"
  b_Has :: "string \<Rightarrow> 's \<Rightarrow> bool \<times> 's"
  b_Delete :: "string \<Rightarrow> 's \<Rightarrow> go_error option \<times> 's"
  b_List :: "'s \<Rightarrow> (go_error + string list) \<times> 's"

section \<open>Memory\<close>

record memory =
  mem_data :: "(string, bytes) gomap"

definition NewMemory :: memory where
  "NewMemory = \<lparr>mem_data = []\<rparr>"

definition Memory_Put :: "string \<Rightarrow> bytes \<Rightarrow> memory \<Rightarrow> go_error option \<times> memory" where
  "Memory_Put chunkID data m = (let cp = data in (None, m\<lparr>mem_data := gm_set (mem_data m) chunkID cp\<rparr>))"

definition Memory_Get :: "string \<Rightarrow> memory \<Rightarrow> (go_error + bytes) \<times> memory" where
  "Memory_Get chunkID m =
     (case gm_get (mem_data m) chunkID of None \<Rightarrow> (Inl ErrNotFound, m) | Some d \<Rightarrow> (Inr d, m))"

definition Memory_Has :: "string \<Rightarrow> memory \<Rightarrow> bool \<times> memory" where
  "Memory_Has chunkID m = (gm_get (mem_data m) chunkID \<noteq> None, m)"

definition Memory_Delete :: "string \<Rightarrow> memory \<Rightarrow> go_error option \<times> memory" where
  "Memory_Delete chunkID m = (None, m\<lparr>mem_data := gm_del (mem_data m) chunkID\<rparr>)"

definition Memory_List :: "(string list \<Rightarrow> string list) \<Rightarrow> memory \<Rightarrow> (go_error + string list) \<times> memory" where
  "Memory_List ord m = (Inr (ord (gm_keys (mem_data m))), m)"

definition Memory :: "(string list \<Rightarrow> string list) \<Rightarrow> memory backend" where
  "Memory ord = \<lparr>b_Put = Memory_Put, b_Get = Memory_Get, b_Has = Memory_Has,
     b_Delete = Memory_Delete, b_List = Memory_List ord\<rparr>"

section \<open>Copy\<close>

text \<open>The two stores live in one world: \<open>dst\<close> on the first part, \<open>src\<close> on the second.\<close>

fun copy_loop ::
  "'d backend \<Rightarrow> 's backend \<Rightarrow> string list \<Rightarrow> 'd \<times> 's \<Rightarrow> go_error option \<times> ('d \<times> 's)" where
  "copy_loop dst src [] st = (None, st)"
| "copy_loop dst src (c # ids) (d, s) =
     (case b_Get src c s of
        (Inl e, s1) \<Rightarrow> (Some e, (d, s1))
      | (Inr data, s1) \<Rightarrow>
          (case b_Put dst c data d of
             (Some e, d1) \<Rightarrow> (Some e, (d1, s1))
           | (None, d1) \<Rightarrow> copy_loop dst src ids (d1, s1)))"

definition Copy :: "'d backend \<Rightarrow> 's backend \<Rightarrow> 'd \<times> 's \<Rightarrow> go_error option \<times> ('d \<times> 's)" where
  "Copy dst src st =
     (case b_List src (snd st) of
        (Inl e, s1) \<Rightarrow> (Some e, (fst st, s1))
      | (Inr ids, s1) \<Rightarrow> copy_loop dst src ids (fst st, s1))"

section \<open>The contract\<close>

text \<open>
  \<open>stored s\<close> is the abstract content, a map from chunk IDs to bytes. A failing operation leaves
  it unchanged; a successful one does what its name says. \<open>reliable s\<close> says that the
  environment injects no failure from \<open>s\<close> on, and then every operation succeeds. \<open>ok_id\<close>
  are the IDs the store can hold.
\<close>

locale backend_spec =
  fixes B :: "'s backend"
    and inv :: "'s \<Rightarrow> bool"
    and ok_id :: "string \<Rightarrow> bool"
    and stored :: "'s \<Rightarrow> string \<rightharpoonup> bytes"
    and reliable :: "'s \<Rightarrow> bool"
  assumes put_inv: "inv s \<Longrightarrow> ok_id c \<Longrightarrow> b_Put B c d s = (r, s') \<Longrightarrow> inv s'"
    and put_ok: "inv s \<Longrightarrow> ok_id c \<Longrightarrow> b_Put B c d s = (None, s') \<Longrightarrow> stored s' = (stored s)(c \<mapsto> d)"
    and put_err: "inv s \<Longrightarrow> ok_id c \<Longrightarrow> b_Put B c d s = (Some e, s') \<Longrightarrow> stored s' = stored s"
    and put_reliable: "inv s \<Longrightarrow> ok_id c \<Longrightarrow> reliable s \<Longrightarrow> b_Put B c d s = (r, s') \<Longrightarrow> r = None \<and> reliable s'"
    and get_inv: "inv s \<Longrightarrow> ok_id c \<Longrightarrow> b_Get B c s = (x, s') \<Longrightarrow> inv s' \<and> stored s' = stored s"
    and get_ok: "inv s \<Longrightarrow> ok_id c \<Longrightarrow> b_Get B c s = (Inr d, s') \<Longrightarrow> stored s c = Some d"
    and get_none: "inv s \<Longrightarrow> ok_id c \<Longrightarrow> b_Get B c s = (Inl ErrNotFound, s') \<Longrightarrow> stored s c = None"
    and get_reliable: "inv s \<Longrightarrow> ok_id c \<Longrightarrow> reliable s \<Longrightarrow> b_Get B c s = (x, s') \<Longrightarrow>
          reliable s' \<and> x = (case stored s c of None \<Rightarrow> Inl ErrNotFound | Some d \<Rightarrow> Inr d)"
    and has_inv: "inv s \<Longrightarrow> ok_id c \<Longrightarrow> b_Has B c s = (b, s') \<Longrightarrow>
          inv s' \<and> stored s' = stored s \<and> (b \<longrightarrow> stored s c \<noteq> None)"
    and has_reliable: "inv s \<Longrightarrow> ok_id c \<Longrightarrow> reliable s \<Longrightarrow> b_Has B c s = (b, s') \<Longrightarrow>
          reliable s' \<and> b = (stored s c \<noteq> None)"
    and delete_inv: "inv s \<Longrightarrow> ok_id c \<Longrightarrow> b_Delete B c s = (r, s') \<Longrightarrow> inv s'"
    and delete_ok: "inv s \<Longrightarrow> ok_id c \<Longrightarrow> b_Delete B c s = (None, s') \<Longrightarrow> stored s' = (stored s)(c := None)"
    and delete_err: "inv s \<Longrightarrow> ok_id c \<Longrightarrow> b_Delete B c s = (Some e, s') \<Longrightarrow> stored s' = stored s"
    and delete_reliable: "inv s \<Longrightarrow> ok_id c \<Longrightarrow> reliable s \<Longrightarrow> b_Delete B c s = (r, s') \<Longrightarrow> r = None \<and> reliable s'"
    and list_inv: "inv s \<Longrightarrow> b_List B s = (y, s') \<Longrightarrow> inv s' \<and> stored s' = stored s"
    and list_ok: "inv s \<Longrightarrow> b_List B s = (Inr ids, s') \<Longrightarrow> set ids = dom (stored s) \<and> distinct ids"
    and list_reliable: "inv s \<Longrightarrow> reliable s \<Longrightarrow> b_List B s = (y, s') \<Longrightarrow> reliable s' \<and> (\<exists>ids. y = Inr ids)"
    and stored_ok: "inv s \<Longrightarrow> stored s c \<noteq> None \<Longrightarrow> ok_id c"
begin

lemma put_get:
  assumes "inv s" "ok_id c" "b_Put B c d s = (None, s1)" "b_Get B c s1 = (x, s2)" "reliable s1"
  shows "x = Inr d"
  using get_reliable [OF put_inv [OF assms(1-3)] assms(2) assms(5,4)] put_ok [OF assms(1-3)] by simp

lemma put_get_other:
  assumes "inv s" "ok_id c" "ok_id c'" "c' \<noteq> c" "b_Put B c d s = (None, s1)"
    "b_Get B c' s1 = (Inr d', s2)"
  shows "stored s c' = Some d'"
  using get_ok [OF put_inv [OF assms(1,2,5)] assms(3,6)] put_ok [OF assms(1,2,5)] assms(4) by simp

lemma delete_get:
  assumes "inv s" "ok_id c" "b_Delete B c s = (None, s1)" "b_Get B c s1 = (x, s2)" "reliable s1"
  shows "x = Inl ErrNotFound"
  using get_reliable [OF delete_inv [OF assms(1-3)] assms(2) assms(5,4)] delete_ok [OF assms(1-3)] by simp

end

text \<open>
  \<^verbatim>\<open>Memory\<close> satisfies the contract for every order in which
  \<^verbatim>\<open>List\<close> may range over its map.
\<close>

definition mem_ok :: "(string list \<Rightarrow> string list) \<Rightarrow> memory \<Rightarrow> bool" where
  "mem_ok ord m \<longleftrightarrow> range_order ord \<and> gm_ok (mem_data m)"

definition mem_stored :: "memory \<Rightarrow> string \<rightharpoonup> bytes" where
  "mem_stored m = gm_get (mem_data m)"

interpretation mem: backend_spec "Memory ord" "mem_ok ord" "\<lambda>c. True" mem_stored "\<lambda>m. True" for ord
  by unfold_locales
     (auto simp: Memory_def Memory_Put_def Memory_Get_def Memory_Has_def Memory_Delete_def
       Memory_List_def mem_ok_def mem_stored_def gomap_simps fun_eq_iff gm_keys_dom
       range_order_set range_order_distinct distinct_gm_keys
       split: option.splits)

section \<open>Copying between stores\<close>

text \<open>Two stores side by side, each with its own contract.\<close>

locale two_backends = src: backend_spec S sinv sok sstored sreliable + dst: backend_spec D dinv dok dstored dreliable
  for S :: "'s backend" and sinv sok sstored sreliable
    and D :: "'d backend" and dinv dok dstored dreliable +
  assumes ids_fit: "sok c \<Longrightarrow> dok c"
begin

lemma copy_loop_spec:
  assumes "sinv s" "dinv d" "\<And>c. c \<in> set ids \<Longrightarrow> sstored s c \<noteq> None"
    and "copy_loop D S ids (d, s) = (r, (d', s'))"
  shows "sinv s' \<and> dinv d' \<and> sstored s' = sstored s
    \<and> (\<forall>c. dstored d' c = dstored d c \<or> c \<in> set ids \<and> dstored d' c = sstored s c)
    \<and> (r = None \<longrightarrow> dstored d' = (\<lambda>c. if c \<in> set ids then sstored s c else dstored d c))
    \<and> (sreliable s \<and> dreliable d \<longrightarrow> r = None)"
  using assms
proof (induction ids arbitrary: s d)
  case (Cons c ids)
  have c: "sok c" "dok c" using Cons.prems(1,3) src.stored_ok [of s c] ids_fit by auto
  obtain x s1 where g: "b_Get S c s = (x, s1)" by (cases "b_Get S c s") auto
  note G = src.get_inv [OF Cons.prems(1) c(1) g]
  show ?case
  proof (cases x)
    case (Inl e)
    have "\<not> sreliable s"
      using src.get_reliable [OF Cons.prems(1) c(1) _ g] Inl Cons.prems(3) [of c] by (auto split: option.splits)
    with Cons.prems(2,4) g Inl G show ?thesis by auto
  next
    case (Inr data)
    with src.get_ok [OF Cons.prems(1) c(1)] g have data: "sstored s c = Some data" by simp
    obtain w d1 where p: "b_Put D c data d = (w, d1)" by (cases "b_Put D c data d") auto
    note P = dst.put_inv [OF Cons.prems(2) c(2) p]
    show ?thesis
    proof (cases w)
      case (Some e)
      have "dstored d1 = dstored d" using dst.put_err [OF Cons.prems(2) c(2)] p Some by simp
      moreover have "\<not> dreliable d" using dst.put_reliable [OF Cons.prems(2) c(2) _ p] Some by auto
      ultimately show ?thesis using Cons.prems(4) g Inr p Some G P by auto
    next
      case None
      have d1: "dstored d1 = (dstored d)(c \<mapsto> data)" using dst.put_ok [OF Cons.prems(2) c(2)] p None by simp
      have rel: "sreliable s \<Longrightarrow> sreliable s1" "dreliable d \<Longrightarrow> dreliable d1"
        using src.get_reliable [OF Cons.prems(1) c(1) _ g] dst.put_reliable [OF Cons.prems(2) c(2) _ p] by auto
      have "copy_loop D S ids (d1, s1) = (r, (d', s'))" using Cons.prems(4) g Inr p None by simp
      with Cons.IH [of s1 d1] G P Cons.prems(3) have
        I: "sinv s'" "dinv d'" "sstored s' = sstored s"
         "\<And>k. dstored d' k = dstored d1 k \<or> k \<in> set ids \<and> dstored d' k = sstored s k"
         "r = None \<Longrightarrow> dstored d' = (\<lambda>k. if k \<in> set ids then sstored s k else dstored d1 k)"
         "sreliable s1 \<and> dreliable d1 \<longrightarrow> r = None" by auto
      have "dstored d' k = dstored d k \<or> k \<in> set (c # ids) \<and> dstored d' k = sstored s k" for k
        using I(4) [of k] d1 data by (cases "k = c") auto
      moreover have "dstored d' = (\<lambda>k. if k \<in> set (c # ids) then sstored s k else dstored d k)"
        if "r = None"
        using I(5) [OF that] d1 data by (auto simp: fun_eq_iff)
      ultimately show ?thesis using I(1-3,6) rel by blast
    qed
  qed
qed simp

lemma Copy_spec:
  assumes "sinv s" "dinv d" and "Copy D S (d, s) = (r, (d', s'))"
  shows "sinv s' \<and> dinv d' \<and> sstored s' = sstored s
    \<and> (\<forall>c. dstored d' c = dstored d c \<or> dstored d' c = sstored s c)
    \<and> (r = None \<longrightarrow> dstored d' = dstored d ++ sstored s)
    \<and> (sreliable s \<and> dreliable d \<longrightarrow> r = None)"
proof -
  obtain y s1 where l: "b_List S s = (y, s1)" by (cases "b_List S s") auto
  note L = src.list_inv [OF assms(1) l]
  show ?thesis
  proof (cases y)
    case (Inl e)
    with src.list_reliable [OF assms(1) _ l] have "\<not> sreliable s" by auto
    with assms l L Inl show ?thesis by (auto simp: Copy_def)
  next
    case (Inr ids)
    with src.list_ok [OF assms(1)] l have ids: "set ids = dom (sstored s)" by simp
    have run: "copy_loop D S ids (d, s1) = (r, (d', s'))" using assms(3) l Inr by (simp add: Copy_def)
    have rel: "sreliable s \<longrightarrow> sreliable s1" using src.list_reliable [OF assms(1) _ l] by simp
    have eq: "(\<lambda>c. if c \<in> set ids then sstored s c else dstored d c) = dstored d ++ sstored s"
      by (auto simp: ids fun_eq_iff map_add_def split: option.splits)
    have all: "sstored s1 c \<noteq> None" if "c \<in> set ids" for c using that L ids by auto
    have s1: "sstored s1 = sstored s" using L by simp
    show ?thesis
      using copy_loop_spec [OF conjunct1 [OF L] assms(2) all run] rel unfolding s1 eq by blast
  qed
qed

end

end
