(* ===== verification/LocalFS.thy ===== *)
theory LocalFS
  imports Storage
begin

text \<open>
  The file-system store of \<^verbatim>\<open>internal/storage/storage.go\<close>. The operating
  system is modelled by a tree of directories and files keyed by absolute, cleaned paths (lists
  of components) and by a script of the failures it injects; the path functions are Go's
  \<^verbatim>\<open>filepath\<close> on absolute paths. The store then satisfies the storage
  contract, a failing or interrupted \<^verbatim>\<open>Put\<close> included.
\<close>

section \<open>Paths\<close>

type_synonym path = "string list"

text \<open>The components of a string between its slashes.\<close>

abbreviation split_slash :: "string \<Rightarrow> string list" where
  "split_slash \<equiv> strings_Split (CHR ''/'')"

text \<open>
  \<^verbatim>\<open>filepath.Clean\<close> of an absolute path, component by component: empty and dot
  components vanish, dot-dot drops the last one and stops at the root.
\<close>

fun clean_step :: "path \<Rightarrow> string \<Rightarrow> path" where
  "clean_step stack c =
     (if c = '''' \<or> c = ''.'' then stack
      else if c = ''..'' then butlast stack
      else stack @ [c])"

definition Clean :: "string list \<Rightarrow> path" where
  "Clean cs = foldl clean_step [] cs"

text \<open>\<^verbatim>\<open>filepath.Join\<close> with an absolute first element.\<close>

definition Join :: "string list \<Rightarrow> path" where
  "Join elems = Clean (concat (map split_slash elems))"

definition Dir :: "path \<Rightarrow> path" where
  "Dir p = butlast p"

definition Base :: "path \<Rightarrow> string" where
  "Base p = (if p = [] then ''/'' else last p)"

definition add_suffix :: "path \<Rightarrow> string \<Rightarrow> path" where
  "add_suffix p s = (if p = [] then [s] else butlast p @ [last p @ s])"

text \<open>\<^verbatim>\<open>filepath.Ext\<close> on the last component: from its last dot on.\<close>

definition Ext_name :: "string \<Rightarrow> string" where
  "Ext_name s = (let t = takeWhile (\<lambda>c. c \<noteq> CHR ''.'') (rev s)
                 in if length t < length s then CHR ''.'' # rev t else [])"

definition Ext :: "path \<Rightarrow> string" where
  "Ext p = (if p = [] then [] else Ext_name (last p))"

section \<open>The file system\<close>

datatype fnode = FDir | FFile bytes

text \<open>
  A failure hits a call before it does anything, or after part of its work (that many
  directories created, that many bytes written).
\<close>

datatype fault = FaultBefore string | FaultPartial nat string

record fsys =
  tree :: "(path, fnode) gomap"
  faults :: "fault option list"

definition next_fault :: "fsys \<Rightarrow> fault option \<times> fsys" where
  "next_fault fs = (case faults fs of [] \<Rightarrow> (None, fs) | f # r \<Rightarrow> (f, fs\<lparr>faults := r\<rparr>))"

fun mkdirs :: "path list \<Rightarrow> (path, fnode) gomap \<Rightarrow> go_error option \<times> (path, fnode) gomap" where
  "mkdirs [] t = (None, t)"
| "mkdirs (p # ps) t =
     (case gm_get t p of
        Some (FFile b) \<Rightarrow> (Some (Failure ''not a directory''), t)
      | Some FDir \<Rightarrow> mkdirs ps t
      | None \<Rightarrow> mkdirs ps (gm_set t p FDir))"

definition os_MkdirAll :: "path \<Rightarrow> fsys \<Rightarrow> go_error option \<times> fsys" where
  "os_MkdirAll p fs0 =
     (case next_fault fs0 of
        (None, fs) \<Rightarrow> (let (e, t) = mkdirs (prefixes p) (tree fs) in (e, fs\<lparr>tree := t\<rparr>))
      | (Some (FaultBefore msg), fs) \<Rightarrow> (Some (Failure msg), fs)
      | (Some (FaultPartial n msg), fs) \<Rightarrow>
          (Some (Failure msg), fs\<lparr>tree := snd (mkdirs (take n (prefixes p)) (tree fs))\<rparr>))"

definition os_WriteFile :: "path \<Rightarrow> bytes \<Rightarrow> fsys \<Rightarrow> go_error option \<times> fsys" where
  "os_WriteFile p data fs0 =
     (case next_fault fs0 of
        (Some (FaultBefore msg), fs) \<Rightarrow> (Some (Failure msg), fs)
      | (f, fs) \<Rightarrow>
          if gm_get (tree fs) (Dir p) = None then (Some ErrNotExist, fs)
          else if gm_get (tree fs) (Dir p) \<noteq> Some FDir then (Some (Failure ''not a directory''), fs)
          else if gm_get (tree fs) p = Some FDir then (Some (Failure ''is a directory''), fs)
          else case f of
                 Some (FaultPartial n msg) \<Rightarrow>
                   (Some (Failure msg), fs\<lparr>tree := gm_set (tree fs) p (FFile (take n data))\<rparr>)
               | _ \<Rightarrow> (None, fs\<lparr>tree := gm_set (tree fs) p (FFile data)\<rparr>))"

text \<open>Renaming a regular file replaces the target in one step.\<close>

definition os_Rename :: "path \<Rightarrow> path \<Rightarrow> fsys \<Rightarrow> go_error option \<times> fsys" where
  "os_Rename old new fs0 =
     (case next_fault fs0 of
        (Some (FaultBefore msg), fs) \<Rightarrow> (Some (Failure msg), fs)
      | (Some (FaultPartial n msg), fs) \<Rightarrow> (Some (Failure msg), fs)
      | (None, fs) \<Rightarrow>
          (case gm_get (tree fs) old of
             None \<Rightarrow> (Some ErrNotExist, fs)
           | Some FDir \<Rightarrow> (Some (Failure ''is a directory''), fs)
           | Some (FFile b) \<Rightarrow>
               if gm_get (tree fs) (Dir new) = None then (Some ErrNotExist, fs)
               else if gm_get (tree fs) (Dir new) \<noteq> Some FDir then (Some (Failure ''not a directory''), fs)
               else if gm_get (tree fs) new = Some FDir then (Some (Failure ''file exists''), fs)
               else (None, fs\<lparr>tree := gm_set (gm_del (tree fs) old) new (FFile b)\<rparr>)))"

text \<open>Looking a path up: below a regular file the error is not the not-exist one.\<close>

definition resolve :: "path \<Rightarrow> (path, fnode) gomap \<Rightarrow> go_error + fnode" where
  "resolve p t =
     (if list_ex (\<lambda>q. case gm_get t q of Some (FFile b) \<Rightarrow> True | _ \<Rightarrow> False) (butlast (prefixes p))
      then Inl (Failure ''not a directory'')
      else case gm_get t p of None \<Rightarrow> Inl ErrNotExist | Some n \<Rightarrow> Inr n)"

definition fault_error :: "fault option \<Rightarrow> go_error option" where
  "fault_error f = (case f of None \<Rightarrow> None | Some (FaultBefore m) \<Rightarrow> Some (Failure m)
                     | Some (FaultPartial n m) \<Rightarrow> Some (Failure m))"

definition os_ReadFile :: "path \<Rightarrow> fsys \<Rightarrow> (go_error + bytes) \<times> fsys" where
  "os_ReadFile p fs0 =
     (let (f, fs) = next_fault fs0
      in case fault_error f of
           Some e \<Rightarrow> (Inl e, fs)
         | None \<Rightarrow> (case resolve p (tree fs) of
                      Inl e \<Rightarrow> (Inl e, fs)
                    | Inr FDir \<Rightarrow> (Inl (Failure ''is a directory''), fs)
                    | Inr (FFile b) \<Rightarrow> (Inr b, fs)))"

definition os_Stat :: "path \<Rightarrow> fsys \<Rightarrow> go_error option \<times> fsys" where
  "os_Stat p fs0 =
     (let (f, fs) = next_fault fs0
      in case fault_error f of
           Some e \<Rightarrow> (Some e, fs)
         | None \<Rightarrow> (case resolve p (tree fs) of Inl e \<Rightarrow> (Some e, fs) | Inr n \<Rightarrow> (None, fs)))"

definition os_Remove :: "path \<Rightarrow> fsys \<Rightarrow> go_error option \<times> fsys" where
  "os_Remove p fs0 =
     (let (f, fs) = next_fault fs0
      in case fault_error f of
           Some e \<Rightarrow> (Some e, fs)
         | None \<Rightarrow>
             (case resolve p (tree fs) of
                Inl e \<Rightarrow> (Some e, fs)
              | Inr n \<Rightarrow>
                  if n = FDir \<and> (p = [] \<or> list_ex (\<lambda>q. q \<noteq> [] \<and> Dir q = p) (gm_keys (tree fs)))
                  then (Some (Failure ''directory not empty''), fs)
                  else (None, fs\<lparr>tree := gm_del (tree fs) p\<rparr>)))"

section \<open>The store\<close>

record localfs =
  root :: string

definition NewLocalFS :: "string \<Rightarrow> fsys \<Rightarrow> (go_error + localfs) \<times> fsys" where
  "NewLocalFS dir fs =
     (case os_MkdirAll (Join [dir]) fs of
        (Some e, fs') \<Rightarrow> (Inl (Wrapped (''storage: creating root '' @ dir) e), fs')
      | (None, fs') \<Rightarrow> (Inr \<lparr>root = dir\<rparr>, fs'))"

definition lfs_path :: "localfs \<Rightarrow> string \<Rightarrow> path" where
  "lfs_path l chunkID =
     (if length chunkID < 2 then Join [root l, ''_short'', chunkID]
      else Join [root l, take 2 chunkID, chunkID])"

definition LocalFS_Put :: "localfs \<Rightarrow> string \<Rightarrow> bytes \<Rightarrow> fsys \<Rightarrow> go_error option \<times> fsys" where
  "LocalFS_Put l chunkID data fs =
     (let p = lfs_path l chunkID
      in case os_MkdirAll (Dir p) fs of
           (Some e, fs1) \<Rightarrow> (Some e, fs1)
         | (None, fs1) \<Rightarrow>
             (let tmp = add_suffix p ''.tmp''
              in case os_WriteFile tmp data fs1 of
                   (Some e, fs2) \<Rightarrow> (Some e, fs2)
                 | (None, fs2) \<Rightarrow> os_Rename tmp p fs2))"

definition LocalFS_Get :: "localfs \<Rightarrow> string \<Rightarrow> fsys \<Rightarrow> (go_error + bytes) \<times> fsys" where
  "LocalFS_Get l chunkID fs =
     (case os_ReadFile (lfs_path l chunkID) fs of
        (Inl e, fs') \<Rightarrow> if errors_Is e ErrNotExist then (Inl ErrNotFound, fs') else (Inl e, fs')
      | (Inr data, fs') \<Rightarrow> (Inr data, fs'))"

definition LocalFS_Has :: "localfs \<Rightarrow> string \<Rightarrow> fsys \<Rightarrow> bool \<times> fsys" where
  "LocalFS_Has l chunkID fs =
     (let (err, fs') = os_Stat (lfs_path l chunkID) fs in (err = None, fs'))"

definition LocalFS_Delete :: "localfs \<Rightarrow> string \<Rightarrow> fsys \<Rightarrow> go_error option \<times> fsys" where
  "LocalFS_Delete l chunkID fs =
     (case os_Remove (lfs_path l chunkID) fs of
        (Some e, fs') \<Rightarrow> if errors_Is e ErrNotExist then (None, fs') else (Some e, fs')
      | (None, fs') \<Rightarrow> (None, fs'))"

text \<open>
  \<^verbatim>\<open>filepath.WalkDir\<close> visits the entries under the root in lexical order and
  reads each directory it meets; the callback of \<^verbatim>\<open>List\<close> passes errors on, skips
  directories and temporary files, and collects base names.
\<close>

fun list_walk :: "path list \<Rightarrow> string list \<Rightarrow> fsys \<Rightarrow> (go_error + string list) \<times> fsys" where
  "list_walk [] ids fs = (Inr ids, fs)"
| "list_walk (p # ps) ids fs =
     (case gm_get (tree fs) p of
        Some (FFile b) \<Rightarrow>
          if Ext p = ''.tmp'' then list_walk ps ids fs
          else list_walk ps (ids @ [Base p]) fs
      | _ \<Rightarrow>
          (let (f, fs') = next_fault fs
           in case fault_error f of Some e \<Rightarrow> (Inl e, fs') | None \<Rightarrow> list_walk ps ids fs'))"

definition LocalFS_List :: "localfs \<Rightarrow> fsys \<Rightarrow> (go_error + string list) \<times> fsys" where
  "LocalFS_List l fs =
     (let r = Join [root l]
      in case os_Stat r fs of
           (Some e, fs') \<Rightarrow> (Inl e, fs')
         | (None, fs') \<Rightarrow> list_walk (sort (filter (\<lambda>q. prefix r q) (gm_keys (tree fs')))) [] fs')"

definition LocalFS :: "localfs \<Rightarrow> fsys backend" where
  "LocalFS l = \<lparr>b_Put = LocalFS_Put l, b_Get = LocalFS_Get l, b_Has = LocalFS_Has l,
     b_Delete = LocalFS_Delete l, b_List = LocalFS_List l\<rparr>"

section \<open>Chunk IDs the store can hold\<close>

text \<open>
  No separator, not a special name (nor one whose shard would be), and no temporary-file
  extension. Hexadecimal digests are of this form.
\<close>

definition ok_id :: "string \<Rightarrow> bool" where
  "ok_id c \<longleftrightarrow> c \<noteq> '''' \<and> CHR ''/'' \<notin> set c \<and> c \<noteq> ''.'' \<and> take 2 c \<noteq> ''..'' \<and> Ext_name c \<noteq> ''.tmp''"

definition shard :: "string \<Rightarrow> string" where
  "shard c = (if length c < 2 then ''_short'' else take 2 c)"

lemma Join_snoc2:
  assumes "CHR ''/'' \<notin> set s" "s \<noteq> ''''" "s \<noteq> ''.''" "s \<noteq> ''..''"
    and "CHR ''/'' \<notin> set c" "c \<noteq> ''''" "c \<noteq> ''.''" "c \<noteq> ''..''"
  shows "Join [r, s, c] = Join [r] @ [s, c]"
  using assms by (simp add: Join_def Clean_def strings_Split_free)

lemma lfs_path_ok:
  assumes "ok_id c"
  shows "lfs_path l c = Join [root l] @ [shard c, c]"
proof -
  have c: "c \<noteq> ''''" "CHR ''/'' \<notin> set c" "c \<noteq> ''.''" "c \<noteq> ''..''"
    using assms by (auto simp: ok_id_def)
  show ?thesis
  proof (cases "length c < 2")
    case True
    have "Join [root l, ''_short'', c] = Join [root l] @ [''_short'', c]"
      by (rule Join_snoc2) (use c in simp_all)
    with True show ?thesis by (simp add: lfs_path_def shard_def)
  next
    case False
    then have "length (take 2 c) = 2" by simp
    then have "take 2 c \<noteq> ''''" "take 2 c \<noteq> ''.''" by (metis list.size(3) zero_neq_numeral, force)
    then have "Join [root l, take 2 c, c] = Join [root l] @ [take 2 c, c]"
      using assms by (intro Join_snoc2) (auto simp: ok_id_def dest: in_set_takeD)
    with False show ?thesis by (simp add: lfs_path_def shard_def)
  qed
qed

lemma Ext_name_tmp [simp]: "Ext_name (c @ ''.tmp'') = ''.tmp''"
  by (simp add: Ext_name_def)

lemma ok_id_not_tmp: "ok_id c \<Longrightarrow> c \<noteq> d @ ''.tmp''"
  by (auto simp: ok_id_def)

lemma ok_id_hex: "set s \<subseteq> hex_chars \<Longrightarrow> s \<noteq> [] \<Longrightarrow> ok_id s"
proof -
  assume s: "set s \<subseteq> hex_chars" "s \<noteq> []"
  have hex: "CHR ''/'' \<notin> hex_chars" "CHR ''.'' \<notin> hex_chars" by (simp_all add: hex_chars_def)
  then have no: "CHR ''/'' \<notin> set s" "CHR ''.'' \<notin> set s" using s by auto
  then have "takeWhile (\<lambda>c. c \<noteq> CHR ''.'') (rev s) = rev s" by (simp add: takeWhile_eq_all_conv) blast
  then have "Ext_name s = []" unfolding Ext_name_def Let_def by (simp only: length_rev less_irrefl if_False)
  moreover have "take 2 s \<noteq> ''..''" "s \<noteq> ''.''" using no by (auto dest: in_set_takeD simp: in_set_takeD [of "CHR ''.''" 2])
  ultimately show "ok_id s" using s no by (simp add: ok_id_def)
qed

section \<open>The tree below the root\<close>

definition tree_inv :: "path \<Rightarrow> (path, fnode) gomap \<Rightarrow> bool" where
  "tree_inv r t \<longleftrightarrow> gm_ok t \<and> (\<forall>q \<in> set (prefixes r). gm_get t q = Some FDir) \<and>
     (\<forall>s n. gm_get t (r @ [s]) = Some n \<longrightarrow> n = FDir) \<and>
     (\<forall>s c n. gm_get t (r @ [s, c]) = Some n \<longrightarrow>
        n \<noteq> FDir \<and> gm_get t (r @ [s]) = Some FDir \<and>
        (Ext_name c \<noteq> ''.tmp'' \<longrightarrow> ok_id c \<and> s = shard c)) \<and>
     (\<forall>q. 2 < length q \<longrightarrow> gm_get t (r @ q) = None)"

definition file_at :: "(path, fnode) gomap \<Rightarrow> path \<Rightarrow> bytes option" where
  "file_at t p = (case gm_get t p of Some (FFile b) \<Rightarrow> Some b | _ \<Rightarrow> None)"

definition tree_stored :: "path \<Rightarrow> (path, fnode) gomap \<Rightarrow> string \<rightharpoonup> bytes" where
  "tree_stored r t c = (if ok_id c then file_at t (r @ [shard c, c]) else None)"

lemma tree_invD:
  assumes "tree_inv r t"
  shows "gm_ok t" and "q \<in> set (prefixes r) \<Longrightarrow> gm_get t q = Some FDir"
    and "gm_get t (r @ [s]) = Some n \<Longrightarrow> n = FDir"
    and "gm_get t (r @ [s, c]) = Some n \<Longrightarrow> n \<noteq> FDir"
    and "gm_get t (r @ [s, c]) = Some n \<Longrightarrow> gm_get t (r @ [s]) = Some FDir"
    and "gm_get t (r @ [s, c]) = Some n \<Longrightarrow> Ext_name c \<noteq> ''.tmp'' \<Longrightarrow> ok_id c \<and> s = shard c"
    and "2 < length q' \<Longrightarrow> gm_get t (r @ q') = None"
  using assms unfolding tree_inv_def by simp_all

definition add_dir :: "path \<Rightarrow> (path, fnode) gomap \<Rightarrow> (path, fnode) gomap" where
  "add_dir p t = (if gm_get t p = None then gm_set t p FDir else t)"

lemma mkdirs_dirs: "(\<forall>q \<in> set ps. gm_get t q = Some FDir) \<Longrightarrow> mkdirs (ps @ qs) t = mkdirs qs t"
  by (induction ps) auto

lemma mkdirs_shard:
  assumes "tree_inv r t"
  shows "mkdirs (prefixes (r @ [s])) t = (None, add_dir (r @ [s]) t)"
    and "snd (mkdirs (take n (prefixes (r @ [s]))) t) \<in> {t, add_dir (r @ [s]) t}"
proof -
  have dirs: "\<forall>q \<in> set (prefixes r). gm_get t q = Some FDir" using tree_invD(2) [OF assms] by blast
  show full: "mkdirs (prefixes (r @ [s])) t = (None, add_dir (r @ [s]) t)"
    using mkdirs_dirs [OF dirs, of "[r @ [s]]"] tree_invD(3) [OF assms, of s]
    by (auto simp: add_dir_def split: option.splits)
  show "snd (mkdirs (take n (prefixes (r @ [s]))) t) \<in> {t, add_dir (r @ [s]) t}"
  proof (cases "n \<le> length (prefixes r)")
    case True
    then have "\<forall>q \<in> set (take n (prefixes r)). gm_get t q = Some FDir"
      using dirs by (auto dest: in_set_takeD)
    with True mkdirs_dirs [of "take n (prefixes r)" t "[]"] show ?thesis by simp
  next
    case False
    then have "take n (prefixes (r @ [s])) = prefixes (r @ [s])" by simp
    with full show ?thesis by simp
  qed
qed

lemma add_dir_inv:
  assumes "tree_inv r t"
  shows "tree_inv r (add_dir (r @ [s]) t)" "tree_stored r (add_dir (r @ [s]) t) = tree_stored r t"
    and "gm_get (add_dir (r @ [s]) t) (r @ [s]) = Some FDir"
proof -
  show "tree_inv r (add_dir (r @ [s]) t)"
  proof (cases "gm_get t (r @ [s]) = None")
    case True
    with assms show ?thesis
      unfolding tree_inv_def add_dir_def by (simp add: gomap_simps) auto
  next
    case False
    then have "add_dir (r @ [s]) t = t" by (simp only: add_dir_def if_False)
    with assms show ?thesis by simp
  qed
  show "tree_stored r (add_dir (r @ [s]) t) = tree_stored r t"
    by (simp add: fun_eq_iff tree_stored_def file_at_def add_dir_def gomap_simps)
  show "gm_get (add_dir (r @ [s]) t) (r @ [s]) = Some FDir"
    using tree_invD(3) [OF assms, of s] by (auto simp: add_dir_def gomap_simps split: option.splits)
qed

lemma set_file_inv:
  assumes inv: "tree_inv r t" and d: "gm_get t (r @ [s]) = Some FDir"
    and c: "Ext_name c \<noteq> ''.tmp'' \<longrightarrow> ok_id c \<and> s = shard c"
  shows "tree_inv r (gm_set t (r @ [s, c]) (FFile b))"
  using inv c d unfolding tree_inv_def by (simp add: gomap_simps) auto

lemma del_file_inv:
  assumes inv: "tree_inv r t"
  shows "tree_inv r (gm_del t (r @ [s, c]))"
  using inv unfolding tree_inv_def by (simp add: gomap_simps) auto

lemma tmp_invisible:
  "tree_stored r (gm_set t (r @ [s, c @ ''.tmp'']) n) = tree_stored r t"
  "tree_stored r (gm_del t (r @ [s, c @ ''.tmp''])) = tree_stored r t"
  by (auto simp: fun_eq_iff tree_stored_def file_at_def gomap_simps dest: ok_id_not_tmp)

lemma tree_stored_set:
  "ok_id c \<Longrightarrow> tree_stored r (gm_set t (r @ [shard c, c]) (FFile b)) = (tree_stored r t)(c \<mapsto> b)"
  by (auto simp: fun_eq_iff tree_stored_def file_at_def gomap_simps)

lemma tree_stored_del:
  "ok_id c \<Longrightarrow> tree_stored r (gm_del t (r @ [shard c, c])) = (tree_stored r t)(c := None)"
  by (auto simp: fun_eq_iff tree_stored_def file_at_def gomap_simps)

section \<open>The store's invariant\<close>

definition localfs_inv :: "localfs \<Rightarrow> fsys \<Rightarrow> bool" where
  "localfs_inv l fs \<longleftrightarrow> tree_inv (Join [root l]) (tree fs)"

definition localfs_stored :: "localfs \<Rightarrow> fsys \<Rightarrow> string \<rightharpoonup> bytes" where
  "localfs_stored l fs = tree_stored (Join [root l]) (tree fs)"

definition no_faults :: "fsys \<Rightarrow> bool" where
  "no_faults fs \<longleftrightarrow> list_all (\<lambda>f. f = None) (faults fs)"

lemma next_fault_spec:
  "next_fault fs = (f, fs') \<Longrightarrow> tree fs' = tree fs \<and> (no_faults fs \<longrightarrow> f = None \<and> no_faults fs')"
  by (auto simp: next_fault_def no_faults_def split: list.splits)

lemma no_faults_tree [simp]: "no_faults (fs\<lparr>tree := t\<rparr>) = no_faults fs"
  by (simp add: no_faults_def)

lemma MkdirAll_shard:
  assumes inv: "tree_inv r (tree fs)" and m: "os_MkdirAll (r @ [s]) fs = (e, fs')"
  shows "tree_inv r (tree fs')" "tree_stored r (tree fs') = tree_stored r (tree fs)"
    and "e = None \<Longrightarrow> gm_get (tree fs') (r @ [s]) = Some FDir"
    and "no_faults fs \<Longrightarrow> e = None \<and> no_faults fs'"
proof -
  obtain f fs1 where f: "next_fault fs = (f, fs1)" by (cases "next_fault fs") auto
  note F = next_fault_spec [OF f]
  let ?t = "tree fs" and ?t' = "add_dir (r @ [s]) (tree fs)"
  have t': "tree fs' \<in> {?t, ?t'} \<and> (e = None \<longrightarrow> tree fs' = ?t')
      \<and> (no_faults fs \<longrightarrow> e = None \<and> no_faults fs')"
  proof (cases f)
    case None
    with m f F show ?thesis by (auto simp: os_MkdirAll_def mkdirs_shard(1) [OF inv] Let_def simp del: prefixes_snoc)
  next
    case (Some g)
    have part: "snd (mkdirs (take n (prefixes (r @ [s]))) ?t) \<in> {?t, ?t'}" for n
      by (rule mkdirs_shard(2) [OF inv])
    show ?thesis
    proof (cases g)
      case (FaultBefore msg)
      with Some m f F show ?thesis by (auto simp: os_MkdirAll_def)
    next
      case (FaultPartial n msg)
      with Some m f F part [of n] show ?thesis
        by (auto simp: os_MkdirAll_def simp del: prefixes_snoc)
    qed
  qed
  show "tree_inv r (tree fs')" "tree_stored r (tree fs') = tree_stored r (tree fs)"
    using t' add_dir_inv [OF inv, of s] inv by auto
  show "e = None \<Longrightarrow> gm_get (tree fs') (r @ [s]) = Some FDir"
    using t' add_dir_inv(3) [OF inv, of s] by auto
  show "no_faults fs \<Longrightarrow> e = None \<and> no_faults fs'" using t' by blast
qed

lemma WriteFile_tmp:
  assumes inv: "tree_inv r (tree fs)" and d: "gm_get (tree fs) (r @ [s]) = Some FDir"
    and w: "os_WriteFile (r @ [s, c @ ''.tmp'']) data fs = (e, fs')"
  shows "tree_inv r (tree fs')" "tree_stored r (tree fs') = tree_stored r (tree fs)"
    and "gm_get (tree fs') (r @ [s]) = Some FDir"
    and "e = None \<Longrightarrow> gm_get (tree fs') (r @ [s, c @ ''.tmp'']) = Some (FFile data)"
    and "no_faults fs \<Longrightarrow> e = None \<and> no_faults fs'"
proof -
  let ?p = "r @ [s, c @ ''.tmp'']"
  obtain f fs1 where f: "next_fault fs = (f, fs1)" by (cases "next_fault fs") auto
  note F = next_fault_spec [OF f]
  have Dir: "Dir ?p = r @ [s]" by (simp add: Dir_def butlast_append)
  have nd: "gm_get (tree fs) ?p \<noteq> Some FDir" using tree_invD(4) [OF inv] by blast
  have t': "(tree fs' = tree fs \<and> e \<noteq> None \<or> (\<exists>b. tree fs' = gm_set (tree fs) ?p (FFile b)))
      \<and> (e = None \<longrightarrow> tree fs' = gm_set (tree fs) ?p (FFile data))
      \<and> (no_faults fs \<longrightarrow> e = None \<and> no_faults fs')"
    using w f F nd d unfolding os_WriteFile_def Dir
    by (auto split: option.splits fault.splits if_splits)
  have set: "tree_inv r (gm_set (tree fs) ?p (FFile b))" for b
    by (rule set_file_inv [OF inv d]) simp
  show "tree_inv r (tree fs')" using t' set inv by auto
  show "tree_stored r (tree fs') = tree_stored r (tree fs)" using t' tmp_invisible(1) by auto
  show "gm_get (tree fs') (r @ [s]) = Some FDir" using t' d by (auto simp: gomap_simps)
  show "e = None \<Longrightarrow> gm_get (tree fs') ?p = Some (FFile data)" using t' by (simp add: gomap_simps)
  show "no_faults fs \<Longrightarrow> e = None \<and> no_faults fs'" using t' by blast
qed

lemma Rename_tmp:
  assumes inv: "tree_inv r (tree fs)" and c: "ok_id c"
    and src: "gm_get (tree fs) (r @ [shard c, c @ ''.tmp'']) = Some (FFile data)"
    and m: "os_Rename (r @ [shard c, c @ ''.tmp'']) (r @ [shard c, c]) fs = (e, fs')"
  shows "tree_inv r (tree fs')"
    and "e = None \<Longrightarrow> tree_stored r (tree fs') = (tree_stored r (tree fs))(c \<mapsto> data)"
    and "e \<noteq> None \<Longrightarrow> tree_stored r (tree fs') = tree_stored r (tree fs)"
    and "no_faults fs \<Longrightarrow> e = None \<and> no_faults fs'"
proof -
  let ?old = "r @ [shard c, c @ ''.tmp'']" and ?new = "r @ [shard c, c]"
  obtain f fs1 where f: "next_fault fs = (f, fs1)" by (cases "next_fault fs") auto
  note F = next_fault_spec [OF f]
  have Dir: "Dir ?new = r @ [shard c]" by (simp add: Dir_def butlast_append)
  have d: "gm_get (tree fs) (r @ [shard c]) = Some FDir" using tree_invD(5) [OF inv src] .
  have nd: "gm_get (tree fs) ?new \<noteq> Some FDir" using tree_invD(4) [OF inv] by blast
  let ?t = "gm_set (gm_del (tree fs) ?old) ?new (FFile data)"
  have t': "tree fs' = (if e = None then ?t else tree fs) \<and> (no_faults fs \<longrightarrow> e = None \<and> no_faults fs')"
    using m f F nd d src unfolding os_Rename_def Dir
    by (auto split: option.splits fault.splits if_splits)
  have inv1: "tree_inv r (gm_del (tree fs) ?old)" by (rule del_file_inv [OF inv])
  have "tree_inv r ?t" by (rule set_file_inv [OF inv1]) (use d c in \<open>simp_all add: gomap_simps\<close>)
  with t' inv show "tree_inv r (tree fs')" by auto
  show "e = None \<Longrightarrow> tree_stored r (tree fs') = (tree_stored r (tree fs))(c \<mapsto> data)"
    using t' by (simp add: tree_stored_set [OF c] tmp_invisible)
  show "e \<noteq> None \<Longrightarrow> tree_stored r (tree fs') = tree_stored r (tree fs)" using t' by presburger
  show "no_faults fs \<Longrightarrow> e = None \<and> no_faults fs'" using t' by blast
qed

lemma path_parts:
  assumes "ok_id c"
  shows "lfs_path l c = Join [root l] @ [shard c, c]" "Dir (lfs_path l c) = Join [root l] @ [shard c]"
    and "add_suffix (lfs_path l c) ''.tmp'' = Join [root l] @ [shard c, c @ ''.tmp'']"
  by (simp_all add: lfs_path_ok [OF assms] Dir_def add_suffix_def butlast_append)

lemma LocalFS_Put_eq:
  assumes "ok_id c"
  shows "LocalFS_Put l c data fs =
    (case os_MkdirAll (Join [root l] @ [shard c]) fs of
       (Some e, fs1) \<Rightarrow> (Some e, fs1)
     | (None, fs1) \<Rightarrow>
         (case os_WriteFile (Join [root l] @ [shard c, c @ ''.tmp'']) data fs1 of
            (Some e, fs2) \<Rightarrow> (Some e, fs2)
          | (None, fs2) \<Rightarrow> os_Rename (Join [root l] @ [shard c, c @ ''.tmp''])
                             (Join [root l] @ [shard c, c]) fs2))"
  by (simp only: LocalFS_Put_def Let_def path_parts(2) [OF assms] path_parts(3) [OF assms])
     (simp only: path_parts(1) [OF assms])

lemma LocalFS_Put_spec:
  assumes inv: "localfs_inv l fs" and c: "ok_id c" and p: "LocalFS_Put l c data fs = (e, fs')"
  shows "localfs_inv l fs'
    \<and> localfs_stored l fs' = (if e = None then (localfs_stored l fs)(c \<mapsto> data) else localfs_stored l fs)
    \<and> (no_faults fs \<longrightarrow> e = None \<and> no_faults fs')"
proof -
  let ?r = "Join [root l]"
  have inv0: "tree_inv ?r (tree fs)" using inv by (simp add: localfs_inv_def)
  obtain e1 fs1 where m: "os_MkdirAll (?r @ [shard c]) fs = (e1, fs1)"
    by (cases "os_MkdirAll (?r @ [shard c]) fs") auto
  note M = MkdirAll_shard [OF inv0 m]
  show ?thesis
  proof (cases e1)
    case (Some x)
    with p m M show ?thesis
      by (auto simp: LocalFS_Put_eq [OF c] localfs_inv_def localfs_stored_def Let_def)
  next
    case None
    let ?tmp = "?r @ [shard c, c @ ''.tmp'']"
    obtain e2 fs2 where w: "os_WriteFile ?tmp data fs1 = (e2, fs2)"
      by (cases "os_WriteFile ?tmp data fs1") auto
    note W = WriteFile_tmp [OF M(1) M(3) [OF None] w]
    show ?thesis
    proof (cases e2)
      case (Some x)
      with p m None w M W show ?thesis
        by (auto simp: LocalFS_Put_eq [OF c] localfs_inv_def localfs_stored_def Let_def)
    next
      case n2: None
      have rn: "os_Rename ?tmp (?r @ [shard c, c]) fs2 = (e, fs')"
        using p m None w n2 by (simp add: LocalFS_Put_eq [OF c] Let_def)
      note R = Rename_tmp [OF W(1) c W(4) [OF n2] rn]
      show ?thesis
        using R M W by (auto simp: localfs_inv_def localfs_stored_def)
    qed
  qed
qed

lemma resolve_chunk:
  assumes inv: "tree_inv r t"
  shows "resolve (r @ [s, c]) t =
    (case gm_get t (r @ [s, c]) of None \<Rightarrow> Inl ErrNotExist | Some n \<Rightarrow> Inr n)"
proof -
  have "butlast (prefixes (r @ [s, c])) = prefixes r @ [r @ [s]]"
    by (metis append.assoc append_Cons append_Nil butlast_snoc prefixes_snoc)
  moreover have "gm_get t q \<noteq> Some (FFile b)" if "q \<in> set (prefixes r @ [r @ [s]])" for q b
    using that tree_invD(2,3) [OF inv] by fastforce
  ultimately show ?thesis
    by (auto simp: resolve_def list_ex_iff split: option.splits fnode.splits)
qed

text \<open>The other operations on the node a chunk's path leads to.\<close>

definition at_chunk :: "localfs \<Rightarrow> fsys \<Rightarrow> string \<Rightarrow> fnode option" where
  "at_chunk l fs c = gm_get (tree fs) (Join [root l] @ [shard c, c])"

lemma at_chunk_stored:
  assumes "localfs_inv l fs" "ok_id c"
  shows "at_chunk l fs c = map_option FFile (localfs_stored l fs c)"
proof -
  have "n \<noteq> FDir" if "at_chunk l fs c = Some n" for n
    using that tree_invD(4) [of _ _ "shard c" c] assms(1) by (auto simp: localfs_inv_def at_chunk_def)
  then show ?thesis
    using assms(2) by (auto simp: localfs_stored_def tree_stored_def file_at_def at_chunk_def
        split: option.splits fnode.splits)
qed

lemma resolve_path:
  assumes "localfs_inv l fs" "ok_id c" "tree fs1 = tree fs"
  shows "resolve (lfs_path l c) (tree fs1) =
    (case localfs_stored l fs c of None \<Rightarrow> Inl ErrNotExist | Some b \<Rightarrow> Inr (FFile b))"
  using assms resolve_chunk [of "Join [root l]" "tree fs" "shard c" c] at_chunk_stored [OF assms(1,2)]
  by (auto simp: lfs_path_ok localfs_inv_def at_chunk_def split: option.splits)

lemma localfs_same_tree:
  "tree fs' = tree fs \<Longrightarrow> localfs_inv l fs' = localfs_inv l fs \<and> localfs_stored l fs' = localfs_stored l fs"
  by (simp add: localfs_inv_def localfs_stored_def)

lemma fault_error_simps [simp]:
  "fault_error None = None" "fault_error f \<noteq> Some ErrNotExist" "fault_error f \<noteq> Some ErrNotFound"
  by (auto simp: fault_error_def split: option.splits fault.splits)

lemma fault_error_cases: "fault_error f = None \<longleftrightarrow> f = None" "\<exists>m. fault_error f = Some e \<Longrightarrow> \<exists>m. e = Failure m"
  by (auto simp: fault_error_def split: option.splits fault.splits)

lemma LocalFS_Get_spec:
  assumes inv: "localfs_inv l fs" and c: "ok_id c" and g: "LocalFS_Get l c fs = (x, fs')"
  shows "tree fs' = tree fs
    \<and> (x = (case localfs_stored l fs c of None \<Rightarrow> Inl ErrNotFound | Some b \<Rightarrow> Inr b)
       \<or> (\<exists>m. x = Inl (Failure m)) \<and> \<not> no_faults fs)
    \<and> (no_faults fs \<longrightarrow> no_faults fs')"
proof -
  obtain f fs1 where f: "next_fault fs = (f, fs1)" by (cases "next_fault fs") auto
  note F = next_fault_spec [OF f]
  note R = resolve_path [OF inv c conjunct1 [OF F]]
  show ?thesis
  proof (cases f)
    case None
    with g f F R show ?thesis
      by (auto simp: LocalFS_Get_def os_ReadFile_def split: option.splits)
  next
    case (Some y)
    then obtain m where "fault_error f = Some (Failure m)"
      by (cases y) (auto simp: fault_error_def)
    with g f F Some show ?thesis
      by (auto simp: LocalFS_Get_def os_ReadFile_def)
  qed
qed

lemma LocalFS_Has_spec:
  assumes inv: "localfs_inv l fs" and c: "ok_id c" and g: "LocalFS_Has l c fs = (b, fs')"
  shows "tree fs' = tree fs \<and> (b \<longrightarrow> localfs_stored l fs c \<noteq> None)
    \<and> (no_faults fs \<longrightarrow> no_faults fs' \<and> b = (localfs_stored l fs c \<noteq> None))"
proof -
  obtain f fs1 where f: "next_fault fs = (f, fs1)" by (cases "next_fault fs") auto
  note F = next_fault_spec [OF f]
  with g f resolve_path [OF inv c conjunct1 [OF F]] show ?thesis
    by (auto simp: LocalFS_Has_def os_Stat_def fault_error_cases split: option.splits)
qed

lemma LocalFS_Delete_spec:
  assumes inv: "localfs_inv l fs" and c: "ok_id c" and g: "LocalFS_Delete l c fs = (r, fs')"
  shows "localfs_inv l fs'
    \<and> localfs_stored l fs' = (if r = None then (localfs_stored l fs)(c := None) else localfs_stored l fs)
    \<and> (no_faults fs \<longrightarrow> no_faults fs' \<and> r = None)"
proof -
  obtain f fs1 where f: "next_fault fs = (f, fs1)" by (cases "next_fault fs") auto
  note F = next_fault_spec [OF f] and S = localfs_same_tree [OF conjunct1 [OF next_fault_spec [OF f]]]
  note R = resolve_path [OF inv c conjunct1 [OF F]]
  show ?thesis
  proof (cases f)
    case (Some y)
    then obtain m where "fault_error f = Some (Failure m)"
      by (cases y) (auto simp: fault_error_def)
    with g f F Some S inv show ?thesis
      by (auto simp: LocalFS_Delete_def os_Remove_def)
  next
    case None
    show ?thesis
    proof (cases "localfs_stored l fs c")
      case none: None
      then have "(localfs_stored l fs)(c := None) = localfs_stored l fs" by (simp add: fun_upd_idem)
      with none None g f F R S inv show ?thesis
        by (auto simp: LocalFS_Delete_def os_Remove_def)
    next
      case (Some b)
      have "fs' = fs1\<lparr>tree := gm_del (tree fs) (lfs_path l c)\<rparr>" "r = None"
        using Some None g f F R by (auto simp: LocalFS_Delete_def os_Remove_def)
      with inv F show ?thesis
        by (simp add: localfs_inv_def localfs_stored_def lfs_path_ok [OF c] del_file_inv
            tree_stored_del [OF c])
    qed
  qed
qed

lemma list_walk_spec:
  "list_walk ps ids fs = (y, fs') \<Longrightarrow> tree fs' = tree fs
    \<and> (\<forall>out. y = Inr out \<longrightarrow> out = ids @ map Base (filter (\<lambda>p. file_at (tree fs) p \<noteq> None \<and> Ext p \<noteq> ''.tmp'') ps))
    \<and> (no_faults fs \<longrightarrow> no_faults fs' \<and> (\<exists>out. y = Inr out))"
proof (induction ps arbitrary: ids fs)
  case (Cons p ps)
  show ?case
  proof (cases "file_at (tree fs) p")
    case (Some b)
    then have "gm_get (tree fs) p = Some (FFile b)"
      by (auto simp: file_at_def split: option.splits fnode.splits)
    with Cons.prems Cons.IH [of "if Ext p = ''.tmp'' then ids else ids @ [Base p]" fs] Some
    show ?thesis by (auto split: if_splits)
  next
    case None
    obtain f fs1 where f: "next_fault fs = (f, fs1)" by (cases "next_fault fs") auto
    note F = next_fault_spec [OF f]
    from None have "list_walk (p # ps) ids fs
        = (case fault_error f of Some e \<Rightarrow> (Inl e, fs1) | None \<Rightarrow> list_walk ps ids fs1)"
      using f by (auto simp: file_at_def split: option.splits fnode.splits)
    with Cons.prems Cons.IH [of ids fs1] F None show ?thesis
      by (cases "fault_error f") (auto simp: fault_error_cases)
  qed
qed auto

lemma visible_file:
  assumes inv: "tree_inv r t" and "prefix r p" and "file_at t p = Some b" and "Ext p \<noteq> ''.tmp''"
  shows "ok_id (Base p) \<and> p = r @ [shard (Base p), Base p]"
proof -
  obtain q where p: "p = r @ q" using assms(2) by (auto simp: prefix_def)
  have g: "gm_get t (r @ q) = Some (FFile b)"
    using assms(3) p by (auto simp: file_at_def split: option.splits fnode.splits)
  have "length q = 2"
  proof (rule ccontr)
    assume "length q \<noteq> 2"
    then consider "q = []" | s where "q = [s]" | "2 < length q"
      by (cases q rule: list.exhaust; cases "tl q") auto
    then show False
      using g tree_invD(2) [OF inv, of r] tree_invD(3) [OF inv] tree_invD(7) [OF inv, of q]
      by cases auto
  qed
  then obtain s c where q: "q = [s, c]" by (auto simp: numeral_2_eq_2 length_Suc_conv)
  then show ?thesis
    using tree_invD(6) [OF inv, of s c] g assms(4) p by (simp add: Ext_def Base_def)
qed

lemma stored_visible:
  assumes "tree_stored r t c = Some b"
  shows "ok_id c" "file_at t (r @ [shard c, c]) = Some b" "Ext (r @ [shard c, c]) \<noteq> ''.tmp''"
  using assms by (auto simp: tree_stored_def Ext_def ok_id_def split: if_splits)

lemma file_at_key: "file_at t p \<noteq> None \<Longrightarrow> p \<in> set (gm_keys t)"
  by (auto simp: file_at_def gm_keys_dom split: option.splits)

lemma LocalFS_List_spec:
  assumes inv: "localfs_inv l fs" and g: "LocalFS_List l fs = (y, fs')"
  shows "tree fs' = tree fs
    \<and> (\<forall>ids. y = Inr ids \<longrightarrow> set ids = dom (localfs_stored l fs) \<and> distinct ids)
    \<and> (no_faults fs \<longrightarrow> no_faults fs' \<and> (\<exists>ids. y = Inr ids))"
proof -
  let ?r = "Join [root l]" and ?t = "tree fs"
  have tinv: "tree_inv ?r ?t" using inv by (simp add: localfs_inv_def)
  obtain f fs1 where f: "next_fault fs = (f, fs1)" by (cases "next_fault fs") auto
  note F = next_fault_spec [OF f]
  have "gm_get ?t q \<noteq> Some (FFile b)" if "q \<in> set (butlast (prefixes ?r))" for q b
    using tree_invD(2) [OF tinv, of q] that by (auto dest: in_set_butlastD)
  moreover have "gm_get ?t ?r = Some FDir" using tree_invD(2) [OF tinv] by simp
  ultimately have R: "resolve ?r (tree fs1) = Inr FDir"
    using F by (auto simp: resolve_def list_ex_iff split: option.splits fnode.splits)
  let ?ps = "sort (filter (\<lambda>q. prefix ?r q) (gm_keys (tree fs1)))"
  let ?vis = "filter (\<lambda>p. file_at ?t p \<noteq> None \<and> Ext p \<noteq> ''.tmp'') ?ps"
  have mem: "p \<in> set ?vis \<longleftrightarrow> ok_id (Base p) \<and> p = ?r @ [shard (Base p), Base p] \<and> file_at ?t p \<noteq> None
      \<and> Ext p \<noteq> ''.tmp''" for p
    using visible_file [OF tinv, of p] file_at_key [of ?t p] F by (auto simp: prefix_def)
  have "set (map Base ?vis) = dom (tree_stored ?r ?t)"
  proof (intro set_eqI iffI)
    fix c assume "c \<in> set (map Base ?vis)"
    then obtain p where "p \<in> set ?vis" "c = Base p" by auto
    with mem [of p] show "c \<in> dom (tree_stored ?r ?t)" by (auto simp: tree_stored_def)
  next
    fix c assume "c \<in> dom (tree_stored ?r ?t)"
    then obtain b where "tree_stored ?r ?t c = Some b" by auto
    from stored_visible [OF this] mem [of "?r @ [shard c, c]"]
    have "?r @ [shard c, c] \<in> set ?vis" by (simp add: Base_def)
    then show "c \<in> set (map Base ?vis)" by (force simp: Base_def intro: image_eqI [rotated])
  qed
  moreover have "distinct (map Base ?vis)"
  proof (subst distinct_map, intro conjI inj_onI)
    show "distinct ?vis" using distinct_gm_keys [OF tree_invD(1) [OF tinv]] F by simp
    fix p q assume "p \<in> set ?vis" "q \<in> set ?vis" "Base p = Base q"
    with mem [of p] mem [of q] show "p = q" by metis
  qed
  moreover have eq: "LocalFS_List l fs = (case fault_error f of Some e \<Rightarrow> (Inl e, fs1) | None \<Rightarrow> list_walk ?ps [] fs1)"
    using f R by (cases "fault_error f") (auto simp: LocalFS_List_def os_Stat_def Let_def)
  ultimately show ?thesis
    using g F list_walk_spec [of ?ps "[]" fs1 y fs']
    by (cases "fault_error f") (auto simp: fault_error_cases localfs_stored_def)
qed

lemma LocalFS_ops [simp]:
  "b_Put (LocalFS l) = LocalFS_Put l" "b_Get (LocalFS l) = LocalFS_Get l" "b_Has (LocalFS l) = LocalFS_Has l"
  "b_Delete (LocalFS l) = LocalFS_Delete l" "b_List (LocalFS l) = LocalFS_List l"
  by (simp_all add: LocalFS_def)

interpretation lfs: backend_spec "LocalFS l" "localfs_inv l" ok_id "localfs_stored l" no_faults for l
proof (unfold_locales, unfold LocalFS_ops, goal_cases)
  case 1 then show ?case by (auto dest: LocalFS_Put_spec)
next
  case 2 then show ?case by (auto dest: LocalFS_Put_spec)
next
  case 3 then show ?case by (auto dest: LocalFS_Put_spec)
next
  case 4 then show ?case by (auto dest: LocalFS_Put_spec)
next
  case 5 then show ?case by (metis LocalFS_Get_spec localfs_same_tree)
next
  case 6 then show ?case by (auto dest!: LocalFS_Get_spec split: option.splits)
next
  case 7 then show ?case by (auto dest!: LocalFS_Get_spec split: option.splits)
next
  case 8 then show ?case by (auto dest!: LocalFS_Get_spec)
next
  case 9 then show ?case by (metis LocalFS_Has_spec localfs_same_tree)
next
  case 10 then show ?case by (auto dest!: LocalFS_Has_spec)
next
  case 11 then show ?case by (auto dest: LocalFS_Delete_spec)
next
  case 12 then show ?case by (auto dest: LocalFS_Delete_spec)
next
  case 13 then show ?case by (auto dest: LocalFS_Delete_spec)
next
  case 14 then show ?case by (auto dest: LocalFS_Delete_spec)
next
  case 15 then show ?case by (metis LocalFS_List_spec localfs_same_tree)
next
  case 16 then show ?case by (auto dest!: LocalFS_List_spec)
next
  case 17 then show ?case by (auto dest!: LocalFS_List_spec)
next
  case 18 then show ?case by (auto simp: localfs_stored_def tree_stored_def split: if_splits)
qed

section \<open>Put as a sequence of system calls\<close>

text \<open>
  The calls \<^verbatim>\<open>Put\<close> makes, to speak about a crash between two of them and about
  two \<^verbatim>\<open>Put\<close>s running at once.
\<close>

datatype syscall = SMkdirAll path | SWriteFile path bytes | SRename path path

fun exec_syscall :: "syscall \<Rightarrow> fsys \<Rightarrow> go_error option \<times> fsys" where
  "exec_syscall (SMkdirAll p) fs = os_MkdirAll p fs"
| "exec_syscall (SWriteFile p d) fs = os_WriteFile p d fs"
| "exec_syscall (SRename p q) fs = os_Rename p q fs"

fun run_syscalls :: "syscall list \<Rightarrow> fsys \<Rightarrow> go_error option \<times> fsys" where
  "run_syscalls [] fs = (None, fs)"
| "run_syscalls (k # ks) fs =
     (case exec_syscall k fs of (Some e, fs') \<Rightarrow> (Some e, fs') | (None, fs') \<Rightarrow> run_syscalls ks fs')"

definition put_calls :: "localfs \<Rightarrow> string \<Rightarrow> bytes \<Rightarrow> syscall list" where
  "put_calls l c d =
     (let p = lfs_path l c; tmp = add_suffix p ''.tmp''
      in [SMkdirAll (Dir p), SWriteFile tmp d, SRename tmp p])"

lemma LocalFS_Put_calls: "LocalFS_Put l c d fs = run_syscalls (put_calls l c d) fs"
  by (simp add: LocalFS_Put_def put_calls_def Let_def split: prod.splits option.splits)

lemma put_calls_ok:
  assumes "ok_id c"
  shows "put_calls l c d =
    [SMkdirAll (Join [root l] @ [shard c]),
     SWriteFile (Join [root l] @ [shard c, c @ ''.tmp'']) d,
     SRename (Join [root l] @ [shard c, c @ ''.tmp'']) (Join [root l] @ [shard c, c])]"
  by (simp only: put_calls_def Let_def path_parts(2) [OF assms] path_parts(3) [OF assms])
     (simp only: path_parts(1) [OF assms])

lemma run_first_two:
  assumes inv: "localfs_inv l fs" and c: "ok_id c" and "k \<le> 2"
    and run: "run_syscalls (take k (put_calls l c d)) fs = (e, fs')"
  shows "localfs_inv l fs' \<and> localfs_stored l fs' = localfs_stored l fs"
proof -
  let ?r = "Join [root l]"
  have inv0: "tree_inv ?r (tree fs)" using inv by (simp add: localfs_inv_def)
  obtain e1 fs1 where m: "os_MkdirAll (?r @ [shard c]) fs = (e1, fs1)"
    by (cases "os_MkdirAll (?r @ [shard c]) fs") auto
  note M = MkdirAll_shard [OF inv0 m]
  obtain e2 fs2 where w: "os_WriteFile (?r @ [shard c, c @ ''.tmp'']) d fs1 = (e2, fs2)"
    by (cases "os_WriteFile (?r @ [shard c, c @ ''.tmp'']) d fs1") auto
  from \<open>k \<le> 2\<close> consider "k = 0" | "k = 1" | "k = 2" by linarith
  then show ?thesis
  proof cases
    case 1
    with run inv show ?thesis by simp
  next
    case 2
    with run m M show ?thesis
      by (auto simp: put_calls_ok [OF c] localfs_inv_def localfs_stored_def split: option.splits)
  next
    case 3
    with run m w M WriteFile_tmp(1,2) [OF M(1) M(3) w] show ?thesis
      by (auto simp: put_calls_ok [OF c] localfs_inv_def localfs_stored_def numeral_2_eq_2
          split: option.splits)
  qed
qed

text \<open>
  Two processes running their calls in the order a schedule picks (\<open>True\<close>: the first); a
  process that has failed or finished ignores its turns.
\<close>

type_synonym process = "syscall list \<times> go_error option"

fun proc_step :: "process \<Rightarrow> fsys \<Rightarrow> process \<times> fsys" where
  "proc_step (k # ks, None) fs = (let (e, fs') = exec_syscall k fs in ((ks, e), fs'))"
| "proc_step p fs = (p, fs)"

fun run_two :: "bool list \<Rightarrow> process \<Rightarrow> process \<Rightarrow> fsys \<Rightarrow> process \<times> process \<times> fsys" where
  "run_two [] p q fs = (p, q, fs)"
| "run_two (True # sch) p q fs = (let (p', fs') = proc_step p fs in run_two sch p' q fs')"
| "run_two (False # sch) p q fs = (let (q', fs') = proc_step q fs in run_two sch p q' fs')"

section \<open>Copying between the stores of two nodes\<close>

interpretation lfs_copy: two_backends "LocalFS l" "localfs_inv l" ok_id "localfs_stored l" no_faults
    "LocalFS l'" "localfs_inv l'" ok_id "localfs_stored l'" no_faults for l l'
  by unfold_locales simp

text \<open>A fresh store for the witnesses: the root directory and nothing below it.\<close>

definition sample_localfs :: localfs where
  "sample_localfs = \<lparr>root = ''/data''\<rparr>"

definition sample_fs :: fsys where
  "sample_fs = \<lparr>tree = [([], FDir), ([''data''], FDir)], faults = []\<rparr>"

lemma sample_fs_inv: "localfs_inv sample_localfs sample_fs" "no_faults sample_fs"
proof -
  have j: "Join [''/data''] = [''data'']" by (simp add: Join_def Clean_def)
  have k: "gm_get (tree sample_fs) p = None" if "2 \<le> length p" for p
    using that by (auto simp: sample_fs_def gm_get_def)
  show "localfs_inv sample_localfs sample_fs"
    unfolding localfs_inv_def sample_localfs_def tree_inv_def
    by (simp add: j k) (auto simp: sample_fs_def gm_get_def gm_ok_def)
  show "no_faults sample_fs" by (simp add: no_faults_def sample_fs_def)
qed

end
