(* ===== verification/LocalFSProperties.thy ===== *)
theory LocalFSProperties
  imports LocalFS
begin

text \<open>
  What the file-system store promises, and where it does not keep its promise: round trips and
  independence of chunks, all-or-nothing writes under any failure script and after a crash,
  exact listings, recovery copies, and two defects (chunk IDs that leave the root directory, two
  writers of one chunk).
\<close>

section \<open>Round trips\<close>

text \<open>
  C31. On a store without environment failures a Put succeeds, and then Get returns the bytes
  that were put, Has answers true, every other chunk reads as before, and after a Delete the
  chunk is reported not found; deleting an absent chunk is no error.
\<close>

theorem LocalFS_put_get_delete:
  assumes "localfs_inv l fs" and "no_faults fs" and "ok_id c" and "ok_id c'" and "c' \<noteq> c"
    and "LocalFS_Put l c d fs = (e, fs1)"
  shows "e = None \<and> fst (LocalFS_Get l c fs1) = Inr d \<and> fst (LocalFS_Has l c fs1)
    \<and> fst (LocalFS_Get l c' fs1) = fst (LocalFS_Get l c' fs)
    \<and> fst (LocalFS_Delete l c fs1) = None
    \<and> fst (LocalFS_Get l c (snd (LocalFS_Delete l c fs1))) = Inl ErrNotFound
    \<and> fst (LocalFS_Delete l c (snd (LocalFS_Delete l c fs1))) = None"
proof -
  note P = LocalFS_Put_spec [OF assms(1,3,6)]
  then have e: "e = None" and nf: "no_faults fs1" and i1: "localfs_inv l fs1"
    and st: "localfs_stored l fs1 = (localfs_stored l fs)(c \<mapsto> d)" using assms(2) by auto
  have get: "fst (LocalFS_Get l k f) = (case localfs_stored l f k of None \<Rightarrow> Inl ErrNotFound | Some b \<Rightarrow> Inr b)"
    if "localfs_inv l f" "ok_id k" "no_faults f" for k f
    using LocalFS_Get_spec [OF that(1,2), of "fst (LocalFS_Get l k f)" "snd (LocalFS_Get l k f)"] that(3) by simp
  note D = LocalFS_Delete_spec [OF i1 assms(3) prod.collapse [symmetric]]
  note D2 = LocalFS_Delete_spec [OF conjunct1 [OF D] assms(3) prod.collapse [symmetric]]
  show ?thesis
    using e st nf get [OF i1 assms(3) nf] get [OF i1 assms(4) nf] get [OF assms(1,4,2)] D D2 assms(5)
      get [OF conjunct1 [OF D] assms(3)]
      LocalFS_Has_spec [OF i1 assms(3) prod.collapse [symmetric]]
    by simp
qed

lemma LocalFS_put_get_delete_witness:
  "fst (LocalFS_Get sample_localfs ''abcd'' (snd (LocalFS_Put sample_localfs ''abcd'' [1, 2] sample_fs))) = Inr [1, 2]"
proof -
  have "ok_id ''abcd''" "ok_id ''ef''" by (simp_all add: ok_id_def Ext_name_def)
  then show ?thesis
    using LocalFS_put_get_delete [OF sample_fs_inv, of "''abcd''" "''ef''" _ "fst (LocalFS_Put sample_localfs ''abcd'' [1, 2] sample_fs)"
      "snd (LocalFS_Put sample_localfs ''abcd'' [1, 2] sample_fs)"] by (simp del: List.take_Cons)
qed

section \<open>Atomic writes\<close>

text \<open>
  C16. Put is all or nothing. Whatever failures the operating system injects, a Put that returns
  an error leaves every chunk as it was and one that returns no error changes that chunk alone;
  and a process that crashes after any number of Put's system calls leaves either the old
  content or the new one, never a part of it. The invariant of the directory tree survives.
\<close>

theorem LocalFS_Put_atomic:
  assumes "localfs_inv l fs" and "ok_id c"
    and "LocalFS_Put l c d fs = (e, fs')"
    and "run_syscalls (take k (put_calls l c d)) fs = (e2, crashed)"
  shows "localfs_inv l fs' \<and> localfs_inv l crashed
    \<and> localfs_stored l fs' = (if e = None then (localfs_stored l fs)(c \<mapsto> d) else localfs_stored l fs)
    \<and> localfs_stored l crashed \<in> {localfs_stored l fs, (localfs_stored l fs)(c \<mapsto> d)}"
proof (cases "k \<le> 2")
  case True
  with LocalFS_Put_spec [OF assms(1-3)] run_first_two [OF assms(1,2) _ assms(4)] show ?thesis by blast
next
  case False
  then have "take k (put_calls l c d) = put_calls l c d" by (simp add: put_calls_def Let_def)
  with assms(3,4) LocalFS_Put_calls [of l c d fs] have "fs' = crashed" by simp
  with LocalFS_Put_spec [OF assms(1-3)] show ?thesis by (cases e) auto
qed

lemma LocalFS_Put_atomic_witness:
  "localfs_stored sample_localfs
     (snd (LocalFS_Put sample_localfs ''abcd'' [1, 2] (sample_fs\<lparr>faults := [None, Some (FaultPartial 1 ''disk full'')]\<rparr>)))
   \<in> {localfs_stored sample_localfs sample_fs, (localfs_stored sample_localfs sample_fs)(''abcd'' \<mapsto> [1, 2])}"
proof -
  let ?f = "sample_fs\<lparr>faults := [None, Some (FaultPartial 1 ''disk full'')]\<rparr>"
  have "ok_id ''abcd''" by (simp add: ok_id_def Ext_name_def)
  moreover have "localfs_inv sample_localfs ?f" "localfs_stored sample_localfs ?f = localfs_stored sample_localfs sample_fs"
    using sample_fs_inv(1) by (simp_all add: localfs_inv_def localfs_stored_def)
  ultimately show ?thesis
    using LocalFS_Put_atomic [of sample_localfs ?f "''abcd''" "[1, 2]" _ _ 3, OF _ _ prod.collapse [symmetric] prod.collapse [symmetric]]
    by auto
qed

section \<open>Listings and recovery copies\<close>

text \<open>
  List is exact: when it returns without error, its IDs are those of the chunks the store
  holds, each once, temporary files of unfinished writes left out; it fails only when the
  environment does.
\<close>

lemma LocalFS_List_exact:
  assumes "localfs_inv l fs" and "LocalFS_List l fs = (y, fs')"
  shows "(\<forall>ids. y = Inr ids \<longrightarrow> distinct ids \<and> (\<forall>c. c \<in> set ids \<longleftrightarrow> localfs_stored l fs c \<noteq> None))
    \<and> (\<forall>e. y = Inl e \<longrightarrow> \<not> no_faults fs) \<and> localfs_stored l fs' = localfs_stored l fs"
  using lfs.list_ok [OF assms(1)] lfs.list_inv [OF assms(1)] lfs.list_reliable [OF assms(1)] assms(2)
  by (cases y) (auto simp: dom_def)

lemma LocalFS_List_exact_witness:
  "\<exists>ids. fst (LocalFS_List sample_localfs (snd (LocalFS_Put sample_localfs ''abcd'' [1] sample_fs))) = Inr ids
     \<and> set ids = {''abcd''}"
proof -
  let ?fs = "snd (LocalFS_Put sample_localfs ''abcd'' [1] sample_fs)"
  have ok: "ok_id ''abcd''" by (simp add: ok_id_def Ext_name_def)
  note P = LocalFS_Put_spec [OF sample_fs_inv(1) ok prod.collapse [symmetric], of "[1]"]
  have "localfs_stored sample_localfs sample_fs = Map.empty"
    by (auto simp: fun_eq_iff localfs_stored_def tree_stored_def file_at_def sample_fs_def gm_get_def
        sample_localfs_def Join_def Clean_def)
  with P sample_fs_inv(2) have "localfs_inv sample_localfs ?fs" "no_faults ?fs"
    "localfs_stored sample_localfs ?fs = [''abcd'' \<mapsto> [1]]" by simp_all
  with LocalFS_List_exact [of sample_localfs ?fs, OF _ prod.collapse [symmetric]] show ?thesis
    by (cases "fst (LocalFS_List sample_localfs ?fs)") (auto split: if_splits)
qed

text \<open>
  C33. Copy rebuilds a store. When it returns without error the destination holds every chunk of
  the source on top of what it had; when it stops at an error the destination still only has
  chunks of its own or of the source, unaltered; the source is unchanged; and it returns an
  error only when the environment of one of the two stores fails.
\<close>

theorem Copy_rebuilds_store:
  assumes "localfs_inv l fs" and "localfs_inv l' fs'"
    and "Copy (LocalFS l') (LocalFS l) (fs', fs) = (r, (fs1', fs1))"
  shows "localfs_inv l' fs1' \<and> localfs_stored l fs1 = localfs_stored l fs
    \<and> (r = None \<longrightarrow> localfs_stored l' fs1' = localfs_stored l' fs' ++ localfs_stored l fs)
    \<and> (\<forall>c. localfs_stored l' fs1' c \<in> {localfs_stored l' fs' c, localfs_stored l fs c})
    \<and> (no_faults fs \<and> no_faults fs' \<longrightarrow> r = None)"
  using lfs_copy.Copy_spec [OF assms] by auto

lemma Copy_rebuilds_store_witness:
  "localfs_stored sample_localfs
     (fst (snd (Copy (LocalFS sample_localfs) (LocalFS sample_localfs)
        (sample_fs, snd (LocalFS_Put sample_localfs ''abcd'' [7] sample_fs))))) ''abcd'' = Some [7]"
proof -
  let ?fs = "snd (LocalFS_Put sample_localfs ''abcd'' [7] sample_fs)"
  let ?run = "Copy (LocalFS sample_localfs) (LocalFS sample_localfs) (sample_fs, ?fs)"
  have ok: "ok_id ''abcd''" by (simp add: ok_id_def Ext_name_def)
  note P = LocalFS_Put_spec [OF sample_fs_inv(1) ok prod.collapse [symmetric], of "[7]"]
  obtain r a b where run: "?run = (r, (a, b))" by (metis prod.exhaust)
  from Copy_rebuilds_store [OF _ sample_fs_inv(1) run] P sample_fs_inv(2) run show ?thesis
    by (simp add: map_add_def)
qed

section \<open>Chunk IDs that leave the root\<close>

text \<open>
  An ID made of enough parent steps and the components of a path: the store's
  \<^verbatim>\<open>path\<close> turns it into that path.
\<close>

fun join_slash :: "string list \<Rightarrow> string" where
  "join_slash [] = []"
| "join_slash [s] = s"
| "join_slash (s # t # ss) = s @ CHR ''/'' # join_slash (t # ss)"

definition escape_id :: "localfs \<Rightarrow> path \<Rightarrow> string" where
  "escape_id l p = join_slash (replicate (length (split_slash (root l))) ''..'' @ p)"

definition ordinary :: "string \<Rightarrow> bool" where
  "ordinary s \<longleftrightarrow> CHR ''/'' \<notin> set s \<and> s \<notin> {'''', ''.'', ''..''}"

lemma split_join_slash:
  "ss \<noteq> [] \<Longrightarrow> \<forall>s \<in> set ss. CHR ''/'' \<notin> set s \<Longrightarrow> split_slash (join_slash ss) = ss"
  by (induction ss rule: join_slash.induct) (auto simp: strings_Split_free strings_Split_append)

lemma length_foldl_clean: "length (foldl clean_step st cs) \<le> length st + length cs"
proof (induction cs arbitrary: st)
  case (Cons c cs)
  have "length (clean_step st c) \<le> Suc (length st)" by auto
  with Cons [of "clean_step st c"] show ?case by simp
qed simp

lemma foldl_clean_parents: "length st \<le> n \<Longrightarrow> foldl clean_step st (replicate n ''..'') = []"
proof (induction n arbitrary: st)
  case (Suc n)
  have "length (clean_step st ''..'') \<le> n" using Suc.prems by simp
  with Suc.IH show ?case by simp
qed simp

lemma foldl_clean_ordinary: "\<forall>s \<in> set p. ordinary s \<Longrightarrow> foldl clean_step st p = st @ p"
  by (induction p arbitrary: st) (auto simp: ordinary_def)

lemma escape_id_take:
  assumes "p \<noteq> []"
  shows "\<not> length (escape_id l p) < 2" and "take 2 (escape_id l p) = ''..''"
proof -
  obtain m where n: "length (split_slash (root l)) = Suc m"
    using strings_Split_nonempty [of "CHR ''/''" "root l"] by (cases "length (split_slash (root l))") auto
  show "\<not> length (escape_id l p) < 2" "take 2 (escape_id l p) = ''..''"
    unfolding escape_id_def n using assms by (cases "replicate m ''..'' @ p"; simp)+
qed

lemma lfs_path_escape:
  assumes "p \<noteq> []" and "\<forall>s \<in> set p. ordinary s"
  shows "lfs_path l (escape_id l p) = p"
proof -
  let ?n = "length (split_slash (root l))"
  let ?ups = "replicate ?n ''..''"
  note len = escape_id_take(1) [OF assms(1)] and two = escape_id_take(2) [OF assms(1)]
  have split: "split_slash (escape_id l p) = ?ups @ p"
    unfolding escape_id_def
  proof (rule split_join_slash)
    show "?ups @ p \<noteq> []" using assms(1) by simp
    show "\<forall>s \<in> set (?ups @ p). CHR ''/'' \<notin> set s"
    proof
      fix s assume "s \<in> set (?ups @ p)"
      then have "s = ''..'' \<or> s \<in> set p" by (metis Un_iff in_set_replicate set_append)
      then show "CHR ''/'' \<notin> set s" using assms(2) by (elim disjE) (simp, simp add: ordinary_def)
    qed
  qed
  have "foldl clean_step [] (split_slash (root l) @ ''..'' # ?ups @ p)
      = foldl clean_step (foldl clean_step (foldl clean_step [] (split_slash (root l))) (replicate (Suc ?n) ''..'')) p"
    by simp
  also have "\<dots> = foldl clean_step [] p"
    using length_foldl_clean [of "[]" "split_slash (root l)"] by (subst foldl_clean_parents) simp_all
  also have "\<dots> = p" using foldl_clean_ordinary [OF assms(2), of "[]"] by simp
  finally have cl: "foldl clean_step [] (split_slash (root l) @ ''..'' # ?ups @ p) = p" .
  have "concat (map split_slash [root l, ''..'', escape_id l p]) = split_slash (root l) @ ''..'' # ?ups @ p"
    by (simp add: split)
  then have "Join [root l, ''..'', escape_id l p] = p" unfolding Join_def Clean_def by (simp only: cl)
  then show ?thesis unfolding lfs_path_def by (simp only: len two if_False)
qed

text \<open>
  A chunk ID is not confined to the root directory: for every path outside or inside the root
  there is an ID that the store maps to exactly that path, so that Get returns the contents of
  any file the process can read, and Delete removes it.
\<close>

lemma chunk_id_escapes_root:
  assumes "p \<noteq> []" and "\<forall>s \<in> set p. ordinary s"
    and "faults fs = []" and "resolve p (tree fs) = Inr (FFile b)"
  shows "lfs_path l (escape_id l p) = p
    \<and> LocalFS_Get l (escape_id l p) fs = (Inr b, fs)
    \<and> LocalFS_Delete l (escape_id l p) fs = (None, fs\<lparr>tree := gm_del (tree fs) p\<rparr>)"
  using assms(3,4)
  by (simp add: LocalFS_Get_def LocalFS_Delete_def os_ReadFile_def os_Remove_def next_fault_def fault_error_def
      lfs_path_escape [OF assms(1,2)])

lemma chunk_id_escapes_root_witness:
  "LocalFS_Get \<lparr>root = ''/data''\<rparr> ''../../etc/passwd''
     \<lparr>tree = [([], FDir), ([''data''], FDir), ([''etc''], FDir), ([''etc'', ''passwd''], FFile [1, 2, 3])], faults = []\<rparr>
   = (Inr [1, 2, 3],
     \<lparr>tree = [([], FDir), ([''data''], FDir), ([''etc''], FDir), ([''etc'', ''passwd''], FFile [1, 2, 3])], faults = []\<rparr>)"
proof -
  let ?l = "\<lparr>root = ''/data''\<rparr>"
  have id: "escape_id ?l [''etc'', ''passwd''] = ''../../etc/passwd''"
    by (simp add: escape_id_def numeral_2_eq_2)
  show ?thesis
    by (rule chunk_id_escapes_root [of "[''etc'', ''passwd'']" _ "[1, 2, 3]" ?l, unfolded id,
          THEN conjunct2, THEN conjunct1])
       (simp_all add: ordinary_def resolve_def gm_get_def)
qed

section \<open>Two writers of one chunk\<close>

text \<open>
  Two concurrent Puts of one chunk share the name of their temporary file. In a store with no
  failing system call there is an interleaving of their calls in which one of them succeeds
  and the other one reports that a file does not exist, although the data of both is the same.
\<close>

lemma concurrent_Puts_clash:
  assumes "localfs_inv l fs" and "no_faults fs" and "ok_id c"
  shows "\<exists>sch fs'. run_two sch (put_calls l c d, None) (put_calls l c d, None) fs
           = (([], None), ([], Some ErrNotExist), fs')
         \<and> localfs_stored l fs' c = Some d"
proof -
  let ?r = "Join [root l]"
  let ?sh = "?r @ [shard c]" and ?tmp = "?r @ [shard c, c @ ''.tmp'']" and ?new = "?r @ [shard c, c]"
  have inv0: "tree_inv ?r (tree fs)" using assms(1) by (simp add: localfs_inv_def)
  obtain e1 fs1 where m1: "os_MkdirAll ?sh fs = (e1, fs1)" by (cases "os_MkdirAll ?sh fs") auto
  note M1 = MkdirAll_shard [OF inv0 m1]
  then have n1: "e1 = None" "no_faults fs1" using assms(2) by auto
  obtain e2 fs2 where m2: "os_MkdirAll ?sh fs1 = (e2, fs2)" by (cases "os_MkdirAll ?sh fs1") auto
  note M2 = MkdirAll_shard [OF M1(1) m2]
  then have n2: "e2 = None" "no_faults fs2" using n1 by auto
  obtain e3 fs3 where w3: "os_WriteFile ?tmp d fs2 = (e3, fs3)" by (cases "os_WriteFile ?tmp d fs2") auto
  note W3 = WriteFile_tmp [OF M2(1) M2(3) [OF n2(1)] w3]
  then have n3: "e3 = None" "no_faults fs3" using n2 by auto
  obtain e4 fs4 where w4: "os_WriteFile ?tmp d fs3 = (e4, fs4)" by (cases "os_WriteFile ?tmp d fs3") auto
  note W4 = WriteFile_tmp [OF W3(1) W3(3) w4]
  then have n4: "e4 = None" "no_faults fs4" using n3 by auto
  obtain e5 fs5 where r5: "os_Rename ?tmp ?new fs4 = (e5, fs5)" by (cases "os_Rename ?tmp ?new fs4") auto
  note R5 = Rename_tmp [OF W4(1) assms(3) W4(4) [OF n4(1)] r5]
  then have n5: "e5 = None" "no_faults fs5" using n4 by auto
  have gone: "gm_get (tree fs5) ?tmp = None"
    using r5 n5(1) W4(4) [OF n4(1)] assms(3)
    by (auto simp: os_Rename_def gomap_simps dest: ok_id_not_tmp split: option.splits prod.splits fault.splits if_splits
        dest!: next_fault_spec)
  obtain e6 fs6 where r6: "os_Rename ?tmp ?new fs5 = (e6, fs6)" by (cases "os_Rename ?tmp ?new fs5") auto
  have n6: "e6 = Some ErrNotExist" "tree fs6 = tree fs5"
    using r6 n5(2) gone by (auto simp: os_Rename_def split: option.splits prod.splits fault.splits if_splits dest!: next_fault_spec)
  have "localfs_stored l fs6 c = Some d"
    using R5(2) [OF n5(1)] n6(2) by (simp add: localfs_stored_def)
  moreover have "run_two [True, False, True, False, True, False] (put_calls l c d, None) (put_calls l c d, None) fs
      = (([], None), ([], Some ErrNotExist), fs6)"
    using m1 m2 w3 w4 r5 r6 n1(1) n2(1) n3(1) n4(1) n5(1) n6(1) by (simp add: put_calls_ok [OF assms(3)])
  ultimately show ?thesis by blast
qed

lemma concurrent_Puts_clash_witness:
  "\<exists>sch fs'. run_two sch (put_calls sample_localfs ''abcd'' [1], None) (put_calls sample_localfs ''abcd'' [1], None) sample_fs
     = (([], None), ([], Some ErrNotExist), fs')"
  using concurrent_Puts_clash [OF sample_fs_inv, of "''abcd''" "[1]"] by (auto simp: ok_id_def Ext_name_def)

end
