(* ===== verification/Writers.thy ===== *)
theory Writers
  imports LocalFSProperties
begin

text \<open>
  Any number of Puts of \<^verbatim>\<open>internal/storage/storage.go\<close> running at once: their system calls
  interleaved by a schedule, what the store holds at every moment, and what a partial write can do.
\<close>

section \<open>Many writers\<close>

text \<open>The schedule names the process that makes its next call.\<close>

fun run_writers :: "nat list \<Rightarrow> process list \<Rightarrow> fsys \<Rightarrow> process list \<times> fsys" where
  "run_writers [] ps fs = (ps, fs)"
| "run_writers (i # sch) ps fs =
     (if i < length ps
      then (let (p, fs') = proc_step (ps ! i) fs in run_writers sch (ps[i := p]) fs')
      else run_writers sch ps fs)"

definition writer :: "localfs \<Rightarrow> string \<times> bytes \<Rightarrow> process" where
  "writer l job = (put_calls l (fst job) (snd job), None)"

text \<open>No call stops halfway: a failing call does nothing.\<close>

definition whole_calls :: "fsys \<Rightarrow> bool" where
  "whole_calls fs \<longleftrightarrow> list_all (\<lambda>f. case f of Some (FaultPartial n m) \<Rightarrow> False | _ \<Rightarrow> True) (faults fs)"

definition consistent :: "(string \<times> bytes) list \<Rightarrow> bool" where
  "consistent jobs \<longleftrightarrow> (\<forall>(c, d) \<in> set jobs. ok_id c \<and> (\<forall>(c', d') \<in> set jobs. c' = c \<longrightarrow> d' = d))"

section \<open>The effect of each call\<close>

abbreviation shard_path :: "localfs \<Rightarrow> string \<Rightarrow> path" where
  "shard_path l c \<equiv> Join [root l] @ [shard c]"

abbreviation tmp_path :: "localfs \<Rightarrow> string \<Rightarrow> path" where
  "tmp_path l c \<equiv> Join [root l] @ [shard c, c @ ''.tmp'']"

abbreviation chunk_path :: "localfs \<Rightarrow> string \<Rightarrow> path" where
  "chunk_path l c \<equiv> Join [root l] @ [shard c, c]"

lemma whole_next:
  assumes "whole_calls fs" and "next_fault fs = (f, fs')"
  shows "whole_calls fs' \<and> tree fs' = tree fs \<and> (f = None \<or> (\<exists>m. f = Some (FaultBefore m)))"
proof (cases "faults fs")
  case Nil
  with assms show ?thesis by (simp add: next_fault_def)
next
  case (Cons g gs)
  with assms have "f = g" "fs' = fs\<lparr>faults := gs\<rparr>" "list_all (\<lambda>f. case f of Some (FaultPartial n m) \<Rightarrow> False | _ \<Rightarrow> True) gs"
    "case g of Some (FaultPartial n m) \<Rightarrow> False | _ \<Rightarrow> True"
    by (simp_all add: next_fault_def whole_calls_def)
  then show ?thesis by (cases g; cases "the g") (auto simp: whole_calls_def)
qed

lemma whole_tree [simp]: "whole_calls (fs\<lparr>tree := t\<rparr>) = whole_calls fs"
  by (simp add: whole_calls_def)

lemma mkdir_effect:
  assumes inv: "localfs_inv l fs" and whole: "whole_calls fs" and m: "os_MkdirAll (shard_path l c) fs = (e, fs')"
  shows "whole_calls fs'" and "tree fs' = (if e = None then add_dir (shard_path l c) (tree fs) else tree fs)"
proof -
  obtain f fs1 where f: "next_fault fs = (f, fs1)" by fastforce
  note F = whole_next [OF whole f]
  have "tree_inv (Join [root l]) (tree fs)" using inv by (simp add: localfs_inv_def)
  from mkdirs_shard(1) [OF this, of "shard c"] F m f
  have "whole_calls fs' \<and> tree fs' = (if e = None then add_dir (shard_path l c) (tree fs) else tree fs)"
    by (auto simp: os_MkdirAll_def Let_def simp del: prefixes_snoc)
  then show "whole_calls fs'" "tree fs' = (if e = None then add_dir (shard_path l c) (tree fs) else tree fs)" by simp_all
qed

lemma write_effect:
  assumes inv: "localfs_inv l fs" and whole: "whole_calls fs" and d: "gm_get (tree fs) (shard_path l c) = Some FDir"
    and w: "os_WriteFile (tmp_path l c) data fs = (e, fs')"
  shows "whole_calls fs'" and "tree fs' = (if e = None then gm_set (tree fs) (tmp_path l c) (FFile data) else tree fs)"
proof -
  obtain f fs1 where f: "next_fault fs = (f, fs1)" by fastforce
  note F = whole_next [OF whole f]
  have dp: "Dir (tmp_path l c) = shard_path l c" by (simp add: Dir_def butlast_append)
  have "tree_inv (Join [root l]) (tree fs)" using inv by (simp add: localfs_inv_def)
  then have nd: "gm_get (tree fs) (tmp_path l c) \<noteq> Some FDir" using tree_invD(4) by blast
  have "whole_calls fs' \<and> tree fs' = (if e = None then gm_set (tree fs) (tmp_path l c) (FFile data) else tree fs)"
    using w f F nd d unfolding os_WriteFile_def dp by (auto split: if_splits)
  then show "whole_calls fs'" "tree fs' = (if e = None then gm_set (tree fs) (tmp_path l c) (FFile data) else tree fs)" by simp_all
qed

lemma rename_effect:
  assumes inv: "localfs_inv l fs" and whole: "whole_calls fs"
    and m: "os_Rename (tmp_path l c) (chunk_path l c) fs = (e, fs')"
  shows "whole_calls fs'"
    and "e \<noteq> None \<Longrightarrow> tree fs' = tree fs"
    and "e = None \<Longrightarrow> \<exists>b. gm_get (tree fs) (tmp_path l c) = Some (FFile b)
           \<and> tree fs' = gm_set (gm_del (tree fs) (tmp_path l c)) (chunk_path l c) (FFile b)"
    and "no_faults fs \<Longrightarrow> e \<noteq> None \<Longrightarrow> gm_get (tree fs) (tmp_path l c) = None"
proof -
  obtain f fs1 where f: "next_fault fs = (f, fs1)" by fastforce
  note F = whole_next [OF whole f] and N = next_fault_spec [OF f]
  have dp: "Dir (chunk_path l c) = shard_path l c" by (simp add: Dir_def butlast_append)
  have ti: "tree_inv (Join [root l]) (tree fs)" using inv by (simp add: localfs_inv_def)
  have nd: "gm_get (tree fs) (chunk_path l c) \<noteq> Some FDir" "gm_get (tree fs) (tmp_path l c) \<noteq> Some FDir"
    using tree_invD(4) [OF ti] by blast+
  have sh: "gm_get (tree fs) (shard_path l c) = Some FDir" if "gm_get (tree fs) (tmp_path l c) = Some n" for n
    by (rule tree_invD(5) [OF ti that])
  have "whole_calls fs' \<and> (e \<noteq> None \<longrightarrow> tree fs' = tree fs)
    \<and> (e = None \<longrightarrow> (\<exists>b. gm_get (tree fs) (tmp_path l c) = Some (FFile b)
         \<and> tree fs' = gm_set (gm_del (tree fs) (tmp_path l c)) (chunk_path l c) (FFile b)))
    \<and> (no_faults fs \<longrightarrow> e \<noteq> None \<longrightarrow> gm_get (tree fs) (tmp_path l c) = None)"
    using m f F N nd sh unfolding os_Rename_def dp
    by (auto split: option.splits fnode.splits if_splits)
  then show "whole_calls fs'" "e \<noteq> None \<Longrightarrow> tree fs' = tree fs"
    "e = None \<Longrightarrow> \<exists>b. gm_get (tree fs) (tmp_path l c) = Some (FFile b)
       \<and> tree fs' = gm_set (gm_del (tree fs) (tmp_path l c)) (chunk_path l c) (FFile b)"
    "no_faults fs \<Longrightarrow> e \<noteq> None \<Longrightarrow> gm_get (tree fs) (tmp_path l c) = None" by blast+
qed

section \<open>What one call changes\<close>

text \<open>The four things a call of the writer of \<open>d\<close> under \<open>c\<close> can do to the tree.\<close>

definition change :: "localfs \<Rightarrow> string \<Rightarrow> bytes \<Rightarrow> fsys \<Rightarrow> fsys \<Rightarrow> bool" where
  "change l c d fs fs' \<longleftrightarrow>
     tree fs' = tree fs \<or> tree fs' = add_dir (shard_path l c) (tree fs)
     \<or> gm_get (tree fs) (shard_path l c) = Some FDir \<and> tree fs' = gm_set (tree fs) (tmp_path l c) (FFile d)
     \<or> gm_get (tree fs) (tmp_path l c) = Some (FFile d)
         \<and> tree fs' = gm_set (gm_del (tree fs) (tmp_path l c)) (chunk_path l c) (FFile d)"

lemma change_store:
  assumes inv: "localfs_inv l fs" and c: "ok_id c" and ch: "change l c d fs fs'"
  shows "localfs_inv l fs'"
    and "localfs_stored l fs' = localfs_stored l fs \<or> localfs_stored l fs' = (localfs_stored l fs)(c \<mapsto> d)"
proof -
  let ?r = "Join [root l]"
  have ti: "tree_inv ?r (tree fs)" using inv by (simp add: localfs_inv_def)
  have "tree_inv ?r (tree fs') \<and> (tree_stored ?r (tree fs') = tree_stored ?r (tree fs)
      \<or> tree_stored ?r (tree fs') = (tree_stored ?r (tree fs))(c \<mapsto> d))"
    using ch unfolding change_def
  proof (elim disjE conjE)
    assume t: "gm_get (tree fs) (shard_path l c) = Some FDir" "tree fs' = gm_set (tree fs) (tmp_path l c) (FFile d)"
    then have "tree_inv ?r (tree fs')" using set_file_inv [OF ti t(1)] by simp
    with t show ?thesis by (simp add: tmp_invisible)
  next
    assume t: "gm_get (tree fs) (tmp_path l c) = Some (FFile d)"
      "tree fs' = gm_set (gm_del (tree fs) (tmp_path l c)) (chunk_path l c) (FFile d)"
    have "gm_get (gm_del (tree fs) (tmp_path l c)) (shard_path l c) = Some FDir"
      using tree_invD(5) [OF ti t(1)] by (simp add: gomap_simps)
    then have "tree_inv ?r (tree fs')" unfolding t(2) using c by (intro set_file_inv del_file_inv [OF ti]) simp_all
    with t c show ?thesis by (simp add: tree_stored_set tmp_invisible)
  qed (use ti in \<open>simp_all add: add_dir_inv\<close>)
  then show "localfs_inv l fs'"
    "localfs_stored l fs' = localfs_stored l fs \<or> localfs_stored l fs' = (localfs_stored l fs)(c \<mapsto> d)"
    by (simp_all add: localfs_inv_def localfs_stored_def)
qed

lemma change_frame:
  assumes inv: "localfs_inv l fs" and c: "ok_id c" and ch: "change l c d fs fs'"
  shows "gm_get (tree fs) (shard_path l x) = Some FDir \<Longrightarrow> gm_get (tree fs') (shard_path l x) = Some FDir"
    and "x \<noteq> c \<Longrightarrow> gm_get (tree fs') (tmp_path l x) = gm_get (tree fs) (tmp_path l x)"
    and "gm_get (tree fs') (tmp_path l c) = gm_get (tree fs) (tmp_path l c)
      \<or> gm_get (tree fs') (tmp_path l c) = Some (FFile d)
      \<or> gm_get (tree fs') (tmp_path l c) = None \<and> localfs_stored l fs' c = Some d"
proof -
  note nt = ok_id_not_tmp [OF c]
  show "gm_get (tree fs) (shard_path l x) = Some FDir \<Longrightarrow> gm_get (tree fs') (shard_path l x) = Some FDir"
    using ch by (auto simp: change_def add_dir_def gomap_simps)
  show "x \<noteq> c \<Longrightarrow> gm_get (tree fs') (tmp_path l x) = gm_get (tree fs) (tmp_path l x)"
    using ch nt [of x] by (auto simp: change_def add_dir_def gomap_simps)
  have "localfs_stored l fs' c = Some d"
    if "tree fs' = gm_set (gm_del (tree fs) (tmp_path l c)) (chunk_path l c) (FFile d)"
    using that c by (simp add: localfs_stored_def tree_stored_set)
  then show "gm_get (tree fs') (tmp_path l c) = gm_get (tree fs) (tmp_path l c)
      \<or> gm_get (tree fs') (tmp_path l c) = Some (FFile d)
      \<or> gm_get (tree fs') (tmp_path l c) = None \<and> localfs_stored l fs' c = Some d"
    using ch nt [of c] unfolding change_def
    by (elim disjE conjE) (simp_all add: add_dir_def gomap_simps)
qed

section \<open>The invariant of a run\<close>

definition wrote :: "process \<Rightarrow> bool" where
  "wrote p \<longleftrightarrow> fst p = [] \<or> length (fst p) = 1 \<and> snd p = None"

text \<open>
  A writer after \<open>k\<close> of its calls: its directory exists; once it has written, the temporary file is the
  chunk's data or has been renamed, by this writer or another one of the same chunk; when it has
  finished without error the chunk is there; with \<open>nf\<close> no call of the run fails by itself.
\<close>

definition writer_ok :: "bool \<Rightarrow> localfs \<Rightarrow> fsys \<Rightarrow> string \<times> bytes \<Rightarrow> process \<Rightarrow> bool" where
  "writer_ok nf l fs job p \<longleftrightarrow> (case job of (c, d) \<Rightarrow>
     (\<exists>k \<le> 3. fst p = drop k (put_calls l c d) \<and> (0 < k \<and> snd p = None \<longrightarrow> gm_get (tree fs) (shard_path l c) = Some FDir))
     \<and> (wrote p \<longrightarrow> gm_get (tree fs) (tmp_path l c) = Some (FFile d)
          \<or> gm_get (tree fs) (tmp_path l c) = None \<and> localfs_stored l fs c = Some d)

     \<and> (fst p = [] \<and> snd p = None \<longrightarrow> localfs_stored l fs c = Some d)
     \<and> (nf \<longrightarrow> (fst p \<noteq> [] \<longrightarrow> snd p = None) \<and> (fst p = [] \<longrightarrow> localfs_stored l fs c = Some d)))"

lemma writer_ok_change:
  assumes ok: "writer_ok nf l fs (c, d) p" and inv: "localfs_inv l fs" and c': "ok_id c'" and ch: "change l c' d' fs fs'"
    and same: "c' = c \<Longrightarrow> d' = d"
  shows "writer_ok nf l fs' (c, d) p"
proof -
  note F = change_frame [OF inv c' ch] and S = change_store [OF inv c' ch]
  have st: "localfs_stored l fs c = Some d \<Longrightarrow> localfs_stored l fs' c = Some d" using S(2) same by auto
  let ?tmp = "\<lambda>fs. gm_get (tree fs) (tmp_path l c)"
  have "?tmp fs' = Some (FFile d) \<or> ?tmp fs' = None \<and> localfs_stored l fs' c = Some d"
    if "?tmp fs = Some (FFile d) \<or> ?tmp fs = None \<and> localfs_stored l fs c = Some d"
  proof (cases "c' = c")
    case True
    with F(3) same that st show ?thesis by fastforce
  next
    case False
    with F(2) [of c] that st show ?thesis by auto
  qed
  with ok F(1) [of c] st show ?thesis unfolding writer_ok_def prod.case by meson
qed

lemma writer_step:
  assumes inv: "localfs_inv l fs" and whole: "whole_calls fs" and c: "ok_id c" and ok: "writer_ok nf l fs (c, d) p"
    and nf: "nf \<longrightarrow> no_faults fs" and step: "proc_step p fs = (p', fs')"
  shows "whole_calls fs' \<and> (nf \<longrightarrow> no_faults fs') \<and> change l c d fs fs' \<and> writer_ok nf l fs' (c, d) p'"
proof (cases "fst p = [] \<or> snd p \<noteq> None")
  case True
  then have "proc_step p fs = (p, fs)" by (cases p rule: prod.exhaust; cases "fst p"; cases "snd p") auto
  with assms show ?thesis by (simp add: change_def)
next
  case False
  let ?mk = "SMkdirAll (shard_path l c)" and ?wr = "SWriteFile (tmp_path l c) d" and ?rn = "SRename (tmp_path l c) (chunk_path l c)"
  note calls = put_calls_ok [OF c, of l d]
  have ti: "tree_inv (Join [root l]) (tree fs)" using inv by (simp add: localfs_inv_def)
  from ok obtain k where k: "k \<le> 3" "fst p = drop k (put_calls l c d)"
    "0 < k \<longrightarrow> gm_get (tree fs) (shard_path l c) = Some FDir" using False by (auto simp: writer_ok_def)
  with False have "k < 3" by (simp add: calls)
  then consider "k = 0" | "k = 1" | "k = 2" by linarith
  then show ?thesis
  proof cases
    case 1
    with False k have p: "p = ([?mk, ?wr, ?rn], None)" by (cases p) (simp add: calls)
    obtain e where m: "os_MkdirAll (shard_path l c) fs = (e, fs')" "p' = ([?wr, ?rn], e)" using step p by (auto split: prod.splits)
    note E = mkdir_effect [OF inv whole m(1)] and N = MkdirAll_shard [OF ti m(1)]
    have ch: "change l c d fs fs'" using E(2) by (auto simp: change_def)
    have "\<exists>k \<le> 3. fst p' = drop k (put_calls l c d) \<and> (0 < k \<and> snd p' = None \<longrightarrow> gm_get (tree fs') (shard_path l c) = Some FDir)"
      using N(3) m(2) by (intro exI [of _ 1]) (simp add: calls)
    with ch E(1) N(4) nf m(2) show ?thesis by (auto simp: writer_ok_def wrote_def)
  next
    case 2
    with False k have p: "p = ([?wr, ?rn], None)" by (cases p) (simp add: calls)
    obtain e where m: "os_WriteFile (tmp_path l c) d fs = (e, fs')" "p' = ([?rn], e)" using step p by (auto split: prod.splits)
    have d: "gm_get (tree fs) (shard_path l c) = Some FDir" using k 2 by simp
    note E = write_effect [OF inv whole d m(1)] and N = WriteFile_tmp [OF ti d m(1)]
    have ch: "change l c d fs fs'" using E(2) d by (auto simp: change_def)
    have "\<exists>k \<le> 3. fst p' = drop k (put_calls l c d) \<and> (0 < k \<and> snd p' = None \<longrightarrow> gm_get (tree fs') (shard_path l c) = Some FDir)"
      using N(3) m(2) by (intro exI [of _ 2]) (simp add: calls numeral_2_eq_2)
    with ch E(1) N(4,5) nf m(2) show ?thesis by (auto simp: writer_ok_def wrote_def)
  next
    case 3
    with False k have p: "p = ([?rn], None)" by (cases p) (simp add: calls numeral_2_eq_2)
    obtain e where m: "os_Rename (tmp_path l c) (chunk_path l c) fs = (e, fs')" "p' = ([], e)" using step p by (auto split: prod.splits)
    from ok p have t: "gm_get (tree fs) (tmp_path l c) = Some (FFile d)
        \<or> gm_get (tree fs) (tmp_path l c) = None \<and> localfs_stored l fs c = Some d" by (auto simp: writer_ok_def wrote_def)
    note E = rename_effect [OF inv whole m(1)]
    have ch: "change l c d fs fs'" using E(2,3) t unfolding change_def by (cases "e = None") auto
    have nfs: "nf \<longrightarrow> no_faults fs'"
      using nf m(1) by (auto simp: os_Rename_def dest!: next_fault_spec split: prod.splits option.splits fault.splits fnode.splits if_splits)
    have st: "e = None \<Longrightarrow> localfs_stored l fs' c = Some d \<and> gm_get (tree fs') (tmp_path l c) = None"
      using E(3) t c ok_id_not_tmp [OF c, of c] by (auto simp: localfs_stored_def tree_stored_set gomap_simps)
    have "e \<noteq> None \<Longrightarrow> localfs_stored l fs' = localfs_stored l fs \<and> tree fs' = tree fs" using E(2) by (simp add: localfs_stored_def)
    moreover have "gm_get (tree fs') (shard_path l c) = Some FDir" using k 3 change_frame(1) [OF inv c ch, of c] by simp
    ultimately have "writer_ok nf l fs' (c, d) p'"
      using st t E(4) nf m(2) unfolding writer_ok_def prod.case by (cases "e = None") (auto simp: calls intro!: exI [of _ 3])
    with ch E(1) nfs show ?thesis by blast
  qed
qed

definition writers_ok :: "bool \<Rightarrow> localfs \<Rightarrow> (string \<times> bytes) list \<Rightarrow> process list \<Rightarrow> fsys \<Rightarrow> bool" where
  "writers_ok nf l jobs ps fs \<longleftrightarrow> localfs_inv l fs \<and> whole_calls fs \<and> (nf \<longrightarrow> no_faults fs) \<and> length ps = length jobs
     \<and> (\<forall>i < length jobs. writer_ok nf l fs (jobs ! i) (ps ! i))"

lemma writers_step:
  assumes W: "writers_ok nf l jobs ps fs" and cons: "consistent jobs" and i: "i < length ps" and step: "proc_step (ps ! i) fs = (p, fs')"
  shows "writers_ok nf l jobs (ps[i := p]) fs'
    \<and> (localfs_stored l fs' = localfs_stored l fs \<or> (\<exists>(c, d) \<in> set jobs. localfs_stored l fs' = (localfs_stored l fs)(c \<mapsto> d)))"
proof -
  obtain c d where j: "jobs ! i = (c, d)" by fastforce
  have jobs: "(c, d) \<in> set jobs" using i W j by (metis nth_mem writers_ok_def)
  then have c: "ok_id c" using cons by (auto simp: consistent_def)
  have S: "whole_calls fs'" "nf \<longrightarrow> no_faults fs'" "change l c d fs fs'" "writer_ok nf l fs' (c, d) p"
    using writer_step [OF _ _ c _ _ step, of l nf d] W i j by (auto simp: writers_ok_def)
  have inv: "localfs_inv l fs" using W by (simp add: writers_ok_def)
  note ST = change_store [OF inv c S(3)]
  have "writer_ok nf l fs' (jobs ! k) (ps ! k)" if "k < length jobs" for k
  proof -
    obtain c' d' where k: "jobs ! k = (c', d')" by fastforce
    then have "(c', d') \<in> set jobs" using that by (metis nth_mem)
    then have "c = c' \<Longrightarrow> d = d'" using cons jobs by (auto simp: consistent_def)
    moreover have "writer_ok nf l fs (c', d') (ps ! k)" using W that k by (metis writers_ok_def)
    ultimately show ?thesis using writer_ok_change [OF _ inv c S(3)] k by simp
  qed
  then have "\<forall>k < length jobs. writer_ok nf l fs' (jobs ! k) (ps[i := p] ! k)"
    using S(4) j i by (simp add: nth_list_update)
  with W S ST jobs show ?thesis by (auto simp: writers_ok_def)
qed

lemma writers_run:
  assumes "writers_ok nf l jobs ps fs" and "consistent jobs" and "run_writers sch ps fs = (ps', fs')"
  shows "writers_ok nf l jobs ps' fs'
    \<and> (\<forall>x. localfs_stored l fs' x = localfs_stored l fs x \<or> (\<exists>d. (x, d) \<in> set jobs \<and> localfs_stored l fs' x = Some d))"
  using assms
proof (induction sch arbitrary: ps fs)
  case (Cons i sch)
  show ?case
  proof (cases "i < length ps")
    case True
    obtain p fs1 where s: "proc_step (ps ! i) fs = (p, fs1)" by fastforce
    with Cons.prems(3) True have r: "run_writers sch (ps[i := p]) fs1 = (ps', fs')" by simp
    note W = writers_step [OF Cons.prems(1,2) True s]
    note IH = Cons.IH [OF conjunct1 [OF W] Cons.prems(2) r]
    have "localfs_stored l fs1 x = localfs_stored l fs x \<or> (\<exists>d. (x, d) \<in> set jobs \<and> localfs_stored l fs1 x = Some d)" for x
      using W by fastforce
    with IH show ?thesis by metis
  next
    case False
    with Cons show ?thesis by simp
  qed
qed simp

lemma writers_start:
  assumes "localfs_inv l fs" and "whole_calls fs" and "consistent jobs"
  shows "writers_ok (no_faults fs) l jobs (map (writer l) jobs) fs"
proof -
  have "writer_ok (no_faults fs) l fs (c, d) (writer l (c, d))" if "(c, d) \<in> set jobs" for c d
  proof -
    have "ok_id c" using assms(3) that by (auto simp: consistent_def)
    then show ?thesis by (auto simp: writer_ok_def writer_def wrote_def put_calls_ok intro!: exI [of _ 0])
  qed
  then have "writer_ok (no_faults fs) l fs (jobs ! i) (writer l (jobs ! i))" if "i < length jobs" for i
    using that by (metis nth_mem prod.collapse)
  with assms show ?thesis by (simp add: writers_ok_def)
qed

section \<open>Properties\<close>



text \<open>
  C36. A partial write of one Put damages the chunk another one reports as stored. Two Puts of the same
  chunk share a temporary file: the first writes it, the second writes it again and runs out of
  disk after \<open>n\<close> bytes, and the first renames what is left. It returns no error, and the store
  holds the first \<open>n\<close> bytes under the ID of the whole chunk.
\<close>

theorem concurrent_Puts_corrupt:
  assumes "localfs_inv l fs" and "ok_id c"
  shows "\<exists>sch fs' msg. run_writers sch [writer l (c, d), writer l (c, d)]
       (fs\<lparr>faults := [None, None, None, Some (FaultPartial n ''disk full'')]\<rparr>)
         = ([([], None), (msg, Some (Failure ''disk full''))], fs')
    \<and> localfs_stored l fs' c = Some (take n d)"
proof -
  let ?f = "Some (FaultPartial n ''disk full'')" and ?r = "Join [root l]"
  let ?sh = "shard_path l c" and ?tmp = "tmp_path l c" and ?new = "chunk_path l c"
  let ?t1 = "add_dir ?sh (tree fs)"
  let ?t2 = "gm_set ?t1 ?tmp (FFile d)"
  let ?t3 = "gm_set ?t2 ?tmp (FFile (take n d))"
  let ?t4 = "gm_set (gm_del ?t3 ?tmp) ?new (FFile (take n d))"
  have ti: "tree_inv ?r (tree fs)" using assms(1) by (simp add: localfs_inv_def)
  have ti1: "tree_inv ?r ?t1" and sh: "gm_get ?t1 ?sh = Some FDir" using add_dir_inv [OF ti] by simp_all
  have same: "add_dir ?sh ?t1 = ?t1" using sh by (simp add: add_dir_def [of _ ?t1])
  have nd: "gm_get ?t1 ?tmp \<noteq> Some FDir" "gm_get ?t1 ?new \<noteq> Some FDir" using tree_invD(4) [OF ti1] by blast+
  have dp: "Dir ?tmp = ?sh" "Dir ?new = ?sh" by (simp_all add: Dir_def butlast_append)
  have ne: "c \<noteq> c @ ''.tmp''" by (rule ok_id_not_tmp [OF assms(2)])
  have m1: "os_MkdirAll ?sh (fs\<lparr>faults := [None, None, None, ?f]\<rparr>) = (None, fs\<lparr>faults := [None, None, ?f], tree := ?t1\<rparr>)"
    using mkdirs_shard(1) [OF ti, of "shard c"] by (simp add: os_MkdirAll_def next_fault_def del: prefixes_snoc)
  have m2: "os_MkdirAll ?sh (fs\<lparr>faults := [None, None, ?f], tree := ?t1\<rparr>) = (None, fs\<lparr>faults := [None, ?f], tree := ?t1\<rparr>)"
    using mkdirs_shard(1) [OF ti1, of "shard c"] same by (simp add: os_MkdirAll_def next_fault_def del: prefixes_snoc)
  have w1: "os_WriteFile ?tmp d (fs\<lparr>faults := [None, ?f], tree := ?t1\<rparr>) = (None, fs\<lparr>faults := [?f], tree := ?t2\<rparr>)"
    using sh nd by (simp add: os_WriteFile_def next_fault_def dp)
  have w2: "os_WriteFile ?tmp d (fs\<lparr>faults := [?f], tree := ?t2\<rparr>) = (Some (Failure ''disk full''), fs\<lparr>faults := [], tree := ?t3\<rparr>)"
    using sh by (simp add: os_WriteFile_def next_fault_def dp gomap_simps)
  have rn: "os_Rename ?tmp ?new (fs\<lparr>faults := [], tree := ?t3\<rparr>) = (None, fs\<lparr>faults := [], tree := ?t4\<rparr>)"
    using sh nd ne by (simp add: os_Rename_def next_fault_def dp gomap_simps)
  have "localfs_stored l (fs\<lparr>faults := [], tree := ?t4\<rparr>) c = Some (take n d)"
    using assms(2) by (simp add: localfs_stored_def tree_stored_set)
  moreover have "run_writers [0, 1, 0, 1, 0] [writer l (c, d), writer l (c, d)] (fs\<lparr>faults := [None, None, None, ?f]\<rparr>)
      = ([([], None), ([SRename ?tmp ?new], Some (Failure ''disk full''))], fs\<lparr>faults := [], tree := ?t4\<rparr>)"
    by (simp add: writer_def put_calls_ok [OF assms(2)] m1 m2 w1 w2 rn)
  ultimately show ?thesis by blast
qed

lemma concurrent_Puts_corrupt_witness:
  "\<exists>sch ps fs'. run_writers sch [writer sample_localfs (''abcd'', [1, 2]), writer sample_localfs (''abcd'', [1, 2])]
       (sample_fs\<lparr>faults := [None, None, None, Some (FaultPartial 1 ''disk full'')]\<rparr>) = (ps, fs')
     \<and> ps ! 0 = ([], None) \<and> localfs_stored sample_localfs fs' ''abcd'' = Some [1]"
proof -
  have "ok_id ''abcd''" by (simp add: ok_id_def Ext_name_def)
  from concurrent_Puts_corrupt [OF sample_fs_inv(1) this, of "[1, 2]" 1] show ?thesis by fastforce
qed

end
