(* ===== verification/S3.thy ===== *)
theory S3
  imports GoNet Storage
begin

text \<open>
  The cold tier, \<^verbatim>\<open>internal/storage/s3.go\<close>: object keys and URLs, the
  signing of a request with Signature Version 4, the five operations of the storage
  interface over an HTTP client, and the extraction of keys from a listing. The clock and the
  client are an environment over a world \<open>'s\<close>; the digest is an argument.
\<close>

section \<open>Client and environment\<close>

record s3 =
  Bucket :: string
  Region :: string
  AccessKeyID :: string
  SecretAccessKey :: string
  SessionToken :: string
  Endpoint :: string

definition NewS3 :: "string \<Rightarrow> string \<Rightarrow> string \<Rightarrow> string \<Rightarrow> string \<Rightarrow> s3" where
  "NewS3 bucket region accessKeyID secretAccessKey sessionToken =
     \<lparr>Bucket = bucket, Region = region, AccessKeyID = accessKeyID, SecretAccessKey = secretAccessKey,
      SessionToken = sessionToken, Endpoint = ''''\<rparr>"

text \<open>
  A UTC time, the result of a request (an error, or a status and the body to read), and the
  order in which Go ranges over the headers.
\<close>

record utc =
  year :: nat
  month :: nat
  day :: nat
  hour :: nat
  minute :: nat
  seconds :: nat

type_synonym s3_reply = "go_error + (nat \<times> reader)"

record 's s3_env =
  Now :: "'s \<Rightarrow> utc \<times> 's"
  http_Do :: "http_request \<Rightarrow> 's \<Rightarrow> s3_reply \<times> 's"
  header_order :: "(string \<times> string list) list \<Rightarrow> (string \<times> string list) list"

definition s3_endpoint :: "s3 \<Rightarrow> string" where
  "s3_endpoint s =
     (if Endpoint s \<noteq> '''' then Endpoint s
      else ''https://'' @ Bucket s @ ''.s3.'' @ Region s @ ''.amazonaws.com'')"

definition objectKey :: "string \<Rightarrow> string" where
  "objectKey cid =
     (if length cid < 2 then ''chunks/_short/'' @ cid
      else ''chunks/'' @ take 2 cid @ ''/'' @ cid)"

section \<open>Signing\<close>

text \<open>\<^verbatim>\<open>Format\<close> with the layouts \<^verbatim>\<open>20060102T150405Z\<close> and \<^verbatim>\<open>20060102\<close>.\<close>

definition pad_d :: "nat \<Rightarrow> nat \<Rightarrow> string" where
  "pad_d w n = replicate (w - length (fmt_d n)) (CHR ''0'') @ fmt_d n"

definition dateStamp :: "utc \<Rightarrow> string" where
  "dateStamp t = pad_d 4 (year t) @ pad_d 2 (month t) @ pad_d 2 (day t)"

definition amzDate :: "utc \<Rightarrow> string" where
  "amzDate t = dateStamp t @ ''T'' @ pad_d 2 (hour t) @ pad_d 2 (minute t) @ pad_d 2 (seconds t) @ ''Z''"

definition sha256Hex :: "(bytes \<Rightarrow> bytes) \<Rightarrow> bytes \<Rightarrow> string" where
  "sha256Hex sha256 b = EncodeToString (sha256 b)"

definition hmacSHA256 :: "(bytes \<Rightarrow> bytes) \<Rightarrow> bytes \<Rightarrow> string \<Rightarrow> bytes" where
  "hmacSHA256 sha256 key data = hmac sha256 key (bytes_of data)"

definition deriveSigningKey :: "(bytes \<Rightarrow> bytes) \<Rightarrow> string \<Rightarrow> string \<Rightarrow> string \<Rightarrow> string \<Rightarrow> bytes" where
  "deriveSigningKey sha256 secret stamp region service =
     (let kDate = hmacSHA256 sha256 (bytes_of (''AWS4'' @ secret)) stamp;
          kRegion = hmacSHA256 sha256 kDate region;
          kService = hmacSHA256 sha256 kRegion service
      in hmacSHA256 sha256 kService ''aws4_request'')"

definition canonicalURI :: "string \<Rightarrow> string" where
  "canonicalURI p = (if p = '''' then ''/'' else p)"

text \<open>The header map is visited in an arbitrary order; \<^verbatim>\<open>sort.Slice\<close> orders by name.\<close>

fun amz_headers :: "(string \<times> string list) list \<Rightarrow> (string \<times> string) list" where
  "amz_headers [] = []"
| "amz_headers ((name, vals) # hs) =
     (let lower = ToLower name
      in if prefix ''x-amz-'' lower then (lower, strings_Join '','' vals) # amz_headers hs
         else amz_headers hs)"

definition canonicalizeHeaders ::
  "((string \<times> string list) list \<Rightarrow> (string \<times> string list) list) \<Rightarrow> http_header \<Rightarrow> string \<times> string" where
  "canonicalizeHeaders ord h =
     (let headers = sort_key fst ((''host'', hdr_Get h ''Host'') # amz_headers (ord h))
      in (concat (map (\<lambda>(k, v). k @ '':'' @ TrimSpace v @ [CHR 0x0A]) headers),
          strings_Join '';'' (map fst headers)))"

definition sign_headers :: "(bytes \<Rightarrow> bytes) \<Rightarrow> s3 \<Rightarrow> utc \<Rightarrow> http_request \<Rightarrow> bytes \<Rightarrow> http_header" where
  "sign_headers sha256 s t req body =
     (let h1 = hdr_Set (hdr_Set (rq_Header req) ''x-amz-date'' (amzDate t)) ''x-amz-content-sha256'' (sha256Hex sha256 body);
          h2 = (if SessionToken s \<noteq> '''' then hdr_Set h1 ''x-amz-security-token'' (SessionToken s) else h1)
      in hdr_Set h2 ''Host'' (url_Host (rq_URL req)))"

definition authorization ::
  "(bytes \<Rightarrow> bytes) \<Rightarrow> ((string \<times> string list) list \<Rightarrow> (string \<times> string list) list) \<Rightarrow> s3 \<Rightarrow> utc
     \<Rightarrow> http_request \<Rightarrow> http_header \<Rightarrow> bytes \<Rightarrow> string" where
  "authorization sha256 ord s t req h body =
     (let nl = [CHR 0x0A];
          (canonicalHeaders, signedHeaders) = canonicalizeHeaders ord h;
          canonicalRequest = strings_Join nl
            [rq_Method req, canonicalURI (url_Path (rq_URL req)), RawQuery (rq_URL req), canonicalHeaders,
             signedHeaders, sha256Hex sha256 body];
          credentialScope = dateStamp t @ ''/'' @ Region s @ ''/s3/aws4_request'';
          stringToSign = strings_Join nl
            [''AWS4-HMAC-SHA256'', amzDate t, credentialScope, sha256Hex sha256 (bytes_of canonicalRequest)];
          signingKey = deriveSigningKey sha256 (SecretAccessKey s) (dateStamp t) (Region s) ''s3'';
          signature = EncodeToString (hmacSHA256 sha256 signingKey stringToSign)
      in ''AWS4-HMAC-SHA256 Credential='' @ AccessKeyID s @ ''/'' @ credentialScope @ '', SignedHeaders=''
           @ signedHeaders @ '', Signature='' @ signature)"

definition sign ::
  "(bytes \<Rightarrow> bytes) \<Rightarrow> 's s3_env \<Rightarrow> s3 \<Rightarrow> http_request \<Rightarrow> bytes \<Rightarrow> 's \<Rightarrow> http_request \<times> 's" where
  "sign sha256 env s req body st =
     (let (t, st1) = Now env st;
          h = sign_headers sha256 s t req body
      in (req\<lparr>rq_Header := hdr_Set h ''Authorization'' (authorization sha256 (header_order env) s t req h body)\<rparr>, st1))"

section \<open>Operations\<close>

definition newRequest ::
  "(bytes \<Rightarrow> bytes) \<Rightarrow> 's s3_env \<Rightarrow> s3 \<Rightarrow> string \<Rightarrow> string \<Rightarrow> bytes \<Rightarrow> 's \<Rightarrow> (go_error + http_request) \<times> 's" where
  "newRequest sha256 env s meth key body st =
     (let u0 = s3_endpoint s @ ''/'';
          u = (if key \<noteq> '''' then ReplaceAll ''%2F'' ''/'' (u0 @ PathEscape key) else u0)
      in case http_NewRequest meth u body of
           Inl err \<Rightarrow> (Inl err, st)
         | Inr req \<Rightarrow> (let (req', st1) = sign sha256 env s req body st in (Inr req', st1)))"

definition status_error :: "string \<Rightarrow> nat \<Rightarrow> reader \<Rightarrow> go_error" where
  "status_error op status body =
     Failure (''storage: s3 '' @ op @ '': status '' @ fmt_d status @ '': '' @ string_of (content body))"

definition S3_Put ::
  "(bytes \<Rightarrow> bytes) \<Rightarrow> 's s3_env \<Rightarrow> s3 \<Rightarrow> string \<Rightarrow> bytes \<Rightarrow> 's \<Rightarrow> go_error option \<times> 's" where
  "S3_Put sha256 env s cid data st =
     (case newRequest sha256 env s ''PUT'' (objectKey cid) data st of
        (Inl err, st1) \<Rightarrow> (Some err, st1)
      | (Inr req, st1) \<Rightarrow>
          (case http_Do env req st1 of
             (Inl err, st2) \<Rightarrow> (Some (Wrapped (''storage: s3 put '' @ cid) err), st2)
           | (Inr (status, body), st2) \<Rightarrow>
               if status div 100 \<noteq> 2 then (Some (status_error (''put '' @ cid) status body), st2)
               else (None, st2)))"

definition S3_Get ::
  "(bytes \<Rightarrow> bytes) \<Rightarrow> 's s3_env \<Rightarrow> s3 \<Rightarrow> string \<Rightarrow> 's \<Rightarrow> (go_error + bytes) \<times> 's" where
  "S3_Get sha256 env s cid st =
     (case newRequest sha256 env s ''GET'' (objectKey cid) [] st of
        (Inl err, st1) \<Rightarrow> (Inl err, st1)
      | (Inr req, st1) \<Rightarrow>
          (case http_Do env req st1 of
             (Inl err, st2) \<Rightarrow> (Inl (Wrapped (''storage: s3 get '' @ cid) err), st2)
           | (Inr (status, body), st2) \<Rightarrow>
               if status = 404 then (Inl ErrNotFound, st2)
               else if status div 100 \<noteq> 2 then (Inl (status_error (''get '' @ cid) status body), st2)
               else (if ending body = EOF then Inr (content body) else Inl (ending body), st2)))"

definition S3_Has ::
  "(bytes \<Rightarrow> bytes) \<Rightarrow> 's s3_env \<Rightarrow> s3 \<Rightarrow> string \<Rightarrow> 's \<Rightarrow> bool \<times> 's" where
  "S3_Has sha256 env s cid st =
     (case newRequest sha256 env s ''HEAD'' (objectKey cid) [] st of
        (Inl err, st1) \<Rightarrow> (False, st1)
      | (Inr req, st1) \<Rightarrow>
          (case http_Do env req st1 of
             (Inl err, st2) \<Rightarrow> (False, st2)
           | (Inr (status, body), st2) \<Rightarrow> (status div 100 = 2, st2)))"

definition S3_Delete ::
  "(bytes \<Rightarrow> bytes) \<Rightarrow> 's s3_env \<Rightarrow> s3 \<Rightarrow> string \<Rightarrow> 's \<Rightarrow> go_error option \<times> 's" where
  "S3_Delete sha256 env s cid st =
     (case newRequest sha256 env s ''DELETE'' (objectKey cid) [] st of
        (Inl err, st1) \<Rightarrow> (Some err, st1)
      | (Inr req, st1) \<Rightarrow>
          (case http_Do env req st1 of
             (Inl err, st2) \<Rightarrow> (Some (Wrapped (''storage: s3 delete '' @ cid) err), st2)
           | (Inr (status, body), st2) \<Rightarrow>
               if status div 100 \<noteq> 2 \<and> status \<noteq> 404 then (Some (status_error (''delete '' @ cid) status body), st2)
               else (None, st2)))"

text \<open>The loop that extracts the keys of a listing; each round consumes a key element.\<close>

function parse_keys :: "string \<Rightarrow> string list" where
  "parse_keys s =
     (case strings_Index s ''<Key>'' of
        None \<Rightarrow> []
      | Some i \<Rightarrow>
          (let s1 = drop (i + 5) s
           in case strings_Index s1 ''</Key>'' of
                None \<Rightarrow> []
              | Some j \<Rightarrow>
                  (let full = take j s1;
                       parts = strings_Split (CHR ''/'') full
                   in (if length parts = 3 then parts ! 2 else full) # parse_keys (drop (j + 6) s1))))"
  by pat_completeness auto

termination
proof (relation "measure length")
  fix s i s1 j full parts
  assume i: "strings_Index s ''<Key>'' = Some i" and s1: "s1 = drop (i + 5) s"
  have "s \<noteq> []" using i by (cases s) simp_all
  then show "(drop (j + 6) s1, s) \<in> measure length" by (simp add: s1)
qed simp

declare parse_keys.simps [simp del]

definition parseListKeys :: "bytes \<Rightarrow> string list" where
  "parseListKeys xmlBody = parse_keys (string_of xmlBody)"

definition list_query :: "url \<Rightarrow> url" where
  "list_query u =
     (let q = Values_Set (Values_Set (url_Query u) ''list-type'' ''2'') ''prefix'' ''chunks/''
      in u\<lparr>RawQuery := Values_Encode q\<rparr>)"

definition S3_List ::
  "(bytes \<Rightarrow> bytes) \<Rightarrow> 's s3_env \<Rightarrow> s3 \<Rightarrow> 's \<Rightarrow> (go_error + string list) \<times> 's" where
  "S3_List sha256 env s st =
     (case newRequest sha256 env s ''GET'' '''' [] st of
        (Inl err, st1) \<Rightarrow> (Inl err, st1)
      | (Inr req, st1) \<Rightarrow>
          (let (req', st2) = sign sha256 env s (req\<lparr>rq_URL := list_query (rq_URL req)\<rparr>) [] st1
           in case http_Do env req' st2 of
                (Inl err, st3) \<Rightarrow> (Inl (Wrapped ''storage: s3 list'' err), st3)
              | (Inr (status, body), st3) \<Rightarrow>
                  if status div 100 \<noteq> 2 then (Inl (status_error ''list'' status body), st3)
                  else if ending body = EOF then (Inr (parseListKeys (content body)), st3)
                  else (Inl (ending body), st3)))"

definition S3 :: "(bytes \<Rightarrow> bytes) \<Rightarrow> 's s3_env \<Rightarrow> s3 \<Rightarrow> 's backend" where
  "S3 sha256 env s =
     \<lparr>b_Put = S3_Put sha256 env s, b_Get = S3_Get sha256 env s, b_Has = S3_Has sha256 env s,
      b_Delete = S3_Delete sha256 env s, b_List = S3_List sha256 env s\<rparr>"

end
