(* ===== verification/S3Properties.thy ===== *)
theory S3Properties
  imports S3
begin

text \<open>
  What the S3 client guarantees: object keys and URLs determine the chunk, requests carry the
  documented signature whatever the order of the header map, the client over a store that behaves
  as documented is a map from chunk IDs to bytes, and a listing is read back exactly but only
  up to its first page.
\<close>

section \<open>Keys and URLs\<close>

lemma objectKey_inj: "objectKey a = objectKey b \<Longrightarrow> a = b"
proof -
  assume eq: "objectKey a = objectKey b"
  have long: "\<exists>x y z. c = x # y # z \<and> objectKey c = ''chunks/'' @ [x, y, CHR ''/''] @ c" if l: "\<not> length c < 2" for c
  proof -
    obtain x y z where "c = x # y # z" using l by (cases c; cases "tl c") auto
    then show ?thesis by (simp add: objectKey_def)
  qed
  show "a = b"
    using eq long [of a] long [of b] by (cases "length a < 2"; cases "length b < 2") (auto simp: objectKey_def)
qed

lemma objectKey_nonempty [simp]: "objectKey c \<noteq> []"
  by (simp add: objectKey_def)

lemma set_objectKey: "set (objectKey c) \<subseteq> set c \<union> set ''chunks/_short/''"
  by (auto simp: objectKey_def dest: in_set_takeD)

definition plain_endpoint :: "string \<Rightarrow> string \<Rightarrow> string \<Rightarrow> bool" where
  "plain_endpoint e scheme host \<longleftrightarrow> e = scheme @ ''://'' @ host \<and> valid_scheme scheme \<and> valid_host host
     \<and> host \<noteq> [] \<and> last host \<noteq> CHR '':''"

lemma takeWhile_stop: "x \<notin> set a \<Longrightarrow> takeWhile (\<lambda>c. c \<noteq> x) (a @ x # b) = a"
  by (induction a) auto

lemma dropWhile_stop: "x \<notin> set a \<Longrightarrow> dropWhile (\<lambda>c. c \<noteq> x) (a @ x # b) = x # b"
  by (induction a) auto

lemma cut_at_free: "x \<notin> set a \<Longrightarrow> cut_at x a = (a, [])"
  unfolding cut_at_def by (induction a) auto

lemma cut_at_stop: "x \<notin> set a \<Longrightarrow> cut_at x (a @ x # b) = (a, b)"
  by (simp add: cut_at_def takeWhile_stop dropWhile_stop)

lemma host_char_plain: "host_char c \<Longrightarrow> \<not> is_control c \<and> c \<notin> set ''?#%/''"
  by (auto simp: host_char_def unreserved_def is_letter_def is_digit_def is_control_def less_eq_char_def)

lemma scheme_char_plain:
  "is_letter c \<or> is_digit c \<or> c \<in> set ''+-.'' \<Longrightarrow> \<not> is_control c \<and> c \<notin> set '':?#%/''"
  by (auto simp: is_letter_def is_digit_def is_control_def less_eq_char_def)

lemma plain_endpoint_chars:
  assumes "plain_endpoint e scheme host"
  shows "\<forall>c \<in> set scheme. \<not> is_control c \<and> c \<notin> set '':?#%/''" "\<forall>c \<in> set host. \<not> is_control c \<and> c \<notin> set ''?#%/''"
    "\<forall>c \<in> set e. \<not> is_control c \<and> c \<notin> set ''?#%''"
proof -
  show s: "\<forall>c \<in> set scheme. \<not> is_control c \<and> c \<notin> set '':?#%/''"
    using assms scheme_char_plain by (auto simp: plain_endpoint_def valid_scheme_def list_all_iff)
  show h: "\<forall>c \<in> set host. \<not> is_control c \<and> c \<notin> set ''?#%/''"
    using assms host_char_plain by (auto simp: plain_endpoint_def valid_host_def list_all_iff)
  have "c \<in> set scheme \<or> c = CHR '':'' \<or> c = CHR ''/'' \<or> c \<in> set host" if "c \<in> set e" for c
    using assms that by (auto simp: plain_endpoint_def)
  moreover have "\<not> is_control (CHR '':'')" "\<not> is_control (CHR ''/'')" by (simp_all add: is_control_def)
  ultimately show "\<forall>c \<in> set e. \<not> is_control c \<and> c \<notin> set ''?#%''"
    using s h by fastforce
qed

lemma url_Parse_plain:
  assumes "plain_endpoint e scheme host"
  shows "url_Parse (e @ ''/'' @ escape_path key) = Inr \<lparr>url_Host = host, url_Path = CHR ''/'' # key, RawQuery = ''''\<rparr>"
proof -
  let ?u = "e @ ''/'' @ escape_path key"
  note C = plain_endpoint_chars [OF assms]
  have "\<forall>c \<in> set ?u. \<not> is_control c \<and> c \<notin> set ''?#''"
    using C(3) set_escape_path [of _ key] by (fastforce simp: is_control_def)
  then have "CHR ''#'' \<notin> set ?u" "CHR ''?'' \<notin> set ?u" and ctl: "\<not> list_ex is_control ?u"
    by (auto simp: list_ex_iff)
  then have cuts: "cut_at (CHR ''#'') ?u = (?u, [])" "cut_at (CHR ''?'') ?u = (?u, [])"
    by (blast intro: cut_at_free)+
  have u: "?u = scheme @ CHR '':'' # (''//'' @ host @ CHR ''/'' # escape_path key)"
    using assms by (simp add: plain_endpoint_def)
  have "CHR '':'' \<notin> set scheme" using C(1) by auto
  from cut_at_stop [OF this] u have scheme: "cut_at (CHR '':'') ?u = (scheme, ''//'' @ host @ CHR ''/'' # escape_path key)"
    by metis
  have "CHR ''/'' \<notin> set host" using C(2) by auto
  moreover have "valid_scheme scheme" "valid_host host" using assms by (simp_all add: plain_endpoint_def)
  ultimately show ?thesis
    using ctl by (simp only: url_Parse_def cuts scheme Let_def prod.case if_False)
      (simp add: takeWhile_stop dropWhile_stop unescape_escape_path)
qed

lemma newRequest_plain:
  assumes "plain_endpoint (s3_endpoint s) scheme host"
  shows "newRequest sha256 env s meth key body st =
     (let (req, st1) = sign sha256 env s \<lparr>rq_Method = meth,
            rq_URL = \<lparr>url_Host = host, url_Path = CHR ''/'' # key, RawQuery = ''''\<rparr>, rq_Header = [], rq_Body = body\<rparr> body st
      in (Inr req, st1))"
proof -
  have "CHR ''%'' \<notin> set (s3_endpoint s @ ''/'')" using plain_endpoint_chars(3) [OF assms] by auto
  from ReplaceAll_append_free [OF this, of "''/''" "PathEscape key"] PathEscape_slashes [of key]
  have "(if key \<noteq> '''' then ReplaceAll ''%2F'' ''/'' ((s3_endpoint s @ ''/'') @ PathEscape key) else s3_endpoint s @ ''/'')
      = s3_endpoint s @ ''/'' @ escape_path key" by auto
  moreover have "removeEmptyPort host = host" using assms by (simp add: plain_endpoint_def removeEmptyPort_def)
  ultimately show ?thesis
    using url_Parse_plain [OF assms, of key] by (simp add: newRequest_def http_NewRequest_def Let_def)
qed

section \<open>Signatures\<close>

text \<open>
  The documented form of Signature Version 4 for a request with the headers \<open>host\<close>,
  \<open>x-amz-content-sha256\<close>, \<open>x-amz-date\<close> and, with temporary credentials,
  \<open>x-amz-security-token\<close>: the path is percent-encoded but for the unreserved characters and
  the slash, header values are trimmed, and the names are in alphabetical order.
\<close>

definition uri_encode :: "string \<Rightarrow> string" where
  "uri_encode p = concat (map (\<lambda>c. if unreserved c \<or> c = CHR ''/'' then [c] else percent c) p)"

definition sigv4_canonical :: "string \<Rightarrow> url \<Rightarrow> string \<Rightarrow> string \<Rightarrow> string \<Rightarrow> string" where
  "sigv4_canonical meth u hash date token =
     (let nl = [CHR 0x0A]
      in meth @ nl @ uri_encode (url_Path u) @ nl @ RawQuery u @ nl
         @ ''host:'' @ TrimSpace (url_Host u) @ nl
         @ ''x-amz-content-sha256:'' @ hash @ nl
         @ ''x-amz-date:'' @ date @ nl
         @ (if token = '''' then '''' else ''x-amz-security-token:'' @ TrimSpace token @ nl) @ nl
         @ ''host;x-amz-content-sha256;x-amz-date'' @ (if token = '''' then '''' else '';x-amz-security-token'') @ nl
         @ hash)"

definition sigv4_authorization ::
  "(bytes \<Rightarrow> bytes) \<Rightarrow> s3 \<Rightarrow> utc \<Rightarrow> string \<Rightarrow> url \<Rightarrow> bytes \<Rightarrow> string" where
  "sigv4_authorization sha256 s t meth u body =
     (let hash = EncodeToString (sha256 body);
          scope = dateStamp t @ ''/'' @ Region s @ ''/s3/aws4_request'';
          canonical = sigv4_canonical meth u hash (amzDate t) (SessionToken s);
          text = ''AWS4-HMAC-SHA256'' @ [CHR 0x0A] @ amzDate t @ [CHR 0x0A] @ scope @ [CHR 0x0A]
            @ EncodeToString (sha256 (bytes_of canonical));
          key = foldl (\<lambda>k part. hmac sha256 k (bytes_of part)) (bytes_of (''AWS4'' @ SecretAccessKey s))
            [dateStamp t, Region s, ''s3'', ''aws4_request'']
      in ''AWS4-HMAC-SHA256 Credential='' @ AccessKeyID s @ ''/'' @ scope
         @ '', SignedHeaders=host;x-amz-content-sha256;x-amz-date''
         @ (if SessionToken s = '''' then '''' else '';x-amz-security-token'')
         @ '', Signature='' @ EncodeToString (hmac sha256 key (bytes_of text)))"

definition signed_list :: "string \<Rightarrow> string \<Rightarrow> string \<Rightarrow> string \<Rightarrow> http_header" where
  "signed_list date hash token host =
     [(''X-Amz-Date'', [date]), (''X-Amz-Content-Sha256'', [hash])]
     @ (if token \<noteq> '''' then [(''X-Amz-Security-Token'', [token])] else []) @ [(''Host'', [host])]"

lemma canonical_keys:
  "canonical_key True ''x-amz-date'' = ''X-Amz-Date''"
  "canonical_key True ''x-amz-content-sha256'' = ''X-Amz-Content-Sha256''"
  "canonical_key True ''x-amz-security-token'' = ''X-Amz-Security-Token''"
  "canonical_key True ''Host'' = ''Host''"
  "canonical_key True ''Authorization'' = ''Authorization''"
  by code_simp+

lemma lower_keys:
  "ToLower ''X-Amz-Date'' = ''x-amz-date''" "ToLower ''X-Amz-Content-Sha256'' = ''x-amz-content-sha256''"
  "ToLower ''X-Amz-Security-Token'' = ''x-amz-security-token''" "ToLower ''Host'' = ''host''"
  "ToLower ''Authorization'' = ''authorization''"
  by code_simp+

lemma sign_headers_first:
  "rq_Header req = [] \<Longrightarrow> sign_headers sha256 s t req body
     = signed_list (amzDate t) (sha256Hex sha256 body) (SessionToken s) (url_Host (rq_URL req))"
  unfolding sign_headers_def hdr_Set_def canonical_keys by (simp add: Let_def gm_set_def signed_list_def)

lemma sign_headers_again:
  "rq_Header req = signed_list d x (SessionToken s) h @ [(''Authorization'', [a])] \<Longrightarrow> sign_headers sha256 s t req body
     = signed_list (amzDate t) (sha256Hex sha256 body) (SessionToken s) (url_Host (rq_URL req)) @ [(''Authorization'', [a])]"
  unfolding sign_headers_def hdr_Set_def canonical_keys by (simp add: Let_def gm_set_def signed_list_def)

lemma amz_headers_filter:
  "amz_headers h = map (\<lambda>(n, vs). (ToLower n, strings_Join '','' vs)) (filter (\<lambda>(n, vs). prefix ''x-amz-'' (ToLower n)) h)"
  by (induction h rule: amz_headers.induct) (simp_all add: Let_def)

lemma mset_amz_headers: "range_order ord \<Longrightarrow> mset (amz_headers (ord h)) = mset (amz_headers h)"
  by (simp add: amz_headers_filter range_order_def mset_filter)

lemma hex_not_space: "c \<in> hex_chars \<Longrightarrow> \<not> is_space c"
  by (auto simp: hex_chars_def is_space_def)

lemma TrimSpace_hex: "TrimSpace (EncodeToString b) = EncodeToString b"
proof (rule TrimSpace_id)
  show "EncodeToString b = [] \<or> \<not> is_space (hd (EncodeToString b)) \<and> \<not> is_space (last (EncodeToString b))"
    using set_EncodeToString [of b] hex_not_space hd_in_set [of "EncodeToString b"] last_in_set [of "EncodeToString b"]
    by blast
qed

lemma TrimSpace_amzDate: "TrimSpace (amzDate t) = amzDate t"
proof (rule TrimSpace_id)
  have "set (pad_d 4 (year t)) \<subseteq> digit_chars"
    using set_fmt_d [of "year t"] by (auto simp: pad_d_def digit_chars_def)
  moreover have "pad_d 4 (year t) \<noteq> []" by (simp add: pad_d_def)
  moreover have "hd (amzDate t) = hd (pad_d 4 (year t))" using calculation(2) by (simp add: amzDate_def dateStamp_def)
  ultimately have "hd (amzDate t) \<in> digit_chars" by (metis hd_in_set subsetD)
  then have "\<not> is_space (hd (amzDate t))" by (auto simp: digit_chars_def is_space_def)
  moreover have "last (amzDate t) = CHR ''Z''" by (simp add: amzDate_def)
  ultimately show "amzDate t = [] \<or> \<not> is_space (hd (amzDate t)) \<and> \<not> is_space (last (amzDate t))"
    by (simp add: is_space_def)
qed

lemma canonicalizeHeaders_spec:
  assumes ord: "range_order ord" and h: "h = signed_list date hash token host \<or> h = signed_list date hash token host @ [(''Authorization'', [a])]"
  shows "canonicalizeHeaders ord h =
     (let ys = [(''host'', host), (''x-amz-content-sha256'', hash), (''x-amz-date'', date)]
             @ (if token \<noteq> '''' then [(''x-amz-security-token'', token)] else [])
      in (concat (map (\<lambda>(k, v). k @ '':'' @ TrimSpace v @ [CHR 0x0A]) ys), strings_Join '';'' (map fst ys)))"
proof -
  let ?ys = "[(''host'', host), (''x-amz-content-sha256'', hash), (''x-amz-date'', date)]
             @ (if token \<noteq> '''' then [(''x-amz-security-token'', token)] else [])"
  have get: "hdr_Get h ''Host'' = host"
    unfolding hdr_Get_def canonical_keys using h by (auto simp: gm_get_def signed_list_def)
  have "amz_headers h = [(''x-amz-date'', date), (''x-amz-content-sha256'', hash)]
      @ (if token \<noteq> '''' then [(''x-amz-security-token'', token)] else [])"
    using h by (auto simp: signed_list_def lower_keys amz_headers_filter)
  then have ms: "mset ((''host'', host) # amz_headers (ord h)) = mset ?ys"
    using mset_amz_headers [OF ord, of h] by simp
  moreover have "inj_on fst (set ((''host'', host) # amz_headers (ord h)))"
  proof -
    have "distinct (map fst ?ys)" by simp
    then have "inj_on fst (set ?ys)" by (simp only: distinct_map)
    then show ?thesis by (simp only: mset_eq_setD [OF ms])
  qed
  moreover have "sorted (map fst ?ys)" by simp
  ultimately have "sort_key fst ((''host'', host) # amz_headers (ord h)) = ?ys"
    by (rule sort_key_inj_key_eq)
  then show ?thesis unfolding canonicalizeHeaders_def get by (simp only: Let_def)
qed

lemma uri_encode_plain: "\<forall>c \<in> set p. unreserved c \<or> c = CHR ''/'' \<Longrightarrow> uri_encode p = p"
  by (induction p) (auto simp: uri_encode_def)

lemma authorization_reference:
  assumes "range_order ord" and "\<forall>c \<in> set (url_Path u). unreserved c \<or> c = CHR ''/''" and "url_Path u \<noteq> ''''" and "rq_URL req = u"
    and h: "h = signed_list (amzDate t) (sha256Hex sha256 body) (SessionToken s) (url_Host u)
      \<or> h = signed_list (amzDate t) (sha256Hex sha256 body) (SessionToken s) (url_Host u) @ [(''Authorization'', [a])]"
  shows "authorization sha256 ord s t req h body = sigv4_authorization sha256 s t (rq_Method req) u body"
proof -
  let ?hash = "EncodeToString (sha256 body)"
  have ch: "canonicalizeHeaders ord h =
     (let ys = [(''host'', url_Host u), (''x-amz-content-sha256'', ?hash), (''x-amz-date'', amzDate t)]
             @ (if SessionToken s \<noteq> '''' then [(''x-amz-security-token'', SessionToken s)] else [])
      in (concat (map (\<lambda>(k, v). k @ '':'' @ TrimSpace v @ [CHR 0x0A]) ys), strings_Join '';'' (map fst ys)))"
    using canonicalizeHeaders_spec [OF assms(1) h] by (simp only: sha256Hex_def)
  have uri: "canonicalURI (url_Path u) = uri_encode (url_Path u)"
    using assms(2,3) by (simp add: canonicalURI_def uri_encode_plain)
  have key: "deriveSigningKey sha256 (SecretAccessKey s) (dateStamp t) (Region s) ''s3''
      = foldl (\<lambda>k part. hmac sha256 k (bytes_of part)) (bytes_of (''AWS4'' @ SecretAccessKey s))
          [dateStamp t, Region s, ''s3'', ''aws4_request'']"
    by (simp add: deriveSigningKey_def hmacSHA256_def Let_def)
  show ?thesis
    unfolding authorization_def sigv4_authorization_def sigv4_canonical_def ch key assms(4) uri sha256Hex_def hmacSHA256_def
    by (cases "SessionToken s = ''''") (simp_all add: Let_def TrimSpace_hex TrimSpace_amzDate)
qed

text \<open>A request is properly signed at time \<open>t\<close> when its headers are those the documentation asks for.\<close>

definition signed_at :: "(bytes \<Rightarrow> bytes) \<Rightarrow> s3 \<Rightarrow> utc \<Rightarrow> http_request \<Rightarrow> bool" where
  "signed_at sha256 s t rq \<longleftrightarrow>
     hdr_Get (rq_Header rq) ''Host'' = url_Host (rq_URL rq)
     \<and> hdr_Get (rq_Header rq) ''x-amz-date'' = amzDate t
     \<and> hdr_Get (rq_Header rq) ''x-amz-content-sha256'' = EncodeToString (sha256 (rq_Body rq))
     \<and> hdr_Get (rq_Header rq) ''x-amz-security-token'' = SessionToken s
     \<and> hdr_Get (rq_Header rq) ''Authorization''
         = sigv4_authorization sha256 s t (rq_Method rq) (rq_URL rq) (rq_Body rq)"

lemma signed_atI:
  assumes "hdr_Get h ''Host'' = url_Host (rq_URL req)" "hdr_Get h ''x-amz-date'' = amzDate t"
    and "hdr_Get h ''x-amz-content-sha256'' = sha256Hex sha256 (rq_Body req)"
    and "hdr_Get h ''x-amz-security-token'' = SessionToken s"
    and "hdr_Get h ''Authorization'' = sigv4_authorization sha256 s t (rq_Method req) (rq_URL req) (rq_Body req)"
  shows "signed_at sha256 s t (req\<lparr>rq_Header := h\<rparr>)"
  using assms by (simp add: signed_at_def sha256Hex_def)

lemma signed_list_get:
  "hdr_Get (hdr_Set (signed_list d x tok h @ auth) ''Authorization'' a) ''Host'' = h"
  "hdr_Get (hdr_Set (signed_list d x tok h @ auth) ''Authorization'' a) ''x-amz-date'' = d"
  "hdr_Get (hdr_Set (signed_list d x tok h @ auth) ''Authorization'' a) ''x-amz-content-sha256'' = x"
  "auth = [] \<or> auth = [(''Authorization'', [b])] \<Longrightarrow>
     hdr_Get (hdr_Set (signed_list d x tok h @ auth) ''Authorization'' a) ''x-amz-security-token'' = tok"
  "hdr_Get (hdr_Set (signed_list d x tok h @ auth) ''Authorization'' a) ''Authorization'' = a"
  unfolding hdr_Get_def hdr_Set_def canonical_keys
  by (auto simp: gm_get_set signed_list_def) (auto simp: gm_get_def)

lemma hdr_Set_auth:
  "hdr_Set (signed_list d x tok h) ''Authorization'' a = signed_list d x tok h @ [(''Authorization'', [a])]"
  unfolding hdr_Set_def canonical_keys by (simp add: gm_set_def signed_list_def)

definition signed_header :: "string \<Rightarrow> http_header \<Rightarrow> bool" where
  "signed_header token h \<longleftrightarrow> (\<exists>d x h0 b. h = signed_list d x token h0 @ [(''Authorization'', [b])])"

lemma sign_spec:
  assumes "range_order (header_order env)" and "\<forall>c \<in> set (url_Path (rq_URL req)). unreserved c \<or> c = CHR ''/''"
    and "url_Path (rq_URL req) \<noteq> ''''" and "rq_Body req = body"
    and "rq_Header req = [] \<or> signed_header (SessionToken s) (rq_Header req)"
  shows "\<exists>h. sign sha256 env s req body st = (req\<lparr>rq_Header := h\<rparr>, snd (Now env st))
    \<and> signed_at sha256 s (fst (Now env st)) (req\<lparr>rq_Header := h\<rparr>)
    \<and> (rq_Header req = [] \<longrightarrow> signed_header (SessionToken s) h)"
proof -
  obtain t st1 where now: "Now env st = (t, st1)" by fastforce
  let ?L = "signed_list (amzDate t) (sha256Hex sha256 body) (SessionToken s) (url_Host (rq_URL req))"
  obtain auth b where auth: "auth = [] \<or> auth = [(''Authorization'', [b])]" and h: "sign_headers sha256 s t req body = ?L @ auth"
    and nil: "rq_Header req = [] \<Longrightarrow> auth = []"
  proof (cases "rq_Header req = []")
    case True
    from sign_headers_first [OF this] have "sign_headers sha256 s t req body = ?L @ []" by simp
    with True that [of "[]"] show thesis by blast
  next
    case False
    with assms(5) obtain d x h0 b where
      "rq_Header req = signed_list d x (SessionToken s) h0 @ [(''Authorization'', [b])]" unfolding signed_header_def by blast
    from sign_headers_again [OF this] False that show thesis by blast
  qed
  have "authorization sha256 (header_order env) s t req (?L @ auth) body
      = sigv4_authorization sha256 s t (rq_Method req) (rq_URL req) body"
    using auth by (intro authorization_reference [OF assms(1-3) refl]) auto
  with now h have sg: "sign sha256 env s req body st
      = (req\<lparr>rq_Header := hdr_Set (?L @ auth) ''Authorization'' (sigv4_authorization sha256 s t (rq_Method req) (rq_URL req) body)\<rparr>, st1)"
    by (simp only: sign_def Let_def prod.case)
  moreover have "signed_at sha256 s t (req\<lparr>rq_Header := hdr_Set (?L @ auth) ''Authorization''
      (sigv4_authorization sha256 s t (rq_Method req) (rq_URL req) body)\<rparr>)"
    by (rule signed_atI; (simp only: signed_list_get assms(4))?) (rule signed_list_get(4) [OF auth])
  moreover have "signed_header (SessionToken s)
      (hdr_Set (?L @ auth) ''Authorization'' (sigv4_authorization sha256 s t (rq_Method req) (rq_URL req) body))"
    if "rq_Header req = []"
    using nil [OF that] unfolding signed_header_def by (simp only: append_Nil2 hdr_Set_auth) blast
  ultimately show ?thesis unfolding now fst_conv snd_conv by blast
qed

lemma newRequest_spec:
  assumes "range_order (header_order env)" and "plain_endpoint (s3_endpoint s) scheme host"
    and "\<forall>c \<in> set key. unreserved c \<or> c = CHR ''/''"
  shows "\<exists>h. newRequest sha256 env s meth key body st =
       (Inr \<lparr>rq_Method = meth, rq_URL = \<lparr>url_Host = host, url_Path = CHR ''/'' # key, RawQuery = ''''\<rparr>,
             rq_Header = h, rq_Body = body\<rparr>, snd (Now env st))
    \<and> signed_at sha256 s (fst (Now env st))
        \<lparr>rq_Method = meth, rq_URL = \<lparr>url_Host = host, url_Path = CHR ''/'' # key, RawQuery = ''''\<rparr>, rq_Header = h, rq_Body = body\<rparr>
    \<and> signed_header (SessionToken s) h"
proof -
  let ?req = "\<lparr>rq_Method = meth, rq_URL = \<lparr>url_Host = host, url_Path = CHR ''/'' # key, RawQuery = ''''\<rparr>,
             rq_Header = [], rq_Body = body\<rparr>"
  have "\<exists>h. sign sha256 env s ?req body st = (?req\<lparr>rq_Header := h\<rparr>, snd (Now env st))
    \<and> signed_at sha256 s (fst (Now env st)) (?req\<lparr>rq_Header := h\<rparr>)
    \<and> (rq_Header ?req = [] \<longrightarrow> signed_header (SessionToken s) h)"
    using assms(3) by (intro sign_spec [OF assms(1)]) simp_all
  then obtain h where h: "sign sha256 env s ?req body st = (?req\<lparr>rq_Header := h\<rparr>, snd (Now env st))"
    "signed_at sha256 s (fst (Now env st)) (?req\<lparr>rq_Header := h\<rparr>)"
    "signed_header (SessionToken s) h" by auto
  have "newRequest sha256 env s meth key body st = (Inr (?req\<lparr>rq_Header := h\<rparr>), snd (Now env st))"
    unfolding newRequest_plain [OF assms(2)] h(1) by simp
  with h(2,3) show ?thesis by auto
qed

lemma objectKey_chars: "list_all unreserved c \<Longrightarrow> \<forall>x \<in> set (objectKey c). unreserved x \<or> x = CHR ''/''"
proof
  fix x assume u: "list_all unreserved c" and "x \<in> set (objectKey c)"
  then consider "x \<in> set c" | "x \<in> set ''chunks/_short/''" using set_objectKey by fast
  moreover have "list_all (\<lambda>x. unreserved x \<or> x = CHR ''/'') ''chunks/_short/''" by code_simp
  ultimately show "unreserved x \<or> x = CHR ''/''"
    using u unfolding list_all_iff by cases blast+
qed

section \<open>The client over a documented store\<close>

text \<open>
  What the documentation of the object store promises for properly signed requests to an object: \<open>objs\<close>
  maps object keys to contents. A 2xx answer means that the operation took place; another
  status, that it did not; after a failure of the connection a write may or may not have
  taken place. A body read without error is complete.
\<close>

definition s3_service ::
  "(bytes \<Rightarrow> bytes) \<Rightarrow> s3 \<Rightarrow> string \<Rightarrow> 's s3_env \<Rightarrow> ('s \<Rightarrow> string \<rightharpoonup> bytes) \<Rightarrow> bool" where
  "s3_service sha256 s host env objs \<longleftrightarrow>
     range_order (header_order env) \<and> (\<forall>st. objs (snd (Now env st)) = objs st)
     \<and> (\<forall>rq st r st' t key. http_Do env rq st = (r, st') \<and> signed_at sha256 s t rq \<and> url_Host (rq_URL rq) = host
          \<and> url_Path (rq_URL rq) = CHR ''/'' # key \<and> RawQuery (rq_URL rq) = '''' \<longrightarrow>
        (rq_Method rq = ''PUT'' \<longrightarrow>
           (case r of
              Inl e \<Rightarrow> objs st' = objs st \<or> objs st' = (objs st)(key \<mapsto> rq_Body rq)
            | Inr (status, body) \<Rightarrow>
                objs st' = (if status div 100 = 2 then (objs st)(key \<mapsto> rq_Body rq) else objs st)))
        \<and> (rq_Method rq = ''GET'' \<longrightarrow> objs st' = objs st \<and>
           (case r of
              Inl e \<Rightarrow> True
            | Inr (status, body) \<Rightarrow> ending body \<noteq> ErrNotFound \<and> (status = 404 \<longrightarrow> objs st key = None)
                \<and> (status div 100 = 2 \<and> ending body = EOF \<longrightarrow> objs st key = Some (content body))))
        \<and> (rq_Method rq = ''HEAD'' \<longrightarrow> objs st' = objs st \<and>
           (case r of
              Inl e \<Rightarrow> True
            | Inr (status, body) \<Rightarrow> (status div 100 = 2 \<longrightarrow> objs st key \<noteq> None) \<and> (status = 404 \<longrightarrow> objs st key = None)))
        \<and> (rq_Method rq = ''DELETE'' \<longrightarrow>
           (case r of
              Inl e \<Rightarrow> objs st' = objs st \<or> objs st' = (objs st)(key := None)
            | Inr (status, body) \<Rightarrow>
                objs st' = (if status div 100 = 2 \<or> status = 404 then (objs st)(key := None) else objs st))))"

text \<open>The chunks in the store, through the object keys.\<close>

definition s3_stored :: "(string \<rightharpoonup> bytes) \<Rightarrow> string \<rightharpoonup> bytes" where
  "s3_stored objs = (\<lambda>c. objs (objectKey c))"

lemma s3_stored_upd: "s3_stored (objs(objectKey c := x)) = (s3_stored objs)(c := x)"
  by (auto simp: s3_stored_def fun_eq_iff dest: objectKey_inj)

text \<open>One round of an operation on an object: the request it sends and what becomes of it.\<close>

lemma s3_request:
  assumes "s3_service sha256 s host env objs" and "plain_endpoint (s3_endpoint s) scheme host" and "list_all unreserved c"
  obtains req where "newRequest sha256 env s meth (objectKey c) body st = (Inr req, snd (Now env st))"
    "signed_at sha256 s (fst (Now env st)) req" "rq_Method req = meth" "rq_Body req = body"
    "url_Host (rq_URL req) = host" "url_Path (rq_URL req) = CHR ''/'' # objectKey c" "RawQuery (rq_URL req) = ''''"
    "objs (snd (Now env st)) = objs st"
proof -
  have "range_order (header_order env)" "objs (snd (Now env st)) = objs st" using assms(1) by (simp_all add: s3_service_def)
  with newRequest_spec [OF _ assms(2) objectKey_chars [OF assms(3)], of env sha256 meth body st] that show thesis
    by fastforce
qed

lemma s3_answer:
  assumes "s3_service sha256 s host env objs" and "http_Do env req st = (r, st')" and "signed_at sha256 s t req"
    and "url_Host (rq_URL req) = host" "url_Path (rq_URL req) = CHR ''/'' # key" "RawQuery (rq_URL req) = ''''"
  shows "rq_Method req = ''PUT'' \<Longrightarrow>
      (case r of
         Inl e \<Rightarrow> objs st' = objs st \<or> objs st' = (objs st)(key \<mapsto> rq_Body req)
       | Inr (status, body) \<Rightarrow> objs st' = (if status div 100 = 2 then (objs st)(key \<mapsto> rq_Body req) else objs st))"
    and "rq_Method req = ''GET'' \<Longrightarrow> objs st' = objs st \<and>
      (case r of
         Inl e \<Rightarrow> True
       | Inr (status, body) \<Rightarrow> ending body \<noteq> ErrNotFound \<and> (status = 404 \<longrightarrow> objs st key = None)
           \<and> (status div 100 = 2 \<and> ending body = EOF \<longrightarrow> objs st key = Some (content body)))"
    and "rq_Method req = ''HEAD'' \<Longrightarrow> objs st' = objs st \<and>
      (case r of
         Inl e \<Rightarrow> True
       | Inr (status, body) \<Rightarrow> (status div 100 = 2 \<longrightarrow> objs st key \<noteq> None) \<and> (status = 404 \<longrightarrow> objs st key = None))"
    and "rq_Method req = ''DELETE'' \<Longrightarrow>
      (case r of
         Inl e \<Rightarrow> objs st' = objs st \<or> objs st' = (objs st)(key := None)
       | Inr (status, body) \<Rightarrow>
           objs st' = (if status div 100 = 2 \<or> status = 404 then (objs st)(key := None) else objs st))"
  using assms unfolding s3_service_def by blast+

lemma S3_Put_spec:
  assumes "s3_service sha256 s host env objs" and "plain_endpoint (s3_endpoint s) scheme host" and "list_all unreserved c"
    and run: "S3_Put sha256 env s c d st = (r, st')"
  shows "(r = None \<longrightarrow> s3_stored (objs st') = (s3_stored (objs st))(c \<mapsto> d))
    \<and> (s3_stored (objs st') = s3_stored (objs st) \<or> s3_stored (objs st') = (s3_stored (objs st))(c \<mapsto> d))"
proof -
  obtain req where q: "newRequest sha256 env s ''PUT'' (objectKey c) d st = (Inr req, snd (Now env st))"
    "signed_at sha256 s (fst (Now env st)) req" "rq_Method req = ''PUT''" "rq_Body req = d"
    "url_Host (rq_URL req) = host" "url_Path (rq_URL req) = CHR ''/'' # objectKey c" "RawQuery (rq_URL req) = ''''"
    "objs (snd (Now env st)) = objs st"
    by (rule s3_request [OF assms(1-3)])
  obtain rep st2 where h: "http_Do env req (snd (Now env st)) = (rep, st2)" by fastforce
  note A = s3_answer(1) [OF assms(1) h q(2,5,6,7,3)]
  show ?thesis
  proof (cases rep)
    case (Inl e)
    then have "st' = st2" "r \<noteq> None" using run q(1) h by (auto simp: S3_Put_def)
    with A Inl q(4,8) show ?thesis by (auto simp: s3_stored_upd)
  next
    case (Inr p)
    obtain status body where p: "p = (status, body)" by fastforce
    then have "st' = st2 \<and> (r = None) = (status div 100 = 2)"
      using run q(1) h Inr by (cases "status div 100 = 2") (auto simp: S3_Put_def)
    with A Inr p q(4,8) show ?thesis by (auto simp: s3_stored_upd)
  qed
qed

lemma S3_Get_spec:
  assumes "s3_service sha256 s host env objs" and "plain_endpoint (s3_endpoint s) scheme host" and "list_all unreserved c"
    and run: "S3_Get sha256 env s c st = (x, st')"
  shows "s3_stored (objs st') = s3_stored (objs st) \<and> (\<forall>d. x = Inr d \<longrightarrow> s3_stored (objs st) c = Some d)
    \<and> (x = Inl ErrNotFound \<longrightarrow> s3_stored (objs st) c = None)"
proof -
  obtain req where q: "newRequest sha256 env s ''GET'' (objectKey c) [] st = (Inr req, snd (Now env st))"
    "signed_at sha256 s (fst (Now env st)) req" "rq_Method req = ''GET''" "rq_Body req = []"
    "url_Host (rq_URL req) = host" "url_Path (rq_URL req) = CHR ''/'' # objectKey c" "RawQuery (rq_URL req) = ''''"
    "objs (snd (Now env st)) = objs st"
    by (rule s3_request [OF assms(1-3)])
  obtain rep st2 where h: "http_Do env req (snd (Now env st)) = (rep, st2)" by fastforce
  note A = s3_answer(2) [OF assms(1) h q(2,5,6,7,3)]
  have st': "st' = st2" using run q(1) h
    by (cases rep) (auto simp: S3_Get_def split: prod.splits if_splits)
  show ?thesis
  proof (cases rep)
    case (Inl e)
    then have "x = Inl (Wrapped (''storage: s3 get '' @ c) e)" using run q(1) h by (simp add: S3_Get_def)
    with A st' q(8) show ?thesis by simp
  next
    case (Inr p)
    obtain status body where p: "p = (status, body)" by fastforce
    have "x = (if status = 404 then Inl ErrNotFound
        else if status div 100 \<noteq> 2 then Inl (status_error (''get '' @ c) status body)
        else if ending body = EOF then Inr (content body) else Inl (ending body))"
      using run q(1) h Inr p by (simp add: S3_Get_def split: if_splits)
    with A Inr p st' q(8) show ?thesis by (auto simp: s3_stored_def status_error_def split: if_splits)
  qed
qed

lemma S3_Has_spec:
  assumes "s3_service sha256 s host env objs" and "plain_endpoint (s3_endpoint s) scheme host" and "list_all unreserved c"
    and run: "S3_Has sha256 env s c st = (b, st')"
  shows "s3_stored (objs st') = s3_stored (objs st) \<and> (b \<longrightarrow> s3_stored (objs st) c \<noteq> None)"
proof -
  obtain req where q: "newRequest sha256 env s ''HEAD'' (objectKey c) [] st = (Inr req, snd (Now env st))"
    "signed_at sha256 s (fst (Now env st)) req" "rq_Method req = ''HEAD''" "rq_Body req = []"
    "url_Host (rq_URL req) = host" "url_Path (rq_URL req) = CHR ''/'' # objectKey c" "RawQuery (rq_URL req) = ''''"
    "objs (snd (Now env st)) = objs st"
    by (rule s3_request [OF assms(1-3)])
  obtain rep st2 where h: "http_Do env req (snd (Now env st)) = (rep, st2)" by fastforce
  note A = s3_answer(3) [OF assms(1) h q(2,5,6,7,3)]
  have "st' = st2 \<and> b = (case rep of Inl e \<Rightarrow> False | Inr (status, body) \<Rightarrow> status div 100 = 2)"
    using run q(1) h by (cases rep) (auto simp: S3_Has_def)
  with A q(8) show ?thesis by (cases rep) (auto simp: s3_stored_def)
qed

lemma S3_Delete_spec:
  assumes "s3_service sha256 s host env objs" and "plain_endpoint (s3_endpoint s) scheme host" and "list_all unreserved c"
    and run: "S3_Delete sha256 env s c st = (r, st')"
  shows "(r = None \<longrightarrow> s3_stored (objs st') = (s3_stored (objs st))(c := None))
    \<and> (s3_stored (objs st') = s3_stored (objs st) \<or> s3_stored (objs st') = (s3_stored (objs st))(c := None))"
proof -
  obtain req where q: "newRequest sha256 env s ''DELETE'' (objectKey c) [] st = (Inr req, snd (Now env st))"
    "signed_at sha256 s (fst (Now env st)) req" "rq_Method req = ''DELETE''" "rq_Body req = []"
    "url_Host (rq_URL req) = host" "url_Path (rq_URL req) = CHR ''/'' # objectKey c" "RawQuery (rq_URL req) = ''''"
    "objs (snd (Now env st)) = objs st"
    by (rule s3_request [OF assms(1-3)])
  obtain rep st2 where h: "http_Do env req (snd (Now env st)) = (rep, st2)" by fastforce
  note A = s3_answer(4) [OF assms(1) h q(2,5,6,7,3)]
  show ?thesis
  proof (cases rep)
    case (Inl e)
    then have "st' = st2" "r \<noteq> None" using run q(1) h by (auto simp: S3_Delete_def)
    with A Inl q(8) show ?thesis by (auto simp: s3_stored_upd)
  next
    case (Inr p)
    obtain status body where p: "p = (status, body)" by fastforce
    then have "st' = st2 \<and> (r = None) = (status div 100 = 2 \<or> status = 404)"
      using run q(1) h Inr by (cases "status div 100 = 2 \<or> status = 404") (auto simp: S3_Delete_def)
    with A Inr p q(8) show ?thesis by (auto simp: s3_stored_upd)
  qed
qed

section \<open>Listings\<close>

text \<open>
  A listing as the store renders it: key elements with other text between them. The text up to a
  key element contains no earlier one, keys contain no markup.
\<close>

fun listing :: "(string \<times> string) list \<Rightarrow> string \<Rightarrow> string" where
  "listing [] post = post"
| "listing ((gap, k) # ks) post = gap @ ''<Key>'' @ k @ ''</Key>'' @ listing ks post"

definition key_gap :: "string \<Rightarrow> bool" where
  "key_gap gap \<longleftrightarrow> list_all (\<lambda>n. \<not> prefix ''<Key>'' (drop n (gap @ ''<Key>''))) [0..<length gap]"

definition bare_key :: "string \<Rightarrow> string" where
  "bare_key k = (let parts = strings_Split (CHR ''/'') k in if length parts = 3 then parts ! 2 else k)"

lemma strings_Index_gap:
  "list_all (\<lambda>n. \<not> prefix sub (drop n (gap @ sub))) [0..<length gap] \<Longrightarrow> sub \<noteq> [] \<Longrightarrow>
     strings_Index (gap @ sub @ rest) sub = Some (length gap)"
proof (induction gap)
  case Nil
  then show ?case by (cases sub) simp_all
next
  case (Cons c gap)
  have all: "\<not> prefix sub (drop n ((c # gap) @ sub))" if n: "n < Suc (length gap)" for n
  proof -
    from n have "n \<in> set [0..<length (c # gap)]" by auto
    with Cons.prems(1) show ?thesis unfolding list_all_iff by blast
  qed
  have h: "\<not> prefix sub ((c # gap) @ sub)" using all [of 0] by simp
  have t: "list_all (\<lambda>n. \<not> prefix sub (drop n (gap @ sub))) [0..<length gap]"
    using all [of "Suc n" for n] by (simp add: list_all_iff)
  have "\<not> prefix sub (c # (gap @ sub @ rest))"
  proof
    assume "prefix sub (c # (gap @ sub @ rest))"
    then have "prefix sub (((c # gap) @ sub) @ rest)" by simp
    then have "prefix sub ((c # gap) @ sub)" by (rule prefix_length_prefix) simp_all
    with h show False ..
  qed
  with Cons.IH [OF t Cons.prems(2)] show ?case by simp
qed

lemma key_gap_Index: "key_gap gap \<Longrightarrow> strings_Index (gap @ ''<Key>'' @ rest) ''<Key>'' = Some (length gap)"
  unfolding key_gap_def by (rule strings_Index_gap) simp_all

lemma close_Index: "CHR ''<'' \<notin> set k \<Longrightarrow> strings_Index (k @ ''</Key>'' @ rest) ''</Key>'' = Some (length k)"
  by (induction k) auto

lemma parse_keys_listing:
  "list_all (\<lambda>(gap, k). key_gap gap \<and> CHR ''<'' \<notin> set k) ks \<Longrightarrow> strings_Index post ''<Key>'' = None \<Longrightarrow>
     parse_keys (listing ks post) = map (bare_key \<circ> snd) ks"
proof (induction ks rule: list.induct)
  case Nil
  then show ?case by (simp add: parse_keys.simps)
next
  case (Cons gk ks)
  obtain gap k where gk: "gk = (gap, k)" by fastforce
  let ?s = "listing (gk # ks) post"
  have "strings_Index ?s ''<Key>'' = Some (length gap)"
    using key_gap_Index [of gap "k @ ''</Key>'' @ listing ks post"] Cons.prems(1) gk by simp
  moreover have s1: "drop (length gap + 5) ?s = k @ ''</Key>'' @ listing ks post"
    using gk by simp
  moreover have "strings_Index (k @ ''</Key>'' @ listing ks post) ''</Key>'' = Some (length k)"
    using close_Index Cons.prems(1) gk by simp
  ultimately have "parse_keys ?s = bare_key k # parse_keys (listing ks post)"
    by (subst parse_keys.simps) (simp add: Let_def bare_key_def)
  with Cons gk show ?case by simp
qed

lemma bare_key_objectKey: "CHR ''/'' \<notin> set c \<Longrightarrow> bare_key (objectKey c) = c"
proof -
  assume c: "CHR ''/'' \<notin> set c"
  have "objectKey c = strings_Join ''/'' [''chunks'', if length c < 2 then ''_short'' else take 2 c, c]"
    by (simp add: objectKey_def)
  moreover have "CHR ''/'' \<notin> set (take 2 c)" using c by (auto dest: in_set_takeD)
  ultimately have "strings_Split (CHR ''/'') (objectKey c) = [''chunks'', if length c < 2 then ''_short'' else take 2 c, c]"
    using c by (simp only:) (rule strings_Split_Join; simp)
  then show ?thesis by (simp add: bare_key_def)
qed

text \<open>
  The documented answer to a listing of the bucket: the keys in order, at most a thousand of them.
\<close>

definition list_service ::
  "(bytes \<Rightarrow> bytes) \<Rightarrow> s3 \<Rightarrow> string \<Rightarrow> 's s3_env \<Rightarrow> ('s \<Rightarrow> string list) \<Rightarrow> bool" where
  "list_service sha256 s host env ids \<longleftrightarrow>
     (\<forall>rq st t. signed_at sha256 s t rq \<and> rq_Method rq = ''GET''
          \<and> rq_URL rq = \<lparr>url_Host = host, url_Path = ''/'', RawQuery = ''list-type=2&prefix=chunks%2F''\<rparr> \<longrightarrow>
        (\<exists>gaps post. length gaps = length (take 1000 (ids st)) \<and> list_all key_gap gaps
           \<and> strings_Index post ''<Key>'' = None
           \<and> http_Do env rq st =
               (Inr (200, [RData (bytes_of (listing (zip gaps (map objectKey (take 1000 (ids st)))) post))]), st)))"

lemma list_query_plain:
  "list_query \<lparr>url_Host = host, url_Path = ''/'', RawQuery = ''''\<rparr>
     = \<lparr>url_Host = host, url_Path = ''/'', RawQuery = ''list-type=2&prefix=chunks%2F''\<rparr>"
proof -
  have "url_Query \<lparr>url_Host = host, url_Path = ''/'', RawQuery = ''''\<rparr> = []" by (simp add: url_Query_def)
  moreover have "Values_Encode (Values_Set (Values_Set [] ''list-type'' ''2'') ''prefix'' ''chunks/'')
      = ''list-type=2&prefix=chunks%2F''" by code_simp
  ultimately show ?thesis unfolding list_query_def by (simp only: Let_def url.update_convs)
qed

lemma S3_List_request:
  assumes "range_order (header_order env)" and "plain_endpoint (s3_endpoint s) scheme host"
  obtains req t where "signed_at sha256 s t req" "rq_Method req = ''GET''"
    "rq_URL req = \<lparr>url_Host = host, url_Path = ''/'', RawQuery = ''list-type=2&prefix=chunks%2F''\<rparr>"
    "S3_List sha256 env s st =
       (case http_Do env req (snd (Now env (snd (Now env st)))) of
          (Inl err, st3) \<Rightarrow> (Inl (Wrapped ''storage: s3 list'' err), st3)
        | (Inr (status, body), st3) \<Rightarrow>
            if status div 100 \<noteq> 2 then (Inl (status_error ''list'' status body), st3)
            else if ending body = EOF then (Inr (parseListKeys (content body)), st3)
            else (Inl (ending body), st3))"
proof -
  let ?u = "\<lparr>url_Host = host, url_Path = ''/'', RawQuery = ''''\<rparr>"
  let ?st1 = "snd (Now env st)"
  have "\<forall>c \<in> set ''''. unreserved c \<or> c = CHR ''/''" by simp
  from newRequest_spec [OF assms this, of sha256 "''GET''" "[]" st]
  obtain h where n: "newRequest sha256 env s ''GET'' '''' [] st =
      (Inr \<lparr>rq_Method = ''GET'', rq_URL = ?u, rq_Header = h, rq_Body = []\<rparr>, ?st1)"
    and h: "signed_header (SessionToken s) h" by blast
  let ?req = "\<lparr>rq_Method = ''GET'', rq_URL = list_query ?u, rq_Header = h, rq_Body = []\<rparr>"
  have "\<exists>h'. sign sha256 env s ?req [] ?st1 = (?req\<lparr>rq_Header := h'\<rparr>, snd (Now env ?st1))
    \<and> signed_at sha256 s (fst (Now env ?st1)) (?req\<lparr>rq_Header := h'\<rparr>)
    \<and> (rq_Header ?req = [] \<longrightarrow> signed_header (SessionToken s) h')"
    using h by (intro sign_spec [OF assms(1)]) (simp_all add: list_query_plain)
  then obtain h' where h': "sign sha256 env s ?req [] ?st1 = (?req\<lparr>rq_Header := h'\<rparr>, snd (Now env ?st1))"
    "signed_at sha256 s (fst (Now env ?st1)) (?req\<lparr>rq_Header := h'\<rparr>)" by blast
  show thesis
  proof (rule that)
    show "signed_at sha256 s (fst (Now env ?st1)) (?req\<lparr>rq_Header := h'\<rparr>)" by (rule h'(2))
    show "rq_Method (?req\<lparr>rq_Header := h'\<rparr>) = ''GET''" by simp
    show "rq_URL (?req\<lparr>rq_Header := h'\<rparr>) = \<lparr>url_Host = host, url_Path = ''/'', RawQuery = ''list-type=2&prefix=chunks%2F''\<rparr>"
      using list_query_plain [of host] by simp
    show "S3_List sha256 env s st =
       (case http_Do env (?req\<lparr>rq_Header := h'\<rparr>) (snd (Now env (snd (Now env st)))) of
          (Inl err, st3) \<Rightarrow> (Inl (Wrapped ''storage: s3 list'' err), st3)
        | (Inr (status, body), st3) \<Rightarrow>
            if status div 100 \<noteq> 2 then (Inl (status_error ''list'' status body), st3)
            else if ending body = EOF then (Inr (parseListKeys (content body)), st3)
            else (Inl (ending body), st3))"
      unfolding S3_List_def n using h'(1) by (simp only: prod.case sum.case http_request.simps Let_def)
  qed
qed

lemma parse_page:
  assumes "length gaps = length cs" and "list_all key_gap gaps"
    and "strings_Index post ''<Key>'' = None" and "list_all (list_all unreserved) cs"
  shows "parseListKeys (bytes_of (listing (zip gaps (map objectKey cs)) post)) = cs"
proof -
  have u: "unreserved c \<Longrightarrow> c \<noteq> CHR ''/'' \<and> c \<noteq> CHR ''<''" for c
    by (auto simp: unreserved_def is_letter_def is_digit_def less_eq_char_def)
  have k: "CHR ''<'' \<notin> set (objectKey c)" "bare_key (objectKey c) = c" if "list_all unreserved c" for c
    using that u set_objectKey [of c] by (auto simp: list_all_iff intro!: bare_key_objectKey)
  have "key_gap gap \<and> CHR ''<'' \<notin> set k" if z: "(gap, k) \<in> set (zip gaps (map objectKey cs))" for gap k
  proof -
    have "gap \<in> set gaps" using z by (rule set_zip_leftD)
    moreover have "k \<in> objectKey ` set cs" using set_zip_rightD [OF z] by simp
    ultimately show ?thesis using assms(2,4) k(1) by (fastforce simp: list_all_iff)
  qed
  then have "list_all (\<lambda>(gap, k). key_gap gap \<and> CHR ''<'' \<notin> set k) (zip gaps (map objectKey cs))"
    unfolding list_all_iff by blast
  from parse_keys_listing [OF this assms(3)]
  have "parseListKeys (bytes_of (listing (zip gaps (map objectKey cs)) post))
      = map bare_key (map snd (zip gaps (map objectKey cs)))" by (simp add: parseListKeys_def)
  also have "\<dots> = map (\<lambda>c. bare_key (objectKey c)) cs" using assms(1) by simp
  also have "\<dots> = cs" using assms(4) k(2) by (intro map_idI) (simp add: list_all_iff)
  finally show ?thesis .
qed

section \<open>Properties\<close>

text \<open>
  C23. Requests are signed as documented. For a chunk ID of unreserved characters, a request for
  its object goes to the endpoint's host and the path of its key, and its headers carry the date, the
  payload hash, the session token and the Signature Version 4 authorization of the
  documentation, whatever the order in which Go ranges over the header map.
\<close>

theorem requests_signed:
  assumes "range_order (header_order env)" and "plain_endpoint (s3_endpoint s) scheme host" and "list_all unreserved c"
  shows "\<exists>req. newRequest sha256 env s meth (objectKey c) body st = (Inr req, snd (Now env st))
    \<and> rq_Method req = meth \<and> rq_Body req = body
    \<and> rq_URL req = \<lparr>url_Host = host, url_Path = CHR ''/'' # objectKey c, RawQuery = ''''\<rparr>
    \<and> signed_at sha256 s (fst (Now env st)) req"
  using newRequest_spec [OF assms(1,2) objectKey_chars [OF assms(3)], of sha256 meth body st] by fastforce

text \<open>A client of a bucket, and a store that keeps its objects in a map.\<close>

definition sample_s3 :: s3 where
  "sample_s3 = NewS3 ''b'' ''r'' ''k'' ''s'' ''t''"

definition sample_s3_Do :: "http_request \<Rightarrow> (string, bytes) gomap \<Rightarrow> s3_reply \<times> (string, bytes) gomap" where
  "sample_s3_Do rq m =
     (let key = drop 1 (url_Path (rq_URL rq))
      in if rq_Method rq = ''PUT'' then (Inr (200, []), gm_set m key (rq_Body rq))
         else if rq_Method rq = ''DELETE'' then (Inr (204, []), gm_del m key)
         else case gm_get m key of None \<Rightarrow> (Inr (404, []), m) | Some d \<Rightarrow> (Inr (200, [RData d]), m))"

definition sample_s3_env :: "(string, bytes) gomap s3_env" where
  "sample_s3_env =
     \<lparr>Now = (\<lambda>m. (\<lparr>year = 2024, month = 5, day = 7, hour = 9, minute = 8, seconds = 1\<rparr>, m)),
      http_Do = sample_s3_Do, header_order = rev\<rparr>"

lemma sample_s3_endpoint: "plain_endpoint (s3_endpoint sample_s3) ''https'' ''b.s3.r.amazonaws.com''"
proof -
  have "s3_endpoint sample_s3 = ''https'' @ ''://'' @ ''b.s3.r.amazonaws.com''" by code_simp
  moreover have "valid_scheme ''https''" "valid_host ''b.s3.r.amazonaws.com''" by code_simp+
  ultimately show ?thesis unfolding plain_endpoint_def by simp
qed

lemma requests_signed_witness:
  "\<exists>req. fst (newRequest rev sample_s3_env sample_s3 ''GET'' (objectKey ''ab12'') [] []) = Inr req
     \<and> url_Path (rq_URL req) = ''/chunks/ab/ab12'' \<and> hdr_Get (rq_Header req) ''x-amz-date'' = ''20240507T090801Z''"
proof -
  have "range_order (header_order sample_s3_env)" by (simp add: sample_s3_env_def range_order_rev)
  moreover have "list_all unreserved ''ab12''" by code_simp
  moreover have "objectKey ''ab12'' = ''chunks/ab/ab12''" by code_simp
  moreover have "amzDate \<lparr>year = 2024, month = 5, day = 7, hour = 9, minute = 8, seconds = 1\<rparr> = ''20240507T090801Z''"
    by code_simp
  moreover have "fst (Now sample_s3_env []) = \<lparr>year = 2024, month = 5, day = 7, hour = 9, minute = 8, seconds = 1\<rparr>"
    by (simp add: sample_s3_env_def)
  ultimately show ?thesis
    using requests_signed [OF _ sample_s3_endpoint, of sample_s3_env "''ab12''" rev "''GET''" "[]" "[]"]
    unfolding signed_at_def by fastforce
qed

text \<open>
  C13. The client is a map from chunk IDs to bytes. Over a store that behaves as documented, with a
  chunk ID of unreserved characters: a successful Put or Delete has updated the chunk's entry and no
  other, a failing one has either done so or nothing; Get and Has change nothing, Get returns the stored
  bytes, answers not-found only for an absent chunk, and Has is true only for a present one.
\<close>

theorem S3_refines_map:
  assumes "s3_service sha256 s host env objs" and "plain_endpoint (s3_endpoint s) scheme host" and "list_all unreserved c"
  defines "B \<equiv> S3 sha256 env s" and "stored \<equiv> \<lambda>st. s3_stored (objs st)"
  shows "(b_Put B c d st = (r, st') \<longrightarrow>
        (if r = None then stored st' = (stored st)(c \<mapsto> d) else stored st' \<in> {stored st, (stored st)(c \<mapsto> d)}))
    \<and> (b_Get B c st = (x, st') \<longrightarrow> stored st' = stored st
        \<and> (x = Inl ErrNotFound \<longrightarrow> stored st c = None) \<and> (\<forall>d. x = Inr d \<longrightarrow> stored st c = Some d))
    \<and> (b_Has B c st = (b, st') \<longrightarrow> stored st' = stored st \<and> (b \<longrightarrow> stored st c \<noteq> None))
    \<and> (b_Delete B c st = (r, st') \<longrightarrow>
        (if r = None then stored st' = (stored st)(c := None) else stored st' \<in> {stored st, (stored st)(c := None)}))"
proof (intro conjI impI)
  show "if r = None then stored st' = (stored st)(c \<mapsto> d) else stored st' \<in> {stored st, (stored st)(c \<mapsto> d)}"
    if "b_Put B c d st = (r, st')"
    using S3_Put_spec [OF assms(1-3), of d st r st'] that by (simp add: B_def stored_def S3_def)
  show "if r = None then stored st' = (stored st)(c := None) else stored st' \<in> {stored st, (stored st)(c := None)}"
    if "b_Delete B c st = (r, st')"
    using S3_Delete_spec [OF assms(1-3), of st r st'] that by (simp add: B_def stored_def S3_def)
qed (use S3_Get_spec [OF assms(1-3), of st x st'] S3_Has_spec [OF assms(1-3), of st b st'] in
  \<open>simp_all add: B_def stored_def S3_def\<close>)

lemma sample_s3_service: "s3_service sha256 sample_s3 host sample_s3_env gm_get"
  by (auto simp: s3_service_def sample_s3_env_def range_order_rev sample_s3_Do_def Let_def gomap_simps fun_eq_iff
      split: option.splits)

lemma S3_refines_map_witness:
  "s3_stored (gm_get (snd (b_Put (S3 rev sample_s3_env sample_s3) ''ab12'' [1, 2] [])))
     \<in> {s3_stored (gm_get []), (s3_stored (gm_get []))(''ab12'' \<mapsto> [1, 2])}"
proof -
  have c: "list_all unreserved ''ab12''" by code_simp
  obtain r st' where p: "b_Put (S3 rev sample_s3_env sample_s3) ''ab12'' [1, 2] [] = (r, st')" by fastforce
  from conjunct1 [OF S3_refines_map [OF sample_s3_service sample_s3_endpoint c], THEN mp, OF p]
  show ?thesis unfolding p snd_conv by (cases "r = None") (simp_all only: if_True if_False insert_iff simp_thms)
qed

text \<open>
  A listing is read back exactly. Parsing a listing of the keys of chunks, with any other
  markup between the key elements, gives the IDs of these chunks in order.
\<close>

lemma parseListKeys_roundtrip:
  assumes "length gaps = length cs" and "list_all key_gap gaps" and "strings_Index post ''<Key>'' = None"
    and "list_all (list_all unreserved) cs"
  shows "parseListKeys (bytes_of (listing (zip gaps (map objectKey cs)) post)) = cs"
  by (rule parse_page [OF assms])

lemma parseListKeys_roundtrip_witness:
  "parseListKeys (bytes_of (listing (zip [''<List><Contents>'', ''</Contents><Contents>''] (map objectKey [''ab12'', ''c'']))
     ''</Contents></List>'')) = [''ab12'', ''c'']"
proof (rule parseListKeys_roundtrip)
  show "list_all key_gap [''<List><Contents>'', ''</Contents><Contents>'']" by code_simp
  show "strings_Index ''</Contents></List>'' ''<Key>'' = None" by code_simp
  show "list_all (list_all unreserved) [''ab12'', ''c'']" by code_simp
qed simp

text \<open>
  C39. Only the first page is listed. The store answers with at most a thousand keys, as documented; List
  asks once and returns them as if they were all. In a bucket with more chunks the rest is
  missing from the result, without an error.
\<close>

theorem S3_List_first_page:
  assumes "range_order (header_order env)" and "plain_endpoint (s3_endpoint s) scheme host"
    and "list_service sha256 s host env ids" and "list_all (list_all unreserved) (ids st')"
    and "st' = snd (Now env (snd (Now env st)))"
  shows "S3_List sha256 env s st = (Inr (take 1000 (ids st')), st')
    \<and> (1000 < length (ids st') \<and> distinct (ids st') \<longrightarrow> ids st' ! 1000 \<notin> set (take 1000 (ids st')))"
proof -
  obtain req t where q: "signed_at sha256 s t req" "rq_Method req = ''GET''"
    "rq_URL req = \<lparr>url_Host = host, url_Path = ''/'', RawQuery = ''list-type=2&prefix=chunks%2F''\<rparr>"
    "S3_List sha256 env s st =
       (case http_Do env req st' of
          (Inl err, st3) \<Rightarrow> (Inl (Wrapped ''storage: s3 list'' err), st3)
        | (Inr (status, body), st3) \<Rightarrow>
            if status div 100 \<noteq> 2 then (Inl (status_error ''list'' status body), st3)
            else if ending body = EOF then (Inr (parseListKeys (content body)), st3)
            else (Inl (ending body), st3))"
    by (rule S3_List_request [OF assms(1,2), of sha256 st, folded assms(5)])
  then obtain gaps post where g: "length gaps = length (take 1000 (ids st'))" "list_all key_gap gaps"
    "strings_Index post ''<Key>'' = None"
    "http_Do env req st' =
       (Inr (200, [RData (bytes_of (listing (zip gaps (map objectKey (take 1000 (ids st')))) post))]), st')"
    using assms(3) unfolding list_service_def by blast
  have "list_all (list_all unreserved) (take 1000 (ids st'))"
    using assms(4) by (auto simp: list_all_iff dest: in_set_takeD)
  from parse_page [OF g(1-3) this] have "S3_List sha256 env s st = (Inr (take 1000 (ids st')), st')"
    unfolding q(4) g(4) by simp
  moreover have "ids st' ! 1000 \<notin> set (take 1000 (ids st'))" if "1000 < length (ids st')" "distinct (ids st')"
    using that by (auto simp: in_set_conv_nth nth_eq_iff_index_eq)
  ultimately show ?thesis by blast
qed

definition sample_list_env :: "string list s3_env" where
  "sample_list_env =
     \<lparr>Now = (\<lambda>m. (\<lparr>year = 2024, month = 5, day = 7, hour = 9, minute = 8, seconds = 1\<rparr>, m)),
      http_Do = (\<lambda>rq ids. (Inr (200, [RData (bytes_of (listing (zip (replicate (length (take 1000 ids)) ''<Contents>'')
        (map objectKey (take 1000 ids))) ''''))]), ids)),
      header_order = rev\<rparr>"

lemma digit_unreserved: "c \<in> digit_chars \<Longrightarrow> unreserved c"
proof -
  have "list_all unreserved ''0123456789''" by code_simp
  then show "c \<in> digit_chars \<Longrightarrow> unreserved c" unfolding digit_chars_def list_all_iff by blast
qed

lemma S3_List_first_page_witness:
  "fst (S3_List rev sample_list_env sample_s3 (map fmt_d [0..<1001])) = Inr (map fmt_d [0..<1000])"
proof -
  let ?ids = "map fmt_d [0..<1001]"
  have "key_gap ''<Contents>''" by code_simp
  then have serv: "list_service rev sample_s3 ''b.s3.r.amazonaws.com'' sample_list_env (\<lambda>ids. ids)"
    unfolding list_service_def sample_list_env_def
  proof (intro allI impI, goal_cases)
    case (1 rq st t)
    then show ?case
      by (intro exI [of _ "replicate (length (take 1000 st)) ''<Contents>''"] exI [of _ "''''"])
        (simp add: list_all_length)
  qed
  have ord: "range_order (header_order sample_list_env)" by (simp add: sample_list_env_def range_order_rev)
  have "list_all unreserved (fmt_d n)" for n
    using set_fmt_d [of n] digit_unreserved unfolding list_all_iff by blast
  then have ids: "list_all (list_all unreserved) ?ids" unfolding list_all_iff set_map by blast
  have "xs = snd (Now sample_list_env (snd (Now sample_list_env xs)))" for xs by (simp add: sample_list_env_def)
  from conjunct1 [OF S3_List_first_page [OF ord sample_s3_endpoint serv ids this]]
  have "S3_List rev sample_list_env sample_s3 ?ids = (Inr (take 1000 ?ids), ?ids)" .
  moreover have "take 1000 [0..<1001] = [0..<1000]"
    by (rule take_upt [of 0 1000 1001, unfolded add_0]) simp
  ultimately show ?thesis by (simp only: take_map fst_conv)
qed

end
