(* ===== verification/Membership.thy ===== *)
theory Membership
  imports GoLib
begin

text \<open>
  Failure detection, from \<^verbatim>\<open>internal/cluster/membership.go\<close>: the peer table,
  the heartbeat round and the callbacks it starts. Instants and durations are integers in
  nanoseconds (a monotonic clock reading and \<^verbatim>\<open>time.Duration\<close>); the clock
  readings of a run and the answers of the peers to \<^verbatim>\<open>GET /healthz\<close> are
  arguments. A callback is a value of an arbitrary type; an operation returns the list of the
  goroutines \<^verbatim>\<open>go fn(id)\<close> it starts, in order.
\<close>

section \<open>States and peers\<close>

datatype State = StateAlive | StateSuspect | StateDead

text \<open>The constants are \<^verbatim>\<open>iota\<close> values, which orders them.\<close>

fun State_iota :: "State \<Rightarrow> nat" where
  "State_iota StateAlive = 0"
| "State_iota StateSuspect = 1"
| "State_iota StateDead = 2"

fun State_String :: "State \<Rightarrow> string" where
  "State_String StateAlive = ''alive''"
| "State_String StateSuspect = ''suspect''"
| "State_String StateDead = ''dead''"

lemma State_iota_inj: "State_iota a = State_iota b \<longleftrightarrow> a = b"
  by (cases a; cases b) auto

instantiation State :: linorder
begin

definition less_eq_State :: "State \<Rightarrow> State \<Rightarrow> bool" where
  "less_eq_State a b \<longleftrightarrow> State_iota a \<le> State_iota b"

definition less_State :: "State \<Rightarrow> State \<Rightarrow> bool" where
  "less_State a b \<longleftrightarrow> State_iota a < State_iota b"

instance
  by standard (auto simp: less_eq_State_def less_State_def State_iota_inj)

end

lemma State_order [simp]:
  "StateAlive \<le> s" "s \<le> StateDead" "s \<le> StateAlive \<longleftrightarrow> s = StateAlive" "StateDead \<le> s \<longleftrightarrow> s = StateDead"
  by (cases s; simp add: less_eq_State_def)+

type_synonym instant = int
type_synonym duration = int

record Peer =
  peer_ID :: string
  Addr :: string
  peer_State :: State
  LastHeartbeat :: instant

record 'cb membership =
  self :: Peer
  peers :: "(string, Peer) gomap"
  suspectAfter :: duration
  deadAfter :: duration
  onDead :: "'cb list"
  onAlive :: "'cb list"

definition Second :: duration where
  "Second = 1000000000"

text \<open>
  \<^verbatim>\<open>time.Since\<close>: the difference of two readings, saturated at the ends of the
  64-bit range.
\<close>

definition time_sub :: "instant \<Rightarrow> instant \<Rightarrow> duration" where
  "time_sub t u = max (- (2 ^ 63)) (min (2 ^ 63 - 1) (t - u))"

section \<open>Operations\<close>

definition membership_New :: "string \<Rightarrow> string \<Rightarrow> instant \<Rightarrow> 'cb membership" where
  "membership_New selfID selfAddr now =
     \<lparr>self = \<lparr>peer_ID = selfID, Addr = selfAddr, peer_State = StateAlive, LastHeartbeat = now\<rparr>,
      peers = [], suspectAfter = 3 * Second, deadAfter = 9 * Second, onDead = [], onAlive = []\<rparr>"

definition AddPeer :: "string \<Rightarrow> string \<Rightarrow> instant \<Rightarrow> 'cb membership \<Rightarrow> 'cb membership" where
  "AddPeer cid addr now m =
     (if cid = peer_ID (self m) then m
      else if gm_get (peers m) cid \<noteq> None then m
      else m\<lparr>peers := gm_set (peers m) cid
             \<lparr>peer_ID = cid, Addr = addr, peer_State = StateAlive, LastHeartbeat = now\<rparr>\<rparr>)"

definition OnNodeDead :: "'cb \<Rightarrow> 'cb membership \<Rightarrow> 'cb membership" where
  "OnNodeDead fn m = m\<lparr>onDead := onDead m @ [fn]\<rparr>"

definition OnNodeAlive :: "'cb \<Rightarrow> 'cb membership \<Rightarrow> 'cb membership" where
  "OnNodeAlive fn m = m\<lparr>onAlive := onAlive m @ [fn]\<rparr>"

text \<open>The snapshot comes in the order in which Go ranges over the map.\<close>

definition Peers :: "((string \<times> Peer) list \<Rightarrow> (string \<times> Peer) list) \<Rightarrow> 'cb membership \<Rightarrow> Peer list" where
  "Peers ord m = map snd (ord (peers m))"

definition AlivePeers :: "((string \<times> Peer) list \<Rightarrow> (string \<times> Peer) list) \<Rightarrow> 'cb membership \<Rightarrow> Peer list" where
  "AlivePeers ord m = filter (\<lambda>p. peer_State p = StateAlive) (Peers ord m)"

text \<open>
  The answer to a health check: an error or the status code of a response, which is what
  \<^verbatim>\<open>pingPeer\<close> makes of it.
\<close>

type_synonym http_result = "go_error + nat"

definition healthy :: "http_result \<Rightarrow> bool" where
  "healthy resp \<longleftrightarrow> resp = Inr 200"

text \<open>
  The part of \<^verbatim>\<open>pingPeer\<close> that holds the lock. \<open>now\<close> is the clock reading of
  that part.
\<close>

definition ping_update ::
  "string \<Rightarrow> http_result \<Rightarrow> instant \<Rightarrow> 'cb membership \<Rightarrow> 'cb membership \<times> ('cb \<times> string) list" where
  "ping_update cid resp now m =
     (case gm_get (peers m) cid of
        None \<Rightarrow> (m, [])
      | Some p \<Rightarrow>
          (let prevState = peer_State p;
               since = time_sub now (LastHeartbeat p);
               p' = (if healthy resp then p\<lparr>LastHeartbeat := now, peer_State := StateAlive\<rparr>
                     else if since \<ge> deadAfter m then p\<lparr>peer_State := StateDead\<rparr>
                     else if since \<ge> suspectAfter m then p\<lparr>peer_State := StateSuspect\<rparr>
                     else p);
               dead = (if prevState \<noteq> StateDead \<and> peer_State p' = StateDead
                       then map (\<lambda>fn. (fn, cid)) (onDead m) else []);
               alive = (if prevState = StateDead \<and> peer_State p' = StateAlive
                        then map (\<lambda>fn. (fn, cid)) (onAlive m) else [])
           in (m\<lparr>peers := gm_set (peers m) cid p'\<rparr>, dead @ alive)))"

text \<open>
  \<^verbatim>\<open>pingPeer\<close>: \<open>probe\<close> answers the request to the peer's address.
\<close>

definition pingPeer ::
  "(string \<Rightarrow> http_result) \<Rightarrow> instant \<Rightarrow> string \<Rightarrow> 'cb membership \<Rightarrow> 'cb membership \<times> ('cb \<times> string) list" where
  "pingPeer probe now cid m =
     (case gm_get (peers m) cid of
        None \<Rightarrow> (m, [])
      | Some peer \<Rightarrow> ping_update cid (probe (''http://'' @ Addr peer @ ''/healthz'')) now m)"

fun ping_all ::
  "(string \<Rightarrow> http_result) \<Rightarrow> (string \<Rightarrow> instant) \<Rightarrow> string list \<Rightarrow> 'cb membership
     \<Rightarrow> 'cb membership \<times> ('cb \<times> string) list" where
  "ping_all probe clock [] m = (m, [])"
| "ping_all probe clock (cid # ids) m =
     (let (m1, f1) = pingPeer probe (clock cid) cid m; (m2, f2) = ping_all probe clock ids m1
      in (m2, f1 @ f2))"

text \<open>
  One round: the goroutines it starts for the peers enter their locked parts in the order
  \<open>sched\<close>, some permutation of the IDs, the ping of a peer at the time \<open>clock\<close> gives.
\<close>

definition heartbeatRound ::
  "(string \<Rightarrow> http_result) \<Rightarrow> (string \<Rightarrow> instant) \<Rightarrow> (string list \<Rightarrow> string list) \<Rightarrow> 'cb membership
     \<Rightarrow> 'cb membership \<times> ('cb \<times> string) list" where
  "heartbeatRound probe clock sched m = ping_all probe clock (sched (gm_keys (peers m))) m"

definition MarkAliveManually :: "string \<Rightarrow> instant \<Rightarrow> 'cb membership \<Rightarrow> 'cb membership" where
  "MarkAliveManually cid now m =
     (case gm_get (peers m) cid of
        None \<Rightarrow> m
      | Some p \<Rightarrow> m\<lparr>peers := gm_set (peers m) cid (p\<lparr>peer_State := StateAlive, LastHeartbeat := now\<rparr>)\<rparr>)"

section \<open>Operations on one entry\<close>

text \<open>What a locked part of a ping does to the entry of its peer, and whom it notifies.\<close>

definition ping_entry :: "'cb membership \<Rightarrow> http_result \<Rightarrow> instant \<Rightarrow> Peer \<Rightarrow> Peer" where
  "ping_entry m resp now p =
     (if healthy resp then p\<lparr>LastHeartbeat := now, peer_State := StateAlive\<rparr>
      else if time_sub now (LastHeartbeat p) \<ge> deadAfter m then p\<lparr>peer_State := StateDead\<rparr>
      else if time_sub now (LastHeartbeat p) \<ge> suspectAfter m then p\<lparr>peer_State := StateSuspect\<rparr>
      else p)"

definition transition_calls :: "'cb membership \<Rightarrow> State \<Rightarrow> State \<Rightarrow> string \<Rightarrow> ('cb \<times> string) list" where
  "transition_calls m s s' cid =
     (if s \<noteq> StateDead \<and> s' = StateDead then map (\<lambda>fn. (fn, cid)) (onDead m)
      else if s = StateDead \<and> s' = StateAlive then map (\<lambda>fn. (fn, cid)) (onAlive m) else [])"

lemma ping_update_unknown: "gm_get (peers m) cid = None \<Longrightarrow> ping_update cid resp now m = (m, [])"
  by (simp add: ping_update_def)

lemma ping_update_known:
  "gm_get (peers m) cid = Some p \<Longrightarrow> ping_update cid resp now m =
     (m\<lparr>peers := gm_set (peers m) cid (ping_entry m resp now p)\<rparr>,
      transition_calls m (peer_State p) (peer_State (ping_entry m resp now p)) cid)"
  by (simp add: ping_update_def ping_entry_def transition_calls_def Let_def)

lemma ping_update_frame:
  "self (fst (ping_update cid resp now m)) = self m"
  "suspectAfter (fst (ping_update cid resp now m)) = suspectAfter m"
  "deadAfter (fst (ping_update cid resp now m)) = deadAfter m"
  "onDead (fst (ping_update cid resp now m)) = onDead m"
  "onAlive (fst (ping_update cid resp now m)) = onAlive m"
  "k \<noteq> cid \<Longrightarrow> gm_get (peers (fst (ping_update cid resp now m))) k = gm_get (peers m) k"
  "gm_ok (peers m) \<Longrightarrow> gm_ok (peers (fst (ping_update cid resp now m)))"
  by (cases "gm_get (peers m) cid"; simp add: ping_update_unknown ping_update_known gomap_simps)+

lemma ping_update_entry:
  "gm_get (peers (fst (ping_update cid resp now m))) cid = map_option (ping_entry m resp now) (gm_get (peers m) cid)"
  by (cases "gm_get (peers m) cid") (simp_all add: ping_update_unknown ping_update_known gomap_simps)

lemma ping_entry_frame [simp]:
  "peer_ID (ping_entry m resp now p) = peer_ID p" "Addr (ping_entry m resp now p) = Addr p"
  by (simp_all add: ping_entry_def)

lemma ping_update_other_calls: "x \<in> set (snd (ping_update cid resp now m)) \<Longrightarrow> snd x = cid"
  by (cases "gm_get (peers m) cid")
     (auto simp: ping_update_unknown ping_update_known transition_calls_def split: if_splits)

lemmas ping_simps = ping_update_frame ping_update_entry

lemma time_sub_ge: "u \<le> t \<Longrightarrow> 0 \<le> k \<Longrightarrow> k \<le> 9 * Second \<Longrightarrow> k \<le> time_sub t u \<longleftrightarrow> k \<le> t - u"
  by (auto simp: time_sub_def Second_def)

section \<open>Histories\<close>

text \<open>
  The critical sections of the table, in the order in which they get the lock, with their clock
  readings; the callbacks are registered before.
\<close>

datatype event =
    EvAdd string string instant
  | EvPing string http_result instant
  | EvMark string instant

fun ev_time :: "event \<Rightarrow> instant" where
  "ev_time (EvAdd cid addr t) = t"
| "ev_time (EvPing cid resp t) = t"
| "ev_time (EvMark cid t) = t"

fun m_step :: "event \<Rightarrow> 'cb membership \<Rightarrow> 'cb membership \<times> ('cb \<times> string) list" where
  "m_step (EvAdd cid addr t) m = (AddPeer cid addr t m, [])"
| "m_step (EvPing cid resp t) m = ping_update cid resp t m"
| "m_step (EvMark cid t) m = (MarkAliveManually cid t m, [])"

fun m_run :: "event list \<Rightarrow> 'cb membership \<Rightarrow> 'cb membership \<times> ('cb \<times> string) list" where
  "m_run [] m = (m, [])"
| "m_run (e # es) m = (let (m1, f1) = m_step e m; (m2, f2) = m_run es m1 in (m2, f1 @ f2))"

lemma m_run_Cons:
  "m_run (e # es) m = (fst (m_run es (fst (m_step e m))), snd (m_step e m) @ snd (m_run es (fst (m_step e m))))"
  by (simp add: Let_def split: prod.splits)

declare m_run.simps(2) [simp del]

lemma m_run_append:
  "m_run (es @ es') m = (fst (m_run es' (fst (m_run es m))), snd (m_run es m) @ snd (m_run es' (fst (m_run es m))))"
  by (induction es arbitrary: m) (simp_all add: m_run_Cons)

text \<open>
  The abstract history of one peer: the address it was first added with, the last contact (the
  registration, an answered ping or a manual mark), and the last failed ping since. It has no
  state machine; the state is read off it.
\<close>

record history =
  h_addr :: string
  h_contact :: instant
  h_failed :: "instant option"

fun hist_step :: "string \<Rightarrow> event \<Rightarrow> history option \<Rightarrow> history option" where
  "hist_step cid (EvAdd k addr t) h =
     (if k = cid \<and> h = None then Some \<lparr>h_addr = addr, h_contact = t, h_failed = None\<rparr> else h)"
| "hist_step cid (EvPing k resp t) h =
     (if k \<noteq> cid then h
      else if healthy resp then map_option (\<lambda>x. x\<lparr>h_contact := t, h_failed := None\<rparr>) h
      else map_option (\<lambda>x. x\<lparr>h_failed := Some t\<rparr>) h)"
| "hist_step cid (EvMark k t) h =
     (if k \<noteq> cid then h else map_option (\<lambda>x. x\<lparr>h_contact := t, h_failed := None\<rparr>) h)"

definition history_of :: "string \<Rightarrow> event list \<Rightarrow> history option" where
  "history_of cid es = fold (hist_step cid) es None"

definition classify :: "duration \<Rightarrow> State" where
  "classify d = (if d \<ge> 9 * Second then StateDead else if d \<ge> 3 * Second then StateSuspect else StateAlive)"

definition h_state :: "history \<Rightarrow> State" where
  "h_state h = (case h_failed h of None \<Rightarrow> StateAlive | Some t \<Rightarrow> classify (t - h_contact h))"

definition entry_of_history :: "string \<Rightarrow> history \<Rightarrow> Peer" where
  "entry_of_history cid h =
     \<lparr>peer_ID = cid, Addr = h_addr h, peer_State = h_state h, LastHeartbeat = h_contact h\<rparr>"

lemma classify_mono: "d \<le> d' \<Longrightarrow> classify d \<le> classify d'"
  by (auto simp: classify_def Second_def less_eq_State_def)

definition h_before :: "instant \<Rightarrow> history option \<Rightarrow> bool" where
  "h_before now h \<longleftrightarrow> (case h of None \<Rightarrow> True | Some x \<Rightarrow> h_contact x \<le> now \<and>
     (case h_failed x of None \<Rightarrow> True | Some t \<Rightarrow> h_contact x \<le> t \<and> t \<le> now))"

text \<open>The relation between the table and the histories of all peers.\<close>

definition m_sim :: "instant \<Rightarrow> (string \<Rightarrow> history option) \<Rightarrow> 'cb membership \<Rightarrow> bool" where
  "m_sim now H m \<longleftrightarrow> gm_ok (peers m) \<and> suspectAfter m = 3 * Second \<and> deadAfter m = 9 * Second
     \<and> gm_get (peers m) (peer_ID (self m)) = None
     \<and> (\<forall>cid. cid \<noteq> peer_ID (self m) \<longrightarrow>
          gm_get (peers m) cid = map_option (entry_of_history cid) (H cid) \<and> h_before now (H cid))"

lemma h_before_mono: "h_before now h \<Longrightarrow> now \<le> now' \<Longrightarrow> h_before now' h"
  by (auto simp: h_before_def split: option.splits)

lemma ping_entry_history:
  assumes "suspectAfter m = 3 * Second" "deadAfter m = 9 * Second" "h_before t (Some h)"
  shows "ping_entry m resp t (entry_of_history cid h)
    = entry_of_history cid (if healthy resp then h\<lparr>h_contact := t, h_failed := None\<rparr> else h\<lparr>h_failed := Some t\<rparr>)"
proof -
  have c: "h_contact h \<le> t" using assms(3) by (simp add: h_before_def)
  have ge: "3 * Second \<le> time_sub t (h_contact h) \<longleftrightarrow> 3 * Second \<le> t - h_contact h"
    "9 * Second \<le> time_sub t (h_contact h) \<longleftrightarrow> 9 * Second \<le> t - h_contact h"
    using c by (simp_all add: time_sub_ge Second_def)
  have small: "h_state h = StateAlive" if "t - h_contact h < 3 * Second"
  proof (cases "h_failed h")
    case (Some f)
    with assms(3) have "f - h_contact h \<le> t - h_contact h" by (simp add: h_before_def)
    with Some that show ?thesis by (simp add: h_state_def classify_def Second_def)
  qed (simp add: h_state_def)
  show ?thesis
    using assms(1,2) ge small
    by (auto simp: ping_entry_def entry_of_history_def h_state_def classify_def Second_def)
qed

lemma m_sim_step:
  assumes sim: "m_sim now H m" and t: "now \<le> ev_time e"
  shows "m_sim (ev_time e) (\<lambda>cid. hist_step cid e (H cid)) (fst (m_step e m)) \<and> self (fst (m_step e m)) = self m"
proof -
  have before: "h_before (ev_time e) (H cid)" if "cid \<noteq> peer_ID (self m)" for cid
    using sim t that h_before_mono unfolding m_sim_def by blast
  note S = sim [unfolded m_sim_def]
  show ?thesis
  proof (cases e)
    case (EvAdd k addr t)
    with S before show ?thesis
      by (auto simp: m_sim_def AddPeer_def gomap_simps entry_of_history_def h_state_def h_before_def split: option.splits)
  next
    case (EvPing k resp t)
    have entry: "gm_get (peers (fst (ping_update k resp t m))) cid
        = map_option (entry_of_history cid) (hist_step cid e (H cid)) \<and> h_before t (hist_step cid e (H cid))"
      if ne: "cid \<noteq> peer_ID (self m)" for cid
    proof (cases "k = cid")
      case True
      show ?thesis
      proof (cases "H cid")
        case None
        with True ne S EvPing show ?thesis by (simp add: ping_simps h_before_def)
      next
        case (Some h)
        with before [OF ne] EvPing have "h_before t (Some h)" by simp
        with ping_entry_history [of m t h resp cid] Some True ne S EvPing show ?thesis
          by (simp add: ping_simps h_before_def split: option.splits)
      qed
    next
      case False
      with ne S before [OF ne] EvPing show ?thesis by (simp add: ping_simps)
    qed
    have "gm_get (peers (fst (ping_update k resp t m))) (peer_ID (self m)) = None"
      using S by (cases "k = peer_ID (self m)") (simp_all add: ping_simps)
    with entry S EvPing show ?thesis by (simp add: m_sim_def ping_simps)
  next
    case (EvMark k t)
    have mark: "gm_get (peers (MarkAliveManually k t m)) cid
        = (if cid = k then map_option (\<lambda>p. p\<lparr>peer_State := StateAlive, LastHeartbeat := t\<rparr>) (gm_get (peers m) k)
           else gm_get (peers m) cid)"
      "self (MarkAliveManually k t m) = self m" "suspectAfter (MarkAliveManually k t m) = suspectAfter m"
      "deadAfter (MarkAliveManually k t m) = deadAfter m"
      "gm_ok (peers m) \<Longrightarrow> gm_ok (peers (MarkAliveManually k t m))" for cid
      by (cases "gm_get (peers m) k"; simp add: MarkAliveManually_def gomap_simps)+
    have hist: "map_option (\<lambda>p. p\<lparr>peer_State := StateAlive, LastHeartbeat := t\<rparr>) (map_option (entry_of_history k) h)
        = map_option (entry_of_history k) (map_option (\<lambda>x. x\<lparr>h_contact := t, h_failed := None\<rparr>) h)"
      "h_before t (map_option (\<lambda>x. x\<lparr>h_contact := t, h_failed := None\<rparr>) h)" for h
      by (cases h; simp add: entry_of_history_def h_state_def h_before_def)+
    show ?thesis using S before EvMark by (auto simp: m_sim_def mark hist)
  qed
qed

lemma m_sim_run:
  assumes "m_sim now H m" and "sorted (now # map ev_time es)"
  shows "m_sim (last (now # map ev_time es)) (\<lambda>cid. fold (hist_step cid) es (H cid)) (fst (m_run es m))
    \<and> self (fst (m_run es m)) = self m"
  using assms
proof (induction es arbitrary: now H m)
  case (Cons e es)
  note S = m_sim_step [OF Cons.prems(1), of e]
  have le: "now \<le> ev_time e" using Cons.prems(2) by simp
  have srt: "sorted (ev_time e # map ev_time es)" using Cons.prems(2) by simp
  from Cons.IH [OF conjunct1 [OF S [OF le]] srt] S [OF le] show ?case
    by (simp add: m_run_Cons)
qed simp

section \<open>Notifications\<close>

definition calls_for :: "string \<Rightarrow> ('cb \<times> string) list \<Rightarrow> ('cb \<times> string) list" where
  "calls_for cid fired = filter (\<lambda>x. snd x = cid) fired"

definition state_of :: "'cb membership \<Rightarrow> string \<Rightarrow> State option" where
  "state_of m cid = map_option peer_State (gm_get (peers m) cid)"

lemma calls_for_append [simp]: "calls_for cid (a @ b) = calls_for cid a @ calls_for cid b"
  by (simp add: calls_for_def)

lemma calls_for_transition [simp]:
  "calls_for cid (transition_calls m s s' k) = (if k = cid then transition_calls m s s' cid else [])"
  by (simp add: calls_for_def transition_calls_def)

lemma m_step_callbacks [simp]:
  "onDead (fst (m_step e m)) = onDead m" "onAlive (fst (m_step e m)) = onAlive m"
  by (cases e; simp add: AddPeer_def MarkAliveManually_def ping_simps split: option.splits)+

lemma transition_calls_cong:
  "onDead m = onDead m' \<Longrightarrow> onAlive m = onAlive m' \<Longrightarrow> transition_calls m = transition_calls m'"
  by (simp add: transition_calls_def fun_eq_iff)

lemma m_step_calls:
  assumes "\<forall>t. e \<noteq> EvMark cid t"
  shows "calls_for cid (snd (m_step e m)) =
      (case (state_of m cid, state_of (fst (m_step e m)) cid) of
         (Some s, Some s') \<Rightarrow> transition_calls m s s' cid
       | _ \<Rightarrow> [])
    \<and> (state_of m cid = None \<longrightarrow> state_of (fst (m_step e m)) cid \<in> {None, Some StateAlive})
    \<and> (state_of m cid \<noteq> None \<longrightarrow> state_of (fst (m_step e m)) cid \<noteq> None)"
proof (cases e)
  case (EvAdd k addr t)
  then show ?thesis
    by (auto simp: state_of_def AddPeer_def gomap_simps calls_for_def transition_calls_def split: option.splits)
next
  case (EvPing k resp t)
  then show ?thesis
  proof (cases "gm_get (peers m) k")
    case None
    with EvPing show ?thesis
      by (auto simp: ping_update_unknown state_of_def calls_for_def transition_calls_def split: option.splits)
  next
    case (Some p)
    with EvPing show ?thesis
      by (cases "k = cid")
         (auto simp: ping_update_known state_of_def gomap_simps transition_calls_def calls_for_def split: option.splits)
  qed
next
  case (EvMark k t)
  then have "k \<noteq> cid" using assms by simp
  with EvMark show ?thesis
    by (cases "gm_get (peers m) k")
       (auto simp: MarkAliveManually_def state_of_def calls_for_def transition_calls_def gomap_simps split: option.splits)
qed

text \<open>The calls a peer's life causes: down, up, down, ... each time every registered callback.\<close>

fun alternating :: "'cb membership \<Rightarrow> string \<Rightarrow> nat \<Rightarrow> ('cb \<times> string) list" where
  "alternating m cid 0 = []"
| "alternating m cid (Suc n) =
     alternating m cid n @ map (\<lambda>fn. (fn, cid)) (if even n then onDead m else onAlive m)"

lemma alternating_cong:
  "onDead m = onDead m' \<Longrightarrow> onAlive m = onAlive m' \<Longrightarrow> alternating m cid n = alternating m' cid n"
  by (induction n) auto

lemma m_run_callbacks [simp]:
  "onDead (fst (m_run es m)) = onDead m" "onAlive (fst (m_run es m)) = onAlive m"
  by (induction es arbitrary: m) (simp_all add: m_run_Cons)

text \<open>With a clock that does not go back, a dead peer never becomes suspect again.\<close>

lemma dead_not_suspect:
  assumes sim: "m_sim now H m" and t: "now \<le> ev_time e" and d: "state_of m cid = Some StateDead"
  shows "state_of (fst (m_step e m)) cid \<in> {Some StateDead, Some StateAlive}"
proof -
  have ne: "cid \<noteq> peer_ID (self m)" using sim d by (auto simp: m_sim_def state_of_def)
  note S = m_sim_step [OF sim t]
  from sim ne d obtain h where h: "H cid = Some h" "h_state h = StateDead" "h_before now (Some h)"
    by (auto simp: m_sim_def state_of_def entry_of_history_def)
  then obtain f where f: "h_failed h = Some f" "9 * Second \<le> f - h_contact h" "f \<le> now"
    by (auto simp: h_state_def h_before_def classify_def split: option.splits if_splits)
  have "state_of (fst (m_step e m)) cid = map_option h_state (hist_step cid e (H cid))"
    using S ne by (simp add: m_sim_def state_of_def entry_of_history_def option.map_comp comp_def)
  moreover have "map_option h_state (hist_step cid e (Some h)) \<in> {Some StateDead, Some StateAlive}"
    using f t h(2) by (cases e) (auto simp: h_state_def classify_def)
  ultimately show ?thesis using h by simp
qed

lemma m_step_outcomes:
  assumes "m_sim now H m" and "now \<le> ev_time e" and "\<forall>t. e \<noteq> EvMark cid t"
  obtains (same) "(state_of m cid = Some StateDead) = (state_of (fst (m_step e m)) cid = Some StateDead)"
      "calls_for cid (snd (m_step e m)) = []"
    | (down) "state_of m cid \<noteq> Some StateDead" "state_of (fst (m_step e m)) cid = Some StateDead"
        "calls_for cid (snd (m_step e m)) = map (\<lambda>fn. (fn, cid)) (onDead m)"
    | (up) "state_of m cid = Some StateDead" "state_of (fst (m_step e m)) cid = Some StateAlive"
        "calls_for cid (snd (m_step e m)) = map (\<lambda>fn. (fn, cid)) (onAlive m)"
  using m_step_calls [OF assms(3), of m] dead_not_suspect [OF assms(1,2), of cid]
  by (cases "state_of m cid"; cases "state_of (fst (m_step e m)) cid";
      cases "the (state_of m cid)"; cases "the (state_of (fst (m_step e m)) cid)")
     (auto simp: transition_calls_def)

lemma sorted_snoc_time:
  "sorted (now # map ev_time (es @ [e])) \<Longrightarrow>
     sorted (now # map ev_time es) \<and> last (now # map ev_time es) \<le> ev_time e"
  by (auto simp: sorted_append last_map)

lemma m_run_alternating:
  assumes "m_sim now H m" and "sorted (now # map ev_time es)"
    and "\<forall>t. EvMark cid t \<notin> set es" and "state_of m cid \<noteq> Some StateDead"
  shows "\<exists>n. calls_for cid (snd (m_run es m)) = alternating m cid n
    \<and> (odd n \<longleftrightarrow> state_of (fst (m_run es m)) cid = Some StateDead)"
  using assms(2,3)
proof (induction es rule: rev_induct)
  case Nil
  show ?case using assms(4) by (intro exI [where x = 0]) (simp add: calls_for_def)
next
  case (snoc e es)
  let ?m = "fst (m_run es m)"
  note T = sorted_snoc_time [OF snoc.prems(1)]
  from snoc T obtain n where n: "calls_for cid (snd (m_run es m)) = alternating m cid n"
    "odd n \<longleftrightarrow> state_of ?m cid = Some StateDead" by auto
  have run: "calls_for cid (snd (m_run (es @ [e]) m)) = alternating m cid n @ calls_for cid (snd (m_step e ?m))"
    "fst (m_run (es @ [e]) m) = fst (m_step e ?m)"
    using n(1) by (simp_all add: m_run_append m_run_Cons)
  have "\<forall>t. e \<noteq> EvMark cid t" using snoc.prems by auto
  with conjunct1 [OF m_sim_run [OF assms(1) conjunct1 [OF T]]] conjunct2 [OF T] show ?case
  proof (cases rule: m_step_outcomes)
    case same
    with n(2) run show ?thesis by (intro exI [where x = n]) auto
  next
    case down
    with n(2) run show ?thesis by (intro exI [where x = "Suc n"]) auto
  next
    case up
    with n(2) run show ?thesis by (intro exI [where x = "Suc n"]) auto
  qed
qed

section \<open>Runs from a fresh table\<close>

definition registered :: "string \<Rightarrow> string \<Rightarrow> instant \<Rightarrow> 'cb list \<Rightarrow> 'cb list \<Rightarrow> 'cb membership" where
  "registered selfID addr t dead alive =
     fold OnNodeAlive alive (fold OnNodeDead dead (membership_New selfID addr t))"

lemma fold_OnNodeDead: "fold OnNodeDead fns m = m\<lparr>onDead := onDead m @ fns\<rparr>"
  by (induction fns arbitrary: m) (auto simp: OnNodeDead_def)

lemma fold_OnNodeAlive: "fold OnNodeAlive fns m = m\<lparr>onAlive := onAlive m @ fns\<rparr>"
  by (induction fns arbitrary: m) (auto simp: OnNodeAlive_def)

lemma registered_eq:
  "registered selfID addr t dead alive = (membership_New selfID addr t)\<lparr>onDead := dead, onAlive := alive\<rparr>"
  by (simp add: registered_def fold_OnNodeDead fold_OnNodeAlive membership_New_def)

lemma registered_sim: "m_sim t (\<lambda>cid. None) (registered selfID addr t dead alive)"
  by (simp add: m_sim_def registered_eq membership_New_def h_before_def gomap_simps)

lemma registered_fields [simp]:
  "peer_ID (self (registered selfID addr t dead alive)) = selfID"
  "onDead (registered selfID addr t dead alive) = dead"
  "onAlive (registered selfID addr t dead alive) = alive"
  "state_of (registered selfID addr t dead alive) cid = None"
  by (simp_all add: registered_eq membership_New_def state_of_def gomap_simps)

text \<open>Events that count as contact with a peer.\<close>

fun contact :: "string \<Rightarrow> event \<Rightarrow> bool" where
  "contact cid (EvAdd k addr t) = False"
| "contact cid (EvPing k resp t) = (k = cid \<and> healthy resp)"
| "contact cid (EvMark k t) = (k = cid)"

definition late_ping :: "string \<Rightarrow> instant \<Rightarrow> event list \<Rightarrow> bool" where
  "late_ping cid c es \<longleftrightarrow> (\<exists>resp t. EvPing cid resp t \<in> set es \<and> c + 9 * Second \<le> t)"

lemma late_ping_snoc:
  "late_ping cid c (es @ [e]) \<longleftrightarrow> late_ping cid c es
     \<or> (case e of EvPing k resp t \<Rightarrow> k = cid \<and> c + 9 * Second \<le> t | _ \<Rightarrow> False)"
  by (cases e) (auto simp: late_ping_def)

lemma dead_iff_late_ping:
  assumes sim: "m_sim now H m" and h: "H cid = Some h" "cid \<noteq> peer_ID (self m)"
    and "sorted (now # map ev_time es)" and "\<forall>e \<in> set es. \<not> contact cid e"
  shows "\<exists>h'. fold (hist_step cid) es (H cid) = Some h' \<and> h_contact h' = h_contact h
    \<and> (h_state h' = StateDead \<longleftrightarrow> h_state h = StateDead \<or> late_ping cid (h_contact h) es)"
  using assms(4,5)
proof (induction es rule: rev_induct)
  case Nil
  then show ?case using h by (simp add: late_ping_def)
next
  case (snoc e es)
  note T = sorted_snoc_time [OF snoc.prems(1)]
  with snoc obtain h' where h': "fold (hist_step cid) es (H cid) = Some h'" "h_contact h' = h_contact h"
    "h_state h' = StateDead \<longleftrightarrow> h_state h = StateDead \<or> late_ping cid (h_contact h) es" by auto
  note S = conjunct1 [OF m_sim_run [OF sim conjunct1 [OF T]]]
  have b: "h_before (last (now # map ev_time es)) (Some h')"
    using S h(2) m_sim_run [OF sim conjunct1 [OF T]] h'(1) unfolding m_sim_def by metis
  have stay: "classify (ev_time e - h_contact h) = StateDead" if "h_state h' = StateDead"
  proof -
    from that obtain f where f: "h_failed h' = Some f" "classify (f - h_contact h) = StateDead"
      using h'(2) by (auto simp: h_state_def split: option.splits)
    then have "f \<le> ev_time e" using b T by (simp add: h_before_def)
    with f(2) show ?thesis using classify_mono [of "f - h_contact h" "ev_time e - h_contact h"] by simp
  qed
  have nc: "\<not> contact cid e" using snoc.prems by simp
  show ?case
  proof (cases "\<exists>resp t. e = EvPing cid resp t")
    case True
    then obtain resp t where e: "e = EvPing cid resp t" by blast
    have late: "late_ping cid (h_contact h) (es @ [e])
        \<longleftrightarrow> late_ping cid (h_contact h) es \<or> classify (t - h_contact h) = StateDead"
      by (auto simp: late_ping_snoc e classify_def Second_def)
    have "fold (hist_step cid) (es @ [e]) (H cid) = Some (h'\<lparr>h_failed := Some t\<rparr>)"
      using h'(1) nc by (simp add: e)
    with late stay h' e show ?thesis by (auto simp: h_state_def)
  next
    case False
    then have "hist_step cid e (Some h') = Some h'" using nc by (cases e) auto
    moreover have "late_ping cid (h_contact h) (es @ [e]) \<longleftrightarrow> late_ping cid (h_contact h) es"
      using False by (cases e) (auto simp: late_ping_snoc)
    ultimately show ?thesis using h' by simp
  qed
qed

lemma state_of_sim:
  "m_sim now H m \<Longrightarrow> cid \<noteq> peer_ID (self m) \<Longrightarrow> state_of m cid = map_option h_state (H cid)"
  by (simp add: m_sim_def state_of_def entry_of_history_def option.map_comp comp_def)

lemma failing_run_calls:
  assumes sim: "m_sim now H m" and h: "H cid = Some h" "cid \<noteq> peer_ID (self m)" "h_state h \<noteq> StateDead"
    and "sorted (now # map ev_time es)" and "\<forall>e \<in> set es. \<not> contact cid e"
  shows "calls_for cid (snd (m_run es m))
      = (if late_ping cid (h_contact h) es then map (\<lambda>fn. (fn, cid)) (onDead m) else [])"
  using assms(5,6)
proof (induction es rule: rev_induct)
  case Nil
  then show ?case by (simp add: late_ping_def calls_for_def)
next
  case (snoc e es)
  let ?m = "fst (m_run es m)"
  note T = sorted_snoc_time [OF snoc.prems(1)]
  have nc: "\<forall>e \<in> set es. \<not> contact cid e" "\<forall>t. e \<noteq> EvMark cid t" using snoc.prems by auto
  note S = m_sim_run [OF sim conjunct1 [OF T]]
  have dead: "state_of (fst (m_run es' m)) cid = Some StateDead \<longleftrightarrow> late_ping cid (h_contact h) es'"
    if "sorted (now # map ev_time es')" "\<forall>e \<in> set es'. \<not> contact cid e" for es'
    using dead_iff_late_ping [OF sim h(1,2) that] h(3) m_sim_run [OF sim that(1)]
      state_of_sim [OF conjunct1 [OF m_sim_run [OF sim that(1)]], of cid] h(2) by auto
  note D1 = dead [OF conjunct1 [OF T] nc(1)] and D2 = dead [OF snoc.prems]
  have run: "calls_for cid (snd (m_run (es @ [e]) m)) = calls_for cid (snd (m_run es m)) @ calls_for cid (snd (m_step e ?m))"
    "fst (m_run (es @ [e]) m) = fst (m_step e ?m)"
    by (simp_all add: m_run_append m_run_Cons)
  note IH = snoc.IH [OF conjunct1 [OF T] nc(1)]
  from conjunct1 [OF S] conjunct2 [OF T] nc(2) show ?case
  proof (cases rule: m_step_outcomes [where cid = cid])
    case same
    with run IH D1 D2 show ?thesis by simp
  next
    case down
    with run IH D1 D2 show ?thesis by simp
  next
    case up
    then have "late_ping cid (h_contact h) es" "\<not> late_ping cid (h_contact h) (es @ [e])"
      using D1 D2 run by simp_all
    then show ?thesis by (auto simp: late_ping_def)
  qed
qed

lemma history_of_eq: "fold (hist_step cid) es None = history_of cid es"
  by (simp add: history_of_def)

lemma m_run_registered:
  assumes "sorted (t0 # map ev_time es)"
  shows "m_sim (last (t0 # map ev_time es)) (\<lambda>cid. history_of cid es)
      (fst (m_run es (registered selfID addr t0 dead alive)))
    \<and> peer_ID (self (fst (m_run es (registered selfID addr t0 dead alive)))) = selfID"
  using m_sim_run [OF registered_sim [of t0 selfID addr dead alive] assms]
  by (auto simp only: history_of_def registered_fields(1))

section \<open>Properties\<close>

text \<open>
  C25. The peer table is a function of the history. On every run with a clock that does not go back,
  the entry of a peer carries the address of its first registration, the time of the last contact,
  and a state that is alive when nothing failed since that contact and otherwise the
  classification (3 s suspect, 9 s dead) of the time from the contact to the last failed ping;
  the node itself is never a peer.
\<close>

theorem peer_table_from_history:
  assumes "sorted (t0 # map ev_time es)"
  shows "gm_get (peers (fst (m_run es (registered selfID addr t0 dead alive)))) cid
    = (if cid = selfID then None
       else case history_of cid es of None \<Rightarrow> None
         | Some h \<Rightarrow> Some \<lparr>peer_ID = cid, Addr = h_addr h,
             peer_State = (case h_failed h of None \<Rightarrow> StateAlive | Some f \<Rightarrow> classify (f - h_contact h)),
             LastHeartbeat = h_contact h\<rparr>)"
  using m_run_registered [OF assms, of selfID addr dead alive]
  by (auto simp: m_sim_def entry_of_history_def h_state_def split: option.splits)

definition sample_events :: "event list" where
  "sample_events =
     [EvAdd ''n2'' ''h2:80'' 0, EvAdd ''self'' ''h1:80'' 0, EvPing ''n2'' (Inr 200) (1 * Second),
      EvPing ''n2'' (Inl (Failure ''refused'')) (5 * Second), EvPing ''n2'' (Inr 503) (11 * Second)]"

lemma peer_table_from_history_witness:
  "gm_get (peers (fst (m_run sample_events (registered ''self'' ''h1:80'' 0 [True] [False])))) ''n2''
   = Some \<lparr>peer_ID = ''n2'', Addr = ''h2:80'', peer_State = StateDead, LastHeartbeat = 1 * Second\<rparr>"
proof -
  have "sorted (0 # map ev_time sample_events)" by (simp add: sample_events_def Second_def)
  from peer_table_from_history [OF this, of "''self''" "''h1:80''" "[True]" "[False]" "''n2''"] show ?thesis
    by (simp add: sample_events_def history_of_def healthy_def classify_def Second_def)
qed

text \<open>
  C15. Failure detection is exact. From a point of a run where a peer is not dead, and as long as it
  has no contact, the dead callbacks are started, each once, if and only if one of its pings fails
  9 s or more after its last contact; no other callback is started for it. A peer that was in
  contact less than 9 s ago is never declared dead, and one that stays silent is declared dead by
  the first ping after that time.
\<close>

theorem failure_detection_exact:
  fixes dead alive :: "'cb list" and addr selfID :: string
  assumes "sorted (t0 # map ev_time (pre @ post))" and "cid \<noteq> selfID"
    and "history_of cid pre = Some h" and "h_state h \<noteq> StateDead"
    and "\<forall>e \<in> set post. \<not> contact cid e"
  defines "m \<equiv> fst (m_run pre (registered selfID addr t0 dead alive))"
  shows "calls_for cid (snd (m_run post m))
      = (if late_ping cid (h_contact h) post then map (\<lambda>fn. (fn, cid)) dead else [])
    \<and> (state_of (fst (m_run post m)) cid = Some StateDead \<longleftrightarrow> late_ping cid (h_contact h) post)"
proof -
  have pre: "sorted (t0 # map ev_time pre)" using assms(1) by (simp add: sorted_append)
  note S = m_run_registered [OF pre, of selfID addr dead alive, folded m_def]
  have post: "sorted (last (t0 # map ev_time pre) # map ev_time post)"
    using assms(1) by (auto simp: sorted_append last_map)
  have ne: "cid \<noteq> peer_ID (self m)" using S assms(2) by simp
  have "onDead m = dead" by (simp add: m_def)
  moreover have "state_of (fst (m_run post m)) cid = Some StateDead \<longleftrightarrow> late_ping cid (h_contact h) post"
    using dead_iff_late_ping [where H = "\<lambda>cid. history_of cid pre", OF conjunct1 [OF S] assms(3) ne post assms(5)]
      state_of_sim [OF conjunct1 [OF m_sim_run [OF conjunct1 [OF S] post]], of cid]
      m_sim_run [OF conjunct1 [OF S] post] ne assms(4) by auto
  ultimately show ?thesis
    using failing_run_calls [where H = "\<lambda>cid. history_of cid pre", OF conjunct1 [OF S] assms(3) ne assms(4) post assms(5)]
    by simp
qed

lemma failure_detection_exact_witness:
  "snd (m_run [EvPing ''n2'' (Inr 503) (9 * Second - 1), EvPing ''n2'' (Inr 503) (10 * Second), EvPing ''n2'' (Inr 503) (12 * Second)]
     (fst (m_run [EvAdd ''n2'' ''h2:80'' 0] (registered ''self'' ''h1:80'' 0 [True] [False])))) = [(True, ''n2'')]"
  (is "snd (m_run ?post (fst (m_run ?pre _))) = _")
proof -
  have late: "late_ping ''n2'' 0 ?post"
    unfolding late_ping_def by (intro exI [where x = "Inr 503"] exI [where x = "10 * Second"]) (simp add: Second_def)
  have "calls_for ''n2'' (snd (m_run ?post (fst (m_run ?pre (registered ''self'' ''h1:80'' 0 [True] [False])))))
      = [(True, ''n2'')]"
    using failure_detection_exact [of 0 ?pre ?post "''n2''" "''self''" "\<lparr>h_addr = ''h2:80'', h_contact = 0, h_failed = None\<rparr>"
        "''h1:80''" "[True]" "[False]"] late
    by (simp add: history_of_def healthy_def h_state_def Second_def)
  moreover have "calls_for ''n2'' fired = fired" if "set fired \<subseteq> UNIV \<times> {''n2''}" for fired :: "(bool \<times> string) list"
    using that by (auto simp: calls_for_def filter_id_conv)
  moreover have "set (snd (m_run ?post m)) \<subseteq> UNIV \<times> {''n2''}" for m :: "bool membership"
    by (auto simp: m_run_Cons dest!: ping_update_other_calls)
  ultimately show ?thesis by metis
qed

text \<open>
  The callbacks of a peer alternate: every run without manual marks starts, for each peer,
  first all dead callbacks, then all alive callbacks, then the dead ones again, and so on, each
  registered one once per transition; the last started were the dead ones exactly when the
  table says the peer is dead.
\<close>

lemma callbacks_alternate:
  fixes dead alive :: "'cb list" and addr selfID :: string
  assumes "sorted (t0 # map ev_time es)" and "\<forall>t. EvMark cid t \<notin> set es"
  defines "m \<equiv> registered selfID addr t0 dead alive"
  shows "\<exists>n. calls_for cid (snd (m_run es m))
      = concat (map (\<lambda>i. map (\<lambda>fn. (fn, cid)) (if even i then dead else alive)) [0..<n])
    \<and> (odd n \<longleftrightarrow> state_of (fst (m_run es m)) cid = Some StateDead)"
proof -
  have alt: "alternating m cid n = concat (map (\<lambda>i. map (\<lambda>fn. (fn, cid)) (if even i then dead else alive)) [0..<n])" for n
    by (induction n) (auto simp: m_def)
  have "state_of m cid \<noteq> Some StateDead" by (simp add: m_def)
  from m_run_alternating [OF registered_sim [of t0 selfID addr dead alive, folded m_def] assms(1,2) this] show ?thesis
    by (simp only: alt)
qed

lemma callbacks_alternate_witness:
  "\<exists>n. calls_for ''n2'' (snd (m_run sample_events (registered ''self'' ''h1:80'' 0 [True] [False])))
     = concat (map (\<lambda>i. map (\<lambda>fn. (fn, ''n2'')) (if even i then [True] else [False])) [0..<n])"
  using callbacks_alternate [of 0 sample_events "''n2''" "''self''" "''h1:80''" "[True]" "[False]"]
  by (simp add: sample_events_def Second_def) blast

text \<open>
  A heartbeat round does not depend on how its concurrent pings interleave: whatever the order in
  which they take the lock, each peer ends up as if it had been pinged alone, and the same
  callbacks are started the same number of times.
\<close>

lemma heartbeatRound_interleaving:
  assumes "gm_ok (peers m)" and "range_order sched"
  shows "gm_get (peers (fst (heartbeatRound probe clock sched m))) cid
      = gm_get (peers (fst (pingPeer probe (clock cid) cid m))) cid
    \<and> mset (snd (heartbeatRound probe clock sched m))
      = mset (concat (map (\<lambda>k. snd (pingPeer probe (clock k) k m)) (gm_keys (peers m))))"
proof -
  have same: "snd (pingPeer probe t k m1) = snd (pingPeer probe t k m)
      \<and> gm_get (peers (fst (pingPeer probe t k m1))) k = gm_get (peers (fst (pingPeer probe t k m))) k"
    if "gm_get (peers m1) k = gm_get (peers m) k" "onDead m1 = onDead m" "onAlive m1 = onAlive m"
      "deadAfter m1 = deadAfter m" "suspectAfter m1 = suspectAfter m" for t k m1
    using that
    by (cases "gm_get (peers m) k")
       (auto simp: pingPeer_def ping_update_known gomap_simps ping_entry_def transition_calls_def)
  have run: "gm_get (peers (fst (ping_all probe clock ids m1))) k
        = (if k \<in> set ids then gm_get (peers (fst (pingPeer probe (clock k) k m))) k else gm_get (peers m1) k)
      \<and> snd (ping_all probe clock ids m1) = concat (map (\<lambda>k. snd (pingPeer probe (clock k) k m)) ids)"
    if "distinct ids" "\<forall>k \<in> set ids. gm_get (peers m1) k = gm_get (peers m) k" "onDead m1 = onDead m"
      "onAlive m1 = onAlive m" "deadAfter m1 = deadAfter m" "suspectAfter m1 = suspectAfter m" for ids m1 k
    using that
  proof (induction ids arbitrary: m1)
    case (Cons j ids)
    let ?m2 = "fst (pingPeer probe (clock j) j m1)"
    have fr: "onDead ?m2 = onDead m" "onAlive ?m2 = onAlive m" "deadAfter ?m2 = deadAfter m" "suspectAfter ?m2 = suspectAfter m"
      "k \<noteq> j \<Longrightarrow> gm_get (peers ?m2) k = gm_get (peers m1) k" for k
      using Cons.prems by (auto simp: pingPeer_def ping_simps split: option.splits)
    have "\<forall>k \<in> set ids. gm_get (peers ?m2) k = gm_get (peers m) k"
      using fr(5) Cons.prems(1,2) by (metis distinct.simps(2) list.set_intros(2))
    with Cons.IH [of ?m2] Cons.prems(1) fr
    have IH: "gm_get (peers (fst (ping_all probe clock ids ?m2))) k
        = (if k \<in> set ids then gm_get (peers (fst (pingPeer probe (clock k) k m))) k else gm_get (peers ?m2) k)"
      "snd (ping_all probe clock ids ?m2) = concat (map (\<lambda>k. snd (pingPeer probe (clock k) k m)) ids)" by simp_all
    have s: "snd (pingPeer probe (clock j) j m1) = snd (pingPeer probe (clock j) j m)"
      "gm_get (peers ?m2) j = gm_get (peers (fst (pingPeer probe (clock j) j m))) j"
      using same [of m1 j] Cons.prems by simp_all
    show ?case using IH s fr(5) [of k] Cons.prems(1) by (cases "k = j") (auto simp: Let_def split_beta)
  qed simp
  have ids: "distinct (sched (gm_keys (peers m)))" "set (sched (gm_keys (peers m))) = set (gm_keys (peers m))"
    using assms by (simp_all add: range_order_distinct range_order_set distinct_gm_keys)
  have perm: "mset (sched (gm_keys (peers m))) = mset (gm_keys (peers m))"
    using assms(2) by (simp add: range_order_def)
  have cong: "mset (concat (map f xs)) = mset (concat (map f ys))" if "mset xs = mset ys"
    for xs ys :: "string list" and f :: "string \<Rightarrow> ('a \<times> string) list"
  proof -
    have "mset (concat (map f xs)) = sum_mset (image_mset (\<lambda>x. mset (f x)) (mset xs))" for xs by (induction xs) auto
    then show ?thesis by (simp add: that)
  qed
  have none: "gm_get (peers m) cid = gm_get (peers (fst (pingPeer probe (clock cid) cid m))) cid"
    if "cid \<notin> set (gm_keys (peers m))"
    using that gm_get_eq_None [of "peers m" cid] by (simp add: pingPeer_def)
  show ?thesis
    using run [OF ids(1), of m cid] ids(2) none cong [OF perm] by (auto simp: heartbeatRound_def)
qed

definition sample_membership :: "bool membership" where
  "sample_membership = AddPeer ''n3'' ''h3:80'' 0 (AddPeer ''n2'' ''h2:80'' 0 (registered ''self'' ''h1:80'' 0 [True] [False]))"

lemma heartbeatRound_interleaving_witness:
  "mset (snd (heartbeatRound (\<lambda>a. Inr 503) (\<lambda>k. 9 * Second) rev sample_membership))
   = {#(True, ''n2''), (True, ''n3'')#}"
proof -
  have "gm_ok (peers sample_membership)"
    by (simp add: sample_membership_def AddPeer_def registered_eq membership_New_def gomap_simps)
  from heartbeatRound_interleaving [OF this range_order_rev, of "\<lambda>a. Inr 503" "\<lambda>k. 9 * Second"]
  show ?thesis
    by (simp add: sample_membership_def AddPeer_def registered_eq membership_New_def gm_set_def gm_get_def gm_keys_def
        pingPeer_def ping_update_def healthy_def time_sub_def Second_def)
qed

text \<open>
  A manual mark hides a revival: after it a dead peer is alive in the table, and no ping
  that finds it healthy starts the alive callbacks any more, whereas without the mark the first
  such ping would start them all. The node that was taken out of the ring is not put back.
\<close>

lemma MarkAliveManually_hides_revival:
  fixes t :: instant
  assumes "gm_get (peers m) cid = Some p" and "peer_State p = StateDead"
  defines "m1 \<equiv> MarkAliveManually cid t m"
  shows "state_of m1 cid = Some StateAlive
    \<and> snd (ping_update cid (Inr 200) t' m1) = []
    \<and> snd (ping_update cid (Inr 200) t' m) = map (\<lambda>fn. (fn, cid)) (onAlive m)"
  using assms(1,2)
  by (simp add: m1_def MarkAliveManually_def ping_update_known gomap_simps state_of_def ping_entry_def healthy_def
      transition_calls_def)

lemma MarkAliveManually_hides_revival_witness:
  "let m = fst (ping_update ''n2'' (Inr 503) (9 * Second) sample_membership)
   in snd (ping_update ''n2'' (Inr 200) (11 * Second) (MarkAliveManually ''n2'' (10 * Second) m)) = []"
proof -
  let ?m = "fst (ping_update ''n2'' (Inr 503) (9 * Second) sample_membership)"
  have "gm_get (peers ?m) ''n2'' = Some \<lparr>peer_ID = ''n2'', Addr = ''h2:80'', peer_State = StateDead, LastHeartbeat = 0\<rparr>"
    by (simp add: sample_membership_def AddPeer_def registered_eq membership_New_def gm_set_def gm_get_def
        ping_update_def healthy_def time_sub_def Second_def)
  from MarkAliveManually_hides_revival [OF this] show ?thesis by (simp add: Let_def)
qed

end
