(* ===== verification/Heartbeat.thy ===== *)
theory Heartbeat
  imports Membership
begin

text \<open>
  The heartbeat goroutines of \<^verbatim>\<open>internal/cluster/membership.go\<close>: Start, Stop, the
  ticker loop and its rounds of concurrent pings as a step relation, and what Stop guarantees.
\<close>

section \<open>The loop\<close>

text \<open>
  A goroutine started by Start waits in its select, is in a round, or has returned. In a round the
  list holds the peers whose ping has not yet had its locked part. \<open>ticked\<close> is the tick in the
  channel of the ticker, which holds one.
\<close>

datatype activity = Waiting | Pinging "string list" | Returned

record beater =
  act :: activity
  ticked :: bool

record 'cb heart =
  h_ms :: "'cb membership"
  h_loops :: "beater list"
  h_stopped :: bool
  h_clock :: instant

definition membership_Start :: "'cb heart \<Rightarrow> 'cb heart" where
  "membership_Start h = h\<lparr>h_loops := h_loops h @ [\<lparr>act = Waiting, ticked = False\<rparr>]\<rparr>"

text \<open>Closing the stop channel a second time panics: \<open>None\<close>.\<close>

definition membership_Stop :: "'cb heart \<Rightarrow> 'cb heart option" where
  "membership_Stop h = (if h_stopped h then None else Some (h\<lparr>h_stopped := True\<rparr>))"

text \<open>The ticker of a loop that has not returned; a tick that finds the channel full is dropped.\<close>

inductive ticker_step :: "'cb heart \<Rightarrow> 'cb heart \<Rightarrow> bool" where
  tick: "i < length (h_loops h) \<Longrightarrow> act (h_loops h ! i) \<noteq> Returned \<Longrightarrow>
     ticker_step h (h\<lparr>h_loops := (h_loops h)[i := (h_loops h ! i)\<lparr>ticked := True\<rparr>]\<rparr>)"

text \<open>
  The steps of the loops, with the callbacks they start: a round takes a snapshot of the peers
  and starts a ping for each; a ping finishes, any of them next, at a clock reading that is not
  in the past; a round ends when all its pings have finished; and a waiting loop returns once
  the stop channel is closed. When a tick is there as well, the select takes either.
\<close>

inductive loop_step :: "'cb heart \<Rightarrow> ('cb \<times> string) list \<Rightarrow> 'cb heart \<Rightarrow> bool" where
  round_begin: "i < length (h_loops h) \<Longrightarrow> h_loops h ! i = \<lparr>act = Waiting, ticked = True\<rparr> \<Longrightarrow>
     loop_step h [] (h\<lparr>h_loops := (h_loops h)[i := \<lparr>act = Pinging (gm_keys (peers (h_ms h))), ticked = False\<rparr>]\<rparr>)"
| ping: "i < length (h_loops h) \<Longrightarrow> h_loops h ! i = \<lparr>act = Pinging (xs @ x # ys), ticked = b\<rparr> \<Longrightarrow> h_clock h \<le> t \<Longrightarrow>
     pingPeer probe t x (h_ms h) = (m', calls) \<Longrightarrow>
     loop_step h calls (h\<lparr>h_ms := m', h_loops := (h_loops h)[i := \<lparr>act = Pinging (xs @ ys), ticked = b\<rparr>], h_clock := t\<rparr>)"
| round_end: "i < length (h_loops h) \<Longrightarrow> h_loops h ! i = \<lparr>act = Pinging [], ticked = b\<rparr> \<Longrightarrow>
     loop_step h [] (h\<lparr>h_loops := (h_loops h)[i := \<lparr>act = Waiting, ticked = b\<rparr>]\<rparr>)"
| return: "i < length (h_loops h) \<Longrightarrow> h_loops h ! i = \<lparr>act = Waiting, ticked = b\<rparr> \<Longrightarrow> h_stopped h \<Longrightarrow>
     loop_step h [] (h\<lparr>h_loops := (h_loops h)[i := \<lparr>act = Returned, ticked = b\<rparr>]\<rparr>)"

inductive_cases loop_stepE: "loop_step h calls h'"

text \<open>
  Everything that happens to the membership: its loops and tickers, calls of Start and Stop, and the
  other operations on the table.
\<close>

inductive heart_reach :: "'cb membership \<Rightarrow> instant \<Rightarrow> 'cb heart \<Rightarrow> bool" for m0 t0 where
  new: "heart_reach m0 t0 \<lparr>h_ms = m0, h_loops = [], h_stopped = False, h_clock = t0\<rparr>"
| start: "heart_reach m0 t0 h \<Longrightarrow> heart_reach m0 t0 (membership_Start h)"
| stop: "heart_reach m0 t0 h \<Longrightarrow> membership_Stop h = Some h' \<Longrightarrow> heart_reach m0 t0 h'"
| ticker: "heart_reach m0 t0 h \<Longrightarrow> ticker_step h h' \<Longrightarrow> heart_reach m0 t0 h'"
| loop: "heart_reach m0 t0 h \<Longrightarrow> loop_step h calls h' \<Longrightarrow> heart_reach m0 t0 h'"
| table: "heart_reach m0 t0 h \<Longrightarrow> h_clock h \<le> ev_time e \<Longrightarrow>
     heart_reach m0 t0 (h\<lparr>h_ms := fst (m_step e (h_ms h)), h_clock := ev_time e\<rparr>)"

section \<open>How much is left to do\<close>

text \<open>What a step does to the table: nothing, or the locked part of one ping.\<close>

lemma pingPeer_update: "\<exists>r. pingPeer probe t x m = ping_update x r t m"
  by (cases "gm_get (peers m) x") (auto simp: pingPeer_def ping_update_unknown)

lemma loop_step_effect:
  assumes "loop_step h calls h'"
  shows "h_ms h' = h_ms h \<and> h_clock h' = h_clock h \<and> calls = []
    \<or> (\<exists>x r. h_clock h \<le> h_clock h' \<and> ping_update x r (h_clock h') (h_ms h) = (h_ms h', calls))"
  using assms
proof cases
  case (ping i xs x ys b t probe m')
  obtain r where "pingPeer probe t x (h_ms h) = ping_update x r t (h_ms h)" using pingPeer_update [of probe t x "h_ms h"] by blast
  with ping have "h_clock h \<le> h_clock h'" "ping_update x r (h_clock h') (h_ms h) = (h_ms h', calls)" by simp_all
  then show ?thesis by blast
qed simp_all

lemma gm_keys_overwrite: "k \<in> set (gm_keys m) \<Longrightarrow> gm_keys (gm_set m k v) = gm_keys m"
  by (simp add: gm_keys_def gm_set_def update_keys)

lemma pingPeer_keys [simp]: "gm_keys (peers (fst (pingPeer probe t x m))) = gm_keys (peers m)"
proof (cases "gm_get (peers m) x")
  case (Some p)
  then have "x \<in> set (gm_keys (peers m))" using gm_get_eq_None [of "peers m" x] by auto
  with Some show ?thesis by (simp add: pingPeer_def ping_update_known gm_keys_overwrite)
qed (simp add: pingPeer_def)

lemma pingPeer_runs_keys: "pingPeer probe t x m = (m', calls) \<Longrightarrow> gm_keys (peers m') = gm_keys (peers m)"
  using pingPeer_keys [of probe t x m] by simp

definition heart_keys :: "'cb heart \<Rightarrow> nat" where
  "heart_keys h = length (gm_keys (peers (h_ms h)))"

text \<open>The steps a loop can still take when no further tick arrives and \<open>k\<close> peers are known.\<close>

definition beater_load :: "nat \<Rightarrow> beater \<Rightarrow> nat" where
  "beater_load k b =
     (case act b of
        Returned \<Rightarrow> 0
      | Waiting \<Rightarrow> 1 + (if ticked b then k + 2 else 0)
      | Pinging ids \<Rightarrow> length ids + 2 + (if ticked b then k + 2 else 0))"

definition heart_load :: "'cb heart \<Rightarrow> nat" where
  "heart_load h = sum_list (map (beater_load (heart_keys h)) (h_loops h))"

lemma sum_list_update_less:
  fixes f :: "'a \<Rightarrow> nat"
  assumes "i < length xs" and "f y < f (xs ! i)"
  shows "sum_list (map f (xs[i := y])) < sum_list (map f xs)"
  using assms
proof (induction xs arbitrary: i)
  case (Cons x xs)
  then show ?case by (cases i) auto
qed simp

lemma loop_step_keys: "loop_step h calls h' \<Longrightarrow> heart_keys h' = heart_keys h \<and> h_stopped h' = h_stopped h"
  by (auto elim!: loop_stepE simp: heart_keys_def dest: pingPeer_runs_keys)

lemma loop_step_load:
  assumes "loop_step h calls h'"
  shows "heart_load h' < heart_load h"
proof -
  have k: "heart_keys h' = heart_keys h" using loop_step_keys [OF assms] by simp
  show ?thesis
    unfolding heart_load_def k
    using assms
    by (cases rule: loop_step.cases)
       (auto intro!: sum_list_update_less simp: beater_load_def heart_keys_def)
qed

lemma loop_steps_load:
  assumes "((\<lambda>a b. \<exists>calls. loop_step a calls b) ^^ n) h h'"
  shows "n + heart_load h' \<le> heart_load h \<and> h_stopped h' = h_stopped h"
  using assms
proof (induction n arbitrary: h')
  case (Suc n)
  then obtain h1 calls where h1: "((\<lambda>a b. \<exists>calls. loop_step a calls b) ^^ n) h h1" "loop_step h1 calls h'" by auto
  with Suc.IH [OF h1(1)] loop_step_load [OF h1(2)] loop_step_keys [OF h1(2)] show ?case by simp
qed simp

text \<open>A stopped loop that has not returned can go on.\<close>

lemma stopped_loop_moves:
  assumes "h_stopped h" and "b \<in> set (h_loops h)" and "act b \<noteq> Returned"
  shows "\<exists>calls h'. loop_step h calls h'"
proof -
  from assms(2) obtain i where i: "i < length (h_loops h)" "h_loops h ! i = \<lparr>act = act b, ticked = ticked b\<rparr>"
    by (auto simp: in_set_conv_nth)
  show ?thesis
  proof (cases "act b")
    case Waiting
    with i assms(1) loop_step.return [of i h] show ?thesis by metis
  next
    case (Pinging ids)
    show ?thesis
    proof (cases ids)
      case Nil
      with i Pinging loop_step.round_end [of i h] show ?thesis by metis
    next
      case (Cons x ids')
      obtain m' calls where "pingPeer (\<lambda>a. Inr 200) (h_clock h) x (h_ms h) = (m', calls)" by fastforce
      with i Pinging Cons loop_step.ping [of i h "[]" x ids' "ticked b" "h_clock h"] show ?thesis by fastforce
    qed
  next
    case Returned
    with assms(3) show ?thesis by simp
  qed
qed

section \<open>Invariant\<close>

text \<open>In a round the pings that are left are for different known peers.\<close>

definition heart_inv :: "'cb heart \<Rightarrow> bool" where
  "heart_inv h \<longleftrightarrow> gm_ok (peers (h_ms h))
     \<and> (\<forall>b \<in> set (h_loops h). \<forall>ids. act b = Pinging ids \<longrightarrow> distinct ids \<and> set ids \<subseteq> set (gm_keys (peers (h_ms h))))"

lemma heart_inv_update:
  assumes "heart_inv h" and "gm_ok (peers m')" and "set (gm_keys (peers (h_ms h))) \<subseteq> set (gm_keys (peers m'))"
    and "\<And>ids. act b = Pinging ids \<Longrightarrow> distinct ids \<and> set ids \<subseteq> set (gm_keys (peers m'))"
  shows "heart_inv (h\<lparr>h_ms := m', h_loops := (h_loops h)[i := b], h_clock := t\<rparr>)"
proof -
  have "distinct ids \<and> set ids \<subseteq> set (gm_keys (peers m'))" if c: "c \<in> set ((h_loops h)[i := b])" "act c = Pinging ids" for c ids
  proof -
    from c(1) have "c = b \<or> c \<in> set (h_loops h)" using set_update_subset_insert [of "h_loops h" i b] by blast
    then show ?thesis using assms(1,3,4) c(2) unfolding heart_inv_def by blast
  qed
  with assms(2) show ?thesis by (simp add: heart_inv_def)
qed

lemma heart_inv_loops:
  assumes "heart_inv h" and "\<And>ids. act b = Pinging ids \<Longrightarrow> distinct ids \<and> set ids \<subseteq> set (gm_keys (peers (h_ms h)))"
  shows "heart_inv (h\<lparr>h_loops := (h_loops h)[i := b]\<rparr>)"
proof -
  have "heart_inv (h\<lparr>h_ms := h_ms h, h_loops := (h_loops h)[i := b], h_clock := h_clock h\<rparr>)"
    using assms by (intro heart_inv_update) (simp_all add: heart_inv_def)
  then show ?thesis by (simp add: heart_inv_def)
qed

lemma loop_step_inv:
  assumes inv: "heart_inv h" and "loop_step h calls h'"
  shows "heart_inv h'"
  using assms(2)
proof cases
  case (round_begin i)
  have "gm_ok (peers (h_ms h))" using inv by (simp add: heart_inv_def)
  then show ?thesis unfolding round_begin(2) by (intro heart_inv_loops [OF inv]) (auto simp: distinct_gm_keys)
next
  case (ping i xs x ys b t probe m')
  from ping(2) have "h_loops h ! i \<in> set (h_loops h)" by simp
  with inv ping(3) have "distinct (xs @ x # ys)" "set (xs @ x # ys) \<subseteq> set (gm_keys (peers (h_ms h)))"
    unfolding heart_inv_def by (metis beater.select_convs(1))+
  moreover have keys: "gm_keys (peers m') = gm_keys (peers (h_ms h))" by (rule pingPeer_runs_keys [OF ping(5)])
  moreover have "gm_ok (peers m')" using inv keys by (simp add: heart_inv_def gm_ok_def gm_keys_def)
  ultimately show ?thesis unfolding ping(1) by (intro heart_inv_update [OF inv]) auto
next
  case (round_end i b)
  show ?thesis unfolding round_end(2) by (intro heart_inv_loops [OF inv]) auto
next
  case (return i b)
  show ?thesis unfolding return(2) by (intro heart_inv_loops [OF inv]) auto
qed

lemma ticker_step_inv: "heart_inv h \<Longrightarrow> ticker_step h h' \<Longrightarrow> heart_inv h'"
proof -
  assume inv: "heart_inv h" and "ticker_step h h'"
  then obtain i where i: "i < length (h_loops h)" "h' = h\<lparr>h_loops := (h_loops h)[i := (h_loops h ! i)\<lparr>ticked := True\<rparr>]\<rparr>"
    by (auto elim: ticker_step.cases)
  from i(1) have "h_loops h ! i \<in> set (h_loops h)" by simp
  with inv have "distinct ids \<and> set ids \<subseteq> set (gm_keys (peers (h_ms h)))" if "act (h_loops h ! i) = Pinging ids" for ids
    using that unfolding heart_inv_def by blast
  with inv show "heart_inv h'" unfolding i(2) by (intro heart_inv_loops) auto
qed

lemma m_step_keys:
  "set (gm_keys (peers m)) \<subseteq> set (gm_keys (peers (fst (m_step e m))))"
  "gm_ok (peers m) \<Longrightarrow> gm_ok (peers (fst (m_step e m)))"
  by (cases e; auto simp: AddPeer_def MarkAliveManually_def ping_update_def gomap_simps Let_def split: option.splits)+

lemma heart_reach_inv: "heart_reach m0 t0 h \<Longrightarrow> gm_ok (peers m0) \<Longrightarrow> heart_inv h"
proof (induction rule: heart_reach.induct)
  case (table h e)
  then have inv: "heart_inv h" by simp
  have "gm_ok (peers (fst (m_step e (h_ms h))))" using inv m_step_keys(2) by (auto simp: heart_inv_def)
  with inv m_step_keys(1) [of "h_ms h" e] show ?case by (fastforce simp: heart_inv_def)
next
  case (ticker h h')
  then show ?case using ticker_step_inv by blast
next
  case (loop h calls h')
  then show ?case using loop_step_inv by blast
next
  case (stop h h')
  then have "h' = h\<lparr>h_stopped := True\<rparr>" by (simp add: membership_Stop_def split: if_splits)
  with stop show ?case by (simp add: heart_inv_def)
next
  case (start h)
  then have inv: "heart_inv h" by simp
  then show ?case by (simp add: heart_inv_def membership_Start_def ball_Un)
qed (simp add: heart_inv_def)

lemma heart_load_bound:
  assumes "heart_inv h"
  shows "heart_load h \<le> length (h_loops h) * (2 * heart_keys h + 4)"
proof -
  have "beater_load (heart_keys h) b \<le> 2 * heart_keys h + 4" if b: "b \<in> set (h_loops h)" for b
  proof (cases "act b")
    case (Pinging ids)
    with assms b have "distinct ids" "set ids \<subseteq> set (gm_keys (peers (h_ms h)))" by (auto simp: heart_inv_def)
    then have "length ids \<le> heart_keys h"
      unfolding heart_keys_def by (metis card_length card_mono distinct_card dual_order.trans List.finite_set)
    with Pinging show ?thesis by (simp add: beater_load_def)
  qed (simp_all add: beater_load_def)
  then have "sum_list (map (beater_load (heart_keys h)) (h_loops h)) \<le> sum_list (map (\<lambda>b. 2 * heart_keys h + 4) (h_loops h))"
    by (rule sum_list_mono)
  then show ?thesis by (simp add: heart_load_def sum_list_triv)
qed

section \<open>One round\<close>

text \<open>Runs of the loops without further ticks, with the callbacks they start.\<close>

inductive loop_run :: "'cb heart \<Rightarrow> ('cb \<times> string) list \<Rightarrow> 'cb heart \<Rightarrow> bool" where
  none: "loop_run h [] h"
| more: "loop_run h calls h1 \<Longrightarrow> loop_step h1 calls' h2 \<Longrightarrow> loop_run h (calls @ calls') h2"

text \<open>
  The peers in \<open>D\<close> have each been pinged alone, the others not at all; \<open>resp\<close> and \<open>time\<close> give the
  answer to each ping and the clock reading of its locked part.
\<close>

definition pinged_alone ::
  "'cb membership \<Rightarrow> (string \<Rightarrow> http_result) \<Rightarrow> (string \<Rightarrow> instant) \<Rightarrow> string set
     \<Rightarrow> 'cb membership \<Rightarrow> ('cb \<times> string) list \<Rightarrow> bool" where
  "pinged_alone m resp time D m' calls \<longleftrightarrow>
     (\<forall>x. gm_get (peers m') x = (if x \<in> D then map_option (ping_entry m (resp x) (time x)) (gm_get (peers m) x)
                               else gm_get (peers m) x))
     \<and> mset calls = (\<Sum>x\<in>D. mset (snd (ping_update x (resp x) (time x) m)))
     \<and> suspectAfter m' = suspectAfter m \<and> deadAfter m' = deadAfter m \<and> onDead m' = onDead m \<and> onAlive m' = onAlive m"

lemma ping_update_cong:
  assumes "gm_get (peers m') x = gm_get (peers m) x" and "suspectAfter m' = suspectAfter m" and "deadAfter m' = deadAfter m"
    and "onDead m' = onDead m" and "onAlive m' = onAlive m"
  shows "snd (ping_update x r t m') = snd (ping_update x r t m)" and "ping_entry m' r t p = ping_entry m r t p"
  using assms
  by (cases "gm_get (peers m) x"; simp add: ping_update_known ping_update_unknown ping_entry_def transition_calls_def)+

lemma pinged_alone_ping:
  assumes P: "pinged_alone m resp time D m1 calls" and x: "x \<notin> D" "finite D"
    and run: "ping_update x r t m1 = (m2, calls')"
  shows "pinged_alone m (resp(x := r)) (time(x := t)) (insert x D) m2 (calls @ calls')"
proof -
  have m1: "gm_get (peers m1) x = gm_get (peers m) x" "suspectAfter m1 = suspectAfter m" "deadAfter m1 = deadAfter m"
    "onDead m1 = onDead m" "onAlive m1 = onAlive m" using P x(1) by (simp_all add: pinged_alone_def)
  have m2: "m2 = fst (ping_update x r t m1)" "calls' = snd (ping_update x r t m)"
    using run ping_update_cong(1) [OF m1, of r t] by simp_all
  have "(\<Sum>y\<in>D. mset (snd (ping_update y ((resp(x := r)) y) ((time(x := t)) y) m)))
      = (\<Sum>y\<in>D. mset (snd (ping_update y (resp y) (time y) m)))"
    using x(1) by (intro sum.cong) auto
  moreover have "gm_get (peers m2) y = (if y = x then map_option (ping_entry m r t) (gm_get (peers m) x) else gm_get (peers m1) y)" for y
    using ping_update_cong(2) [OF m1, of r t] m1(1) by (simp add: m2(1) ping_simps cong: map_option_cong)
  ultimately show ?thesis using P x unfolding pinged_alone_def m2 by (auto simp: ping_simps)
qed

text \<open>Where a run of a single loop stands that began with a tick: before its round, in it or after it.\<close>

definition in_round :: "'cb heart \<Rightarrow> ('cb \<times> string) list \<Rightarrow> 'cb heart \<Rightarrow> bool" where
  "in_round h0 calls h \<longleftrightarrow> (\<exists>resp time ids. distinct ids \<and> set ids \<subseteq> set (gm_keys (peers (h_ms h0)))
     \<and> (\<forall>x. h_clock h0 \<le> time x)
     \<and> pinged_alone (h_ms h0) resp time (set (gm_keys (peers (h_ms h0))) - set ids) (h_ms h) calls
     \<and> (h_loops h = [\<lparr>act = Pinging ids, ticked = False\<rparr>] \<or> ids = [] \<and> h_loops h = [\<lparr>act = Waiting, ticked = False\<rparr>]))"

lemma in_round_ping:
  assumes "in_round h0 calls h" and "h_clock h0 \<le> t" and "h_loops h = [\<lparr>act = Pinging (xs @ x # ys), ticked = b\<rparr>]"
    and "pingPeer probe t x (h_ms h) = (m', calls')"
  shows "in_round h0 (calls @ calls') (h\<lparr>h_ms := m', h_loops := [\<lparr>act = Pinging (xs @ ys), ticked = b\<rparr>], h_clock := t'\<rparr>)"
proof -
  let ?K = "set (gm_keys (peers (h_ms h0)))"
  from assms(1,3) obtain resp time where r: "distinct (xs @ x # ys)" "set (xs @ x # ys) \<subseteq> ?K" "\<forall>x. h_clock h0 \<le> time x"
    "pinged_alone (h_ms h0) resp time (?K - set (xs @ x # ys)) (h_ms h) calls" "b = False"
    by (auto simp: in_round_def)
  then have "gm_get (peers (h_ms h)) x = gm_get (peers (h_ms h0)) x" by (simp add: pinged_alone_def)
  moreover have "gm_get (peers (h_ms h0)) x \<noteq> None" using r(2) gm_get_eq_None [of "peers (h_ms h0)" x] by auto
  ultimately obtain p where "gm_get (peers (h_ms h)) x = Some p" by auto
  then have u: "ping_update x (probe (''http://'' @ Addr p @ ''/healthz'')) t (h_ms h) = (m', calls')"
    using assms(4) by (simp add: pingPeer_def)
  have D: "insert x (?K - set (xs @ x # ys)) = ?K - set (xs @ ys)" using r(1,2) by auto
  have "pinged_alone (h_ms h0) (resp(x := probe (''http://'' @ Addr p @ ''/healthz''))) (time(x := t)) (?K - set (xs @ ys)) m'
      (calls @ calls')"
    using pinged_alone_ping [OF r(4) _ _ u] unfolding D by simp
  moreover have "\<forall>y. h_clock h0 \<le> (time(x := t)) y" using r(3) assms(2) by simp
  moreover have "distinct (xs @ ys)" "set (xs @ ys) \<subseteq> ?K" using r(1,2) by auto
  ultimately show ?thesis
    unfolding in_round_def
    by (intro exI [of _ "resp(x := probe (''http://'' @ Addr p @ ''/healthz''))"] exI [of _ "time(x := t)"] exI [of _ "xs @ ys"])
       (simp add: r(5))
qed

lemma single_loop: "h_loops h = [b0] \<Longrightarrow> i < length (h_loops h) \<Longrightarrow> h_loops h ! i = b \<Longrightarrow> b0 = b \<and> (h_loops h)[i := c] = [c]"
  by simp

lemma loop_run_round:
  assumes "loop_run h0 calls h" and "h_loops h0 = [\<lparr>act = Waiting, ticked = True\<rparr>]" and "gm_ok (peers (h_ms h0))"
  shows "h_clock h0 \<le> h_clock h \<and> ((\<exists>b. h_loops h = [\<lparr>act = Returned, ticked = b\<rparr>])
    \<or> h_loops h = h_loops h0 \<and> h_ms h = h_ms h0 \<and> calls = [] \<or> in_round h0 calls h)"
  using assms
proof (induction rule: loop_run.induct)
  case (more h0 calls h1 calls' h2)
  then consider b where "h_loops h1 = [\<lparr>act = Returned, ticked = b\<rparr>]"
    | "h_loops h1 = [\<lparr>act = Waiting, ticked = True\<rparr>]" "h_ms h1 = h_ms h0" "calls = []" | "in_round h0 calls h1" by auto
  moreover have le: "h_clock h0 \<le> h_clock h1" using more by simp
  ultimately obtain b0 where one: "h_loops h1 = [b0]" by cases (auto simp: in_round_def)
  note L = single_loop [OF one]
  from more.hyps(2) show ?case
  proof cases
    case (round_begin i)
    then have h2: "h_loops h2 = [\<lparr>act = Pinging (gm_keys (peers (h_ms h1))), ticked = False\<rparr>]" "h_ms h2 = h_ms h1" "h_clock h2 = h_clock h1"
      and b0: "b0 = \<lparr>act = Waiting, ticked = True\<rparr>" using L [OF round_begin(3,4)] by auto
    with one more have "h_ms h1 = h_ms h0" "calls = []" by (auto simp: in_round_def)
    with h2 more.prems(2) have "in_round h0 [] h2"
      unfolding in_round_def by (auto simp: distinct_gm_keys pinged_alone_def intro!: exI [of _ "\<lambda>_. h_clock h0"])
    with round_begin le h2 \<open>calls = []\<close> show ?thesis by simp
  next
    case (ping i xs x ys b t probe m')
    then have b0: "b0 = \<lparr>act = Pinging (xs @ x # ys), ticked = b\<rparr>" using L [OF ping(2,3)] by auto
    with one more have r: "in_round h0 calls h1" by auto
    have "h_clock h0 \<le> t" using le ping(4) by simp
    from in_round_ping [OF r this _ ping(5), of xs ys b] one b0 L [OF ping(2,3)] this show ?thesis by (simp add: ping(1))
  next
    case (round_end i b)
    then have b0: "b0 = \<lparr>act = Pinging [], ticked = b\<rparr>" using L [OF round_end(3,4)] by auto
    with one more have r: "in_round h0 calls h1" by auto
    with one b0 L [OF round_end(3,4)] le show ?thesis by (auto simp: round_end in_round_def)
  next
    case (return i b)
    with L [OF return(3,4)] le show ?thesis by auto
  qed
qed simp

text \<open>Conversely, a round runs for any answers of the peers.\<close>

lemma loop_run_trans: "loop_run h1 calls' h2 \<Longrightarrow> loop_run h calls h1 \<Longrightarrow> loop_run h (calls @ calls') h2"
  by (induction rule: loop_run.induct) (auto simp flip: append_assoc intro: loop_run.more)

lemma loop_run_step: "loop_step h calls h' \<Longrightarrow> loop_run h calls h'"
  using loop_run.more [OF loop_run.none, of h calls h'] by simp

lemma pings_run:
  assumes "h_loops h = [\<lparr>act = Pinging ids, ticked = b\<rparr>]" and "h_clock h \<le> t"
    and "pinged_alone m resp (\<lambda>x. t) D (h_ms h) calls0" and "finite D" and "D \<inter> set ids = {}" and "distinct ids"
    and "set ids \<subseteq> dom (gm_get (peers m))"
  shows "\<exists>m' calls t'. loop_run h calls (h\<lparr>h_ms := m', h_loops := [\<lparr>act = Pinging [], ticked = b\<rparr>], h_clock := t'\<rparr>)
    \<and> t' \<le> t \<and> h_clock h \<le> t' \<and> pinged_alone m resp (\<lambda>x. t) (D \<union> set ids) m' (calls0 @ calls)"
  using assms
proof (induction ids arbitrary: h D calls0)
  case Nil
  then have "h\<lparr>h_loops := [\<lparr>act = Pinging [], ticked = b\<rparr>]\<rparr> = h" by (cases h) simp
  then have "loop_run h [] (h\<lparr>h_loops := [\<lparr>act = Pinging [], ticked = b\<rparr>]\<rparr>)" by (metis loop_run.none)
  with Nil show ?case
    by (intro exI [of _ "h_ms h"] exI [of _ "[]"] exI [of _ "h_clock h"]) simp
next
  case (Cons x ids)
  obtain m1 c1 where u: "ping_update x (resp x) t (h_ms h) = (m1, c1)" by fastforce
  have "gm_get (peers (h_ms h)) x = gm_get (peers m) x" using Cons.prems(3,5) by (simp add: pinged_alone_def)
  then obtain p where p: "gm_get (peers (h_ms h)) x = Some p" using Cons.prems(7) by auto
  let ?h1 = "h\<lparr>h_ms := m1, h_loops := [\<lparr>act = Pinging ids, ticked = b\<rparr>], h_clock := t\<rparr>"
  have s: "loop_step h c1 ?h1"
    using loop_step.ping [of 0 h "[]" x ids b t "\<lambda>a. resp x" m1 c1] Cons.prems(1,2) u p by (simp add: pingPeer_def)
  have P: "pinged_alone m resp (\<lambda>x. t) (insert x D) m1 (calls0 @ c1)"
    using pinged_alone_ping [OF Cons.prems(3) _ _ u] Cons.prems(4,5) by (simp add: fun_upd_idem)
  have "insert x D \<inter> set ids = {}" "set ids \<subseteq> dom (gm_get (peers m))" using Cons.prems(5,6,7) by auto
  from Cons.IH [of ?h1 "insert x D" "calls0 @ c1", OF _ _ _ _ this(1) _ this(2)] P Cons.prems(4,6) obtain m' calls t' where
    r: "loop_run ?h1 calls (h\<lparr>h_ms := m', h_loops := [\<lparr>act = Pinging [], ticked = b\<rparr>], h_clock := t'\<rparr>)" "t' \<le> t" "t \<le> t'"
      "pinged_alone m resp (\<lambda>x. t) (insert x D \<union> set ids) m' ((calls0 @ c1) @ calls)" by auto
  have "loop_run h (c1 @ calls) (h\<lparr>h_ms := m', h_loops := [\<lparr>act = Pinging [], ticked = b\<rparr>], h_clock := t'\<rparr>)"
    using loop_run_trans [OF r(1) loop_run_step [OF s]] .
  with r Cons.prems(2) show ?case by (intro exI [of _ m'] exI [of _ "c1 @ calls"] exI [of _ t']) simp
qed

lemma round_runs:
  assumes "h_loops h = [\<lparr>act = Waiting, ticked = True\<rparr>]" and "gm_ok (peers (h_ms h))" and "h_clock h \<le> t"
  shows "\<exists>m' calls t'. loop_run h calls (h\<lparr>h_ms := m', h_loops := [\<lparr>act = Waiting, ticked = False\<rparr>], h_clock := t'\<rparr>)
    \<and> t' \<le> t \<and> h_clock h \<le> t' \<and> pinged_alone (h_ms h) resp (\<lambda>x. t) (dom (gm_get (peers (h_ms h)))) m' calls"
proof -
  let ?ids = "gm_keys (peers (h_ms h))"
  let ?h1 = "h\<lparr>h_loops := [\<lparr>act = Pinging ?ids, ticked = False\<rparr>]\<rparr>"
  have s: "loop_step h [] ?h1" using loop_step.round_begin [of 0 h] assms(1) by simp
  have "pinged_alone (h_ms h) resp (\<lambda>x. t) {} (h_ms ?h1) []" by (simp add: pinged_alone_def)
  from pings_run [of ?h1 _ False, OF _ _ this] assms(2,3) obtain m' calls t' where
    r: "loop_run ?h1 calls (h\<lparr>h_ms := m', h_loops := [\<lparr>act = Pinging [], ticked = False\<rparr>], h_clock := t'\<rparr>)" "t' \<le> t" "h_clock h \<le> t'"
      "pinged_alone (h_ms h) resp (\<lambda>x. t) (dom (gm_get (peers (h_ms h)))) m' calls"
    by (auto simp: distinct_gm_keys gm_keys_dom)
  let ?h2 = "h\<lparr>h_ms := m', h_loops := [\<lparr>act = Pinging [], ticked = False\<rparr>], h_clock := t'\<rparr>"
  have "loop_step ?h2 [] (h\<lparr>h_ms := m', h_loops := [\<lparr>act = Waiting, ticked = False\<rparr>], h_clock := t'\<rparr>)"
    using loop_step.round_end [of 0 ?h2 False] by (cases h) simp
  from loop_run.more [OF loop_run_trans [OF r(1) loop_run_step [OF s]] this] r(2-) show ?thesis by fastforce
qed

section \<open>Properties\<close>



text \<open>
  C17. A heartbeat round pings every known peer exactly once, and its outcome does not depend on how the
  concurrent pings interleave. Run the loop from a tick to its next wait, with the pings taking
  the lock in any order: each peer ends up as if it alone had been pinged in the table before
  the round, and the callbacks started are those of these pings, each as often.
\<close>

theorem heartbeat_round:
  assumes "h_loops h = [\<lparr>act = Waiting, ticked = True\<rparr>]" and "gm_ok (peers (h_ms h))"
    and "loop_run h calls h'" and "h_loops h' = [\<lparr>act = Waiting, ticked = False\<rparr>]"
  shows "\<exists>resp time. (\<forall>x. h_clock h \<le> time x)
    \<and> (\<forall>x. gm_get (peers (h_ms h')) x = gm_get (peers (fst (ping_update x (resp x) (time x) (h_ms h)))) x)
    \<and> mset calls = (\<Sum>x \<in> dom (gm_get (peers (h_ms h))). mset (snd (ping_update x (resp x) (time x) (h_ms h))))"
proof -
  have "in_round h calls h'" using loop_run_round [OF assms(3,1,2)] assms(1,4) by auto
  with assms(4) obtain resp time where r: "\<forall>x. h_clock h \<le> time x"
    "pinged_alone (h_ms h) resp time (set (gm_keys (peers (h_ms h)))) (h_ms h') calls" by (auto simp: in_round_def)
  have "gm_get (peers (h_ms h')) x = gm_get (peers (fst (ping_update x (resp x) (time x) (h_ms h)))) x" for x
    using r(2) by (auto simp: pinged_alone_def ping_simps gm_keys_dom dom_def)
  moreover have "mset calls = (\<Sum>x \<in> dom (gm_get (peers (h_ms h))). mset (snd (ping_update x (resp x) (time x) (h_ms h))))"
    using r(2) by (simp add: pinged_alone_def gm_keys_dom)
  ultimately show ?thesis using r(1) by blast
qed

text \<open>A round over two peers.\<close>

lemma heartbeat_round_witness:
  "\<exists>calls h' resp time. loop_run \<lparr>h_ms = sample_membership, h_loops = [\<lparr>act = Waiting, ticked = True\<rparr>], h_stopped = False, h_clock = 0\<rparr> calls h'
     \<and> gm_get (peers (h_ms h')) ''n2'' = gm_get (peers (fst (ping_update ''n2'' (resp ''n2'') (time ''n2'') sample_membership))) ''n2''"
proof -
  let ?h = "\<lparr>h_ms = sample_membership, h_loops = [\<lparr>act = Waiting, ticked = True\<rparr>], h_stopped = False, h_clock = 0\<rparr>"
  have keys: "gm_keys (peers sample_membership) = [''n2'', ''n3'']"
    by (simp add: sample_membership_def AddPeer_def registered_eq membership_New_def gm_set_def gm_get_def gm_keys_def)
  obtain m1 c1 where p1: "pingPeer (\<lambda>a. Inr 503) 1 ''n2'' sample_membership = (m1, c1)" by fastforce
  obtain m2 c2 where p2: "pingPeer (\<lambda>a. Inr 503) 1 ''n3'' m1 = (m2, c2)" by fastforce
  let ?at = "\<lambda>m a t. \<lparr>h_ms = m, h_loops = [\<lparr>act = a, ticked = False\<rparr>], h_stopped = False, h_clock = t\<rparr>"
  have s1: "loop_step ?h [] (?at sample_membership (Pinging [''n2'', ''n3'']) 0)"
    using loop_step.round_begin [of 0 ?h] keys by simp
  have s2: "loop_step (?at sample_membership (Pinging [''n2'', ''n3'']) 0) c1 (?at m1 (Pinging [''n3'']) 1)"
    using loop_step.ping [of 0 "?at sample_membership (Pinging [''n2'', ''n3'']) 0" "[]" "''n2''" "[''n3'']" False 1] p1 by simp
  have s3: "loop_step (?at m1 (Pinging [''n3'']) 1) c2 (?at m2 (Pinging []) 1)"
    using loop_step.ping [of 0 "?at m1 (Pinging [''n3'']) 1" "[]" "''n3''" "[]" False 1] p2 by simp
  have s4: "loop_step (?at m2 (Pinging []) 1) [] (?at m2 Waiting 1)"
    using loop_step.round_end [of 0 "?at m2 (Pinging []) 1" False] by simp
  note run = loop_run.more [OF loop_run.more [OF loop_run.more [OF loop_run.more [OF loop_run.none s1] s2] s3] s4]
  have ok: "gm_ok (peers (h_ms ?h))"
    by (simp add: sample_membership_def AddPeer_def registered_eq membership_New_def gomap_simps)
  have "h_loops ?h = [\<lparr>act = Waiting, ticked = True\<rparr>]" "h_loops (?at m2 Waiting 1) = [\<lparr>act = Waiting, ticked = False\<rparr>]" by simp_all
  from heartbeat_round [OF this(1) ok run this(2)] obtain resp time where
    "\<forall>x. gm_get (peers (h_ms (?at m2 Waiting 1))) x = gm_get (peers (fst (ping_update x (resp x) (time x) (h_ms ?h)))) x"
    by (elim exE conjE)
  then have "gm_get (peers (h_ms (?at m2 Waiting 1))) ''n2''
      = gm_get (peers (fst (ping_update ''n2'' (resp ''n2'') (time ''n2'') sample_membership))) ''n2''"
    unfolding heart.select_convs by (rule spec)
  with run show ?thesis by (intro exI conjI)
qed



end
