(* ===== verification/Replication.thy ===== *)
theory Replication
  imports RingProperties Membership
begin

text \<open>
  Asynchronous replication, from \<^verbatim>\<open>internal/replication/replication.go\<close>: the jobs,
  the HTTP transport, the retry loop, the push of one chunk to its replica set, and the bounded
  queue with its workers as a step relation. The network and the timers are an environment over
  a world \<open>'w\<close>; instants and durations are those of the theory Membership.
\<close>

section \<open>Jobs and transports\<close>

definition Factor :: int where
  "Factor = 3"

record job =
  ChunkID :: string
  Data :: bytes

text \<open>
  What the engine does to the outside: a push to an address, and the wait between two attempts,
  which ends early (\<open>True\<close>) when the context is cancelled.
\<close>

record 'w env =
  PushChunk :: "string \<Rightarrow> string \<Rightarrow> bytes \<Rightarrow> 'w \<Rightarrow> go_error option \<times> 'w"
  Backoff :: "duration \<Rightarrow> 'w \<Rightarrow> bool \<times> 'w"

text \<open>
  The HTTP transport over a client: \<open>new_request\<close> is the check
  \<^verbatim>\<open>http.NewRequestWithContext\<close> makes of the URL, \<open>do\<close> sends the request and
  answers with a status code.
\<close>

record 'w http_client =
  new_request :: "string \<Rightarrow> string \<Rightarrow> go_error option"
  client_Do :: "string \<Rightarrow> string \<Rightarrow> bytes \<Rightarrow> 'w \<Rightarrow> http_result \<times> 'w"

definition chunk_url :: "string \<Rightarrow> string \<Rightarrow> string" where
  "chunk_url peerAddr chunkID = ''http://'' @ peerAddr @ ''/internal/chunks/'' @ chunkID"

definition HTTP_PushChunk ::
  "'w http_client \<Rightarrow> string \<Rightarrow> string \<Rightarrow> bytes \<Rightarrow> 'w \<Rightarrow> go_error option \<times> 'w" where
  "HTTP_PushChunk cl peerAddr chunkID data w =
     (let url = chunk_url peerAddr chunkID
      in case new_request cl ''PUT'' url of
           Some err \<Rightarrow> (Some err, w)
         | None \<Rightarrow>
             (case client_Do cl ''PUT'' url data w of
                (Inl err, w') \<Rightarrow> (Some err, w')
              | (Inr status, w') \<Rightarrow>
                  if status div 100 \<noteq> 2
                  then (Some (Failure (''replication: peer '' @ peerAddr @ '' rejected chunk '' @ chunkID
                          @ '': status '' @ fmt_d status)), w')
                  else (None, w')))"

section \<open>The engine\<close>

record engine =
  eng_selfID :: string
  eng_workers :: int
  maxRetries :: int
  retryBase :: duration

definition NewEngine :: "string \<Rightarrow> int \<Rightarrow> engine" where
  "NewEngine selfID workers =
     \<lparr>eng_selfID = selfID, eng_workers = (if workers \<le> 0 then 4 else workers), maxRetries = 5,
      retryBase = 200 * 1000000\<rparr>"

definition TargetsFor :: "(bytes \<Rightarrow> bytes) \<Rightarrow> ring \<Rightarrow> string \<Rightarrow> string list" where
  "TargetsFor sha1 r chunkID = GetN sha1 r chunkID Factor"

text \<open>How a push ended; the code only logs it.\<close>

datatype push_outcome = Pushed | Cancelled | GaveUp go_error

text \<open>
  The retry loop. The last error, when the loop has run out of attempts, is the one of the last
  attempt.
\<close>

function push_loop ::
  "engine \<Rightarrow> 'w env \<Rightarrow> string \<Rightarrow> job \<Rightarrow> int \<Rightarrow> go_error \<Rightarrow> 'w \<Rightarrow> push_outcome \<times> 'w" where
  "push_loop e env addr j attempt err w =
     (if attempt \<le> maxRetries e
      then
        (let (done, w1) =
           (if attempt > 0 then Backoff env (retryBase e * 2 ^ nat (attempt - 1)) w else (False, w))
         in if done then (Cancelled, w1)
            else case PushChunk env addr (ChunkID j) (Data j) w1 of
                   (None, w2) \<Rightarrow> (Pushed, w2)
                 | (Some err', w2) \<Rightarrow> push_loop e env addr j (attempt + 1) err' w2)
      else (GaveUp err, w))"
  by pat_completeness auto
termination
  by (relation "measure (\<lambda>(e, env, addr, j, attempt, err, w). nat (maxRetries e + 1 - attempt))") auto

declare push_loop.simps [simp del]

definition pushWithRetry :: "engine \<Rightarrow> 'w env \<Rightarrow> string \<Rightarrow> job \<Rightarrow> 'w \<Rightarrow> push_outcome \<times> 'w" where
  "pushWithRetry e env addr j w = push_loop e env addr j 0 (Failure '''') w"

text \<open>
  The loop of \<^verbatim>\<open>replicate\<close> over the targets; the result lists what happened to each:
  \<open>None\<close> for a target without an address.
\<close>

fun replicate_loop ::
  "engine \<Rightarrow> 'w env \<Rightarrow> (string \<Rightarrow> string \<times> bool) \<Rightarrow> job \<Rightarrow> string list \<Rightarrow> 'w
     \<Rightarrow> (string \<times> push_outcome option) list \<times> 'w" where
  "replicate_loop e env AddrFor j [] w = ([], w)"
| "replicate_loop e env AddrFor j (nodeID # targets) w =
     (if nodeID = eng_selfID e then replicate_loop e env AddrFor j targets w
      else
        (let (addr, ok) = AddrFor nodeID
         in if \<not> ok
            then (let (rest, w1) = replicate_loop e env AddrFor j targets w in ((nodeID, None) # rest, w1))
            else (let (res, w1) = pushWithRetry e env addr j w;
                      (rest, w2) = replicate_loop e env AddrFor j targets w1
                  in ((nodeID, Some res) # rest, w2))))"

definition replicate_job ::
  "(bytes \<Rightarrow> bytes) \<Rightarrow> engine \<Rightarrow> 'w env \<Rightarrow> (string \<Rightarrow> string \<times> bool) \<Rightarrow> ring \<Rightarrow> job \<Rightarrow> 'w
     \<Rightarrow> (string \<times> push_outcome option) list \<times> 'w" where
  "replicate_job sha1 e env AddrFor r j w = replicate_loop e env AddrFor j (GetN sha1 r (ChunkID j) Factor) w"

section \<open>The queue and its workers\<close>

definition queue_cap :: nat where
  "queue_cap = 1024"

text \<open>
  The workers that are up, each idle or busy with a job, the buffered channel, and the callers
  inside \<^verbatim>\<open>Enqueue\<close> whose send has not happened yet. \<open>accepted\<close> and \<open>finished\<close> record
  the jobs that entered the channel and those a worker is done with. \<open>panicked\<close> is a send on
  the closed channel, which ends the process when it is not recovered.
\<close>

datatype worker = Idle | Busy job | Exited

record pool =
  p_queue :: "job list"
  p_closed :: bool
  p_senders :: "job list"
  p_workers :: "worker list"
  p_panicked :: bool
  accepted :: "job list"
  finished :: "job list"

definition pool_Start :: "engine \<Rightarrow> pool" where
  "pool_Start e =
     \<lparr>p_queue = [], p_closed = False, p_senders = [], p_workers = replicate (nat (eng_workers e)) Idle,
      p_panicked = False, accepted = [], finished = []\<rparr>"

definition QueueDepth :: "pool \<Rightarrow> nat" where
  "QueueDepth p = length (p_queue p)"

text \<open>
  The steps: a caller enters Enqueue, its send goes through (room in the buffer) or panics
  (closed channel); an idle worker receives a job, a busy one finishes it, an idle one leaves
  its loop when the channel is closed and empty; Stop closes the channel.
\<close>

inductive pool_step :: "pool \<Rightarrow> pool \<Rightarrow> bool" where
  call: "\<not> p_panicked p \<Longrightarrow> pool_step p (p\<lparr>p_senders := p_senders p @ [j]\<rparr>)"
| send: "\<not> p_panicked p \<Longrightarrow> p_senders p = xs @ j # ys \<Longrightarrow> \<not> p_closed p \<Longrightarrow> length (p_queue p) < queue_cap \<Longrightarrow>
     pool_step p (p\<lparr>p_senders := xs @ ys, p_queue := p_queue p @ [j], accepted := accepted p @ [j]\<rparr>)"
| panic: "\<not> p_panicked p \<Longrightarrow> p_senders p \<noteq> [] \<Longrightarrow> p_closed p \<Longrightarrow> pool_step p (p\<lparr>p_panicked := True\<rparr>)"
| receive: "\<not> p_panicked p \<Longrightarrow> p_queue p = j # js \<Longrightarrow> i < length (p_workers p) \<Longrightarrow> p_workers p ! i = Idle \<Longrightarrow>
     pool_step p (p\<lparr>p_queue := js, p_workers := (p_workers p)[i := Busy j]\<rparr>)"
| finish: "\<not> p_panicked p \<Longrightarrow> i < length (p_workers p) \<Longrightarrow> p_workers p ! i = Busy j \<Longrightarrow>
     pool_step p (p\<lparr>p_workers := (p_workers p)[i := Idle], finished := finished p @ [j]\<rparr>)"
| leave: "\<not> p_panicked p \<Longrightarrow> p_closed p \<Longrightarrow> p_queue p = [] \<Longrightarrow> i < length (p_workers p) \<Longrightarrow>
     p_workers p ! i = Idle \<Longrightarrow> pool_step p (p\<lparr>p_workers := (p_workers p)[i := Exited]\<rparr>)"
| close: "\<not> p_panicked p \<Longrightarrow> \<not> p_closed p \<Longrightarrow> pool_step p (p\<lparr>p_closed := True\<rparr>)"

inductive pool_reach :: "engine \<Rightarrow> pool \<Rightarrow> bool" for e where
  start: "pool_reach e (pool_Start e)"
| step: "pool_reach e p \<Longrightarrow> pool_step p p' \<Longrightarrow> pool_reach e p'"

text \<open>\<^verbatim>\<open>Stop\<close> returns when every worker has left.\<close>

definition Stop_returns :: "pool \<Rightarrow> bool" where
  "Stop_returns p \<longleftrightarrow> p_closed p \<and> \<not> p_panicked p \<and> list_all (\<lambda>w. w = Exited) (p_workers p)"

section \<open>Attempts of one push\<close>

text \<open>
  An environment that follows a script: the outcome of the i-th push attempt and of the i-th wait of
  a run are given; the world is the log of what was done.
\<close>

datatype effect = Push string string bytes | Sleep duration

definition is_push :: "effect \<Rightarrow> bool" where
  "is_push x = (case x of Push a c d \<Rightarrow> True | Sleep d \<Rightarrow> False)"

definition pushes :: "effect list \<Rightarrow> nat" where
  "pushes log = length (filter is_push log)"

definition sleeps :: "effect list \<Rightarrow> nat" where
  "sleeps log = length (filter (\<lambda>x. \<not> is_push x) log)"

definition script_env :: "(nat \<Rightarrow> go_error option) \<Rightarrow> (nat \<Rightarrow> bool) \<Rightarrow> effect list env" where
  "script_env results cancels =
     \<lparr>PushChunk = (\<lambda>addr c d log. (results (pushes log), log @ [Push addr c d])),
      Backoff = (\<lambda>t log. (cancels (sleeps log), log @ [Sleep t]))\<rparr>"

text \<open>A first attempt and \<open>k\<close> further ones, each after its wait.\<close>

fun attempts :: "engine \<Rightarrow> string \<Rightarrow> job \<Rightarrow> nat \<Rightarrow> effect list" where
  "attempts e addr j 0 = [Push addr (ChunkID j) (Data j)]"
| "attempts e addr j (Suc k) =
     attempts e addr j k @ [Sleep (retryBase e * 2 ^ k), Push addr (ChunkID j) (Data j)]"

lemma counts_append [simp]:
  "pushes (a @ b) = pushes a + pushes b" "sleeps (a @ b) = sleeps a + sleeps b"
  "pushes [] = 0" "sleeps [] = 0"
  "pushes [Push addr c d] = 1" "sleeps [Push addr c d] = 0" "pushes [Sleep t] = 0" "sleeps [Sleep t] = 1"
  by (simp_all add: pushes_def sleeps_def is_push_def)

lemma counts_pair [simp]: "pushes [Sleep t, Push addr c d] = 1" "sleeps [Sleep t, Push addr c d] = 1"
  by (simp_all add: pushes_def sleeps_def is_push_def)

lemma counts_attempts [simp]: "pushes (attempts e addr j k) = Suc k" "sleeps (attempts e addr j k) = k"
  by (induction k) auto

text \<open>
  The outcomes of a push under a script, with the attempts and waits numbered from the
  beginning of this push.
\<close>

definition push_spec ::
  "engine \<Rightarrow> (nat \<Rightarrow> go_error option) \<Rightarrow> (nat \<Rightarrow> bool) \<Rightarrow> string \<Rightarrow> job \<Rightarrow> effect list \<Rightarrow> push_outcome \<Rightarrow> bool" where
  "push_spec e results cancels addr j done res \<longleftrightarrow>
     (case res of
        Pushed \<Rightarrow> \<exists>k. int k \<le> maxRetries e \<and> done = attempts e addr j k \<and> results k = None
          \<and> (\<forall>i < k. results i \<noteq> None) \<and> (\<forall>i < k. \<not> cancels i)
      | Cancelled \<Rightarrow> \<exists>k. int k < maxRetries e \<and> done = attempts e addr j k @ [Sleep (retryBase e * 2 ^ k)]
          \<and> (\<forall>i \<le> k. results i \<noteq> None) \<and> (\<forall>i < k. \<not> cancels i) \<and> cancels k
      | GaveUp err \<Rightarrow> \<exists>k. int k = maxRetries e \<and> done = attempts e addr j k \<and> results k = Some err
          \<and> (\<forall>i \<le> k. results i \<noteq> None) \<and> (\<forall>i < k. \<not> cancels i))"

lemma push_loop_retry:
  assumes "int k \<le> maxRetries e" and "results (p + k) = Some err" and "\<forall>i \<le> k. results (p + i) \<noteq> None"
    and "\<forall>i < k. \<not> cancels (s + i)" and "pushes log = p" and "sleeps log = s"
    and "push_loop e (script_env results cancels) addr j (int k + 1) err (log @ attempts e addr j k) = (res, log')"
  shows "\<exists>done. log' = log @ done \<and> push_spec e (\<lambda>i. results (p + i)) (\<lambda>i. cancels (s + i)) addr j done res"
  using assms
proof (induction "nat (maxRetries e - int k)" arbitrary: k err)
  case 0
  then have k: "int k = maxRetries e" by simp
  with 0 have "res = GaveUp err" "log' = log @ attempts e addr j k" by (simp_all add: push_loop.simps)
  with 0 k show ?case by (auto simp: push_spec_def)
next
  case (Suc n)
  then have lt: "int k < maxRetries e" by simp
  have two: "int (Suc k) + 1 = int k + 2" by simp
  let ?log = "log @ attempts e addr j k @ [Sleep (retryBase e * 2 ^ k)]"
  show ?case
  proof (cases "cancels (s + k)")
    case True
    then have "res = Cancelled" "log' = ?log"
      using Suc.prems lt by (simp_all add: push_loop.simps [of e _ _ _ "int k + 1"] script_env_def)
    with True Suc.prems lt show ?thesis by (auto simp: push_spec_def)
  next
    case False
    show ?thesis
    proof (cases "results (p + Suc k)")
      case None
      then have "res = Pushed" "log' = log @ attempts e addr j (Suc k)"
        using Suc.prems lt False by (simp_all add: push_loop.simps [of e _ _ _ "int k + 1"] script_env_def)
      moreover have "\<forall>i < Suc k. results (p + i) \<noteq> None" "\<forall>i < Suc k. \<not> cancels (s + i)"
        using Suc.prems False by (auto simp: less_Suc_eq)
      ultimately show ?thesis
        using None lt unfolding push_spec_def
        by (intro exI [where x = "attempts e addr j (Suc k)"]) (force intro: exI [where x = "Suc k"])
    next
      case (Some err')
      have "push_loop e (script_env results cancels) addr j (int (Suc k) + 1) err'
          (log @ attempts e addr j (Suc k)) = (res, log')"
        unfolding two using Suc.prems lt False Some
        by (simp add: push_loop.simps [of e _ _ _ "int k + 1"] script_env_def add.assoc)
      moreover have "n = nat (maxRetries e - int (Suc k))" using Suc.hyps(2) by simp
      moreover have "\<forall>i \<le> Suc k. results (p + i) \<noteq> None" "\<forall>i < Suc k. \<not> cancels (s + i)"
        using Suc.prems False Some by (auto simp: le_Suc_eq less_Suc_eq)
      ultimately show ?thesis using Suc.hyps(1) [of "Suc k" err'] lt Some Suc.prems(5,6) by simp
    qed
  qed
qed

lemma pushWithRetry_spec:
  assumes "0 \<le> maxRetries e"
    and "pushWithRetry e (script_env results cancels) addr j log = (res, log')"
  shows "\<exists>done. log' = log @ done
    \<and> push_spec e (\<lambda>i. results (pushes log + i)) (\<lambda>i. cancels (sleeps log + i)) addr j done res"
proof (cases "results (pushes log)")
  case None
  then have "res = Pushed" "log' = log @ attempts e addr j 0"
    using assms by (simp_all add: pushWithRetry_def push_loop.simps [of e _ _ _ 0] script_env_def)
  with None assms(1) show ?thesis by (force simp: push_spec_def intro: exI [where x = 0])
next
  case (Some err)
  have "push_loop e (script_env results cancels) addr j (int 0 + 1) err (log @ attempts e addr j 0) = (res, log')"
    using assms Some by (simp add: pushWithRetry_def push_loop.simps [of e _ _ _ 0] script_env_def)
  with push_loop_retry [of 0 e results "pushes log" err cancels "sleeps log"] assms(1) Some show ?thesis
    by simp
qed

section \<open>Pushing one chunk to its targets\<close>

definition pushed_to :: "effect list \<Rightarrow> string list" where
  "pushed_to log = concat (map (\<lambda>x. case x of Push a c d \<Rightarrow> [a] | Sleep t \<Rightarrow> []) log)"

lemma pushed_to_simps [simp]:
  "pushed_to (a @ b) = pushed_to a @ pushed_to b" "pushed_to [] = []"
  "pushed_to [Push addr c d] = [addr]" "pushed_to [Sleep t] = []" "pushed_to [Sleep t, Push addr c d] = [addr]"
  by (simp_all add: pushed_to_def)

lemma pushed_to_attempts [simp]: "pushed_to (attempts e addr j k) = replicate (Suc k) addr"
  by (induction k) (simp_all add: replicate_append_same)

definition carries :: "job \<Rightarrow> effect \<Rightarrow> bool" where
  "carries j x = (case x of Push a c d \<Rightarrow> c = ChunkID j \<and> d = Data j | Sleep t \<Rightarrow> True)"

lemma carries_attempts: "list_all (carries j) (attempts e addr j k)"
  by (induction k) (auto simp: carries_def)

lemma push_spec_targets:
  assumes "push_spec e results cancels addr j done res" and "0 \<le> maxRetries e"
  shows "\<exists>n. pushed_to done = replicate (Suc n) addr \<and> int n \<le> maxRetries e" "list_all (carries j) done"
  using assms unfolding push_spec_def
  by (cases res; auto simp: carries_attempts carries_def)+

definition addressed :: "engine \<Rightarrow> (string \<Rightarrow> string \<times> bool) \<Rightarrow> string list \<Rightarrow> string list" where
  "addressed e AddrFor targets =
     map (\<lambda>n. fst (AddrFor n)) (filter (\<lambda>n. n \<noteq> eng_selfID e \<and> snd (AddrFor n)) targets)"

lemma set_repeated:
  "length ns = length as \<Longrightarrow> set (concat (map (\<lambda>(n, a). replicate (Suc n) a) (zip ns as))) = set as"
  by (induction ns as rule: list_induct2) (auto simp: set_replicate_Suc)

lemma replicate_loop_spec:
  assumes "0 \<le> maxRetries e"
  shows "replicate_loop e (script_env results cancels) AddrFor j targets log = (out, log') \<Longrightarrow>
    \<exists>done ns. log' = log @ done \<and> list_all (carries j) done
      \<and> map fst out = filter (\<lambda>n. n \<noteq> eng_selfID e) targets
      \<and> length ns = length (addressed e AddrFor targets) \<and> (\<forall>n \<in> set ns. int n \<le> maxRetries e)
      \<and> pushed_to done = concat (map (\<lambda>(n, a). replicate (Suc n) a) (zip ns (addressed e AddrFor targets)))"
proof (induction targets arbitrary: log out)
  case Nil
  then show ?case by (simp add: addressed_def)
next
  case (Cons n targets)
  show ?case
  proof (cases "n = eng_selfID e")
    case True
    with Cons show ?thesis by (simp add: addressed_def)
  next
    case ne: False
    obtain addr ok where a: "AddrFor n = (addr, ok)" by (cases "AddrFor n") auto
    show ?thesis
    proof (cases ok)
      case False
      obtain rest where "replicate_loop e (script_env results cancels) AddrFor j targets log = (rest, log')"
        "out = (n, None) # rest"
        using Cons.prems ne a False by (auto split: prod.splits)
      with Cons.IH [of log rest] ne a False show ?thesis by (simp add: addressed_def)
    next
      case True
      obtain res log1 where p: "pushWithRetry e (script_env results cancels) addr j log = (res, log1)"
        by (cases "pushWithRetry e (script_env results cancels) addr j log") auto
      obtain rest where r: "replicate_loop e (script_env results cancels) AddrFor j targets log1 = (rest, log')"
        "out = (n, Some res) # rest"
        using Cons.prems ne a True p by (auto split: prod.splits)
      obtain d1 where d1: "log1 = log @ d1"
        "push_spec e (\<lambda>i. results (pushes log + i)) (\<lambda>i. cancels (sleeps log + i)) addr j d1 res"
        using pushWithRetry_spec [OF assms p] by blast
      obtain k where k: "pushed_to d1 = replicate (Suc k) addr" "int k \<le> maxRetries e"
        using push_spec_targets(1) [OF d1(2) assms] by blast
      note c1 = push_spec_targets(2) [OF d1(2) assms]
      from Cons.IH [OF r(1)] obtain d2 ns where d2: "log' = log1 @ d2" "list_all (carries j) d2"
        "map fst rest = filter (\<lambda>n. n \<noteq> eng_selfID e) targets"
        "length ns = length (addressed e AddrFor targets)" "\<forall>n \<in> set ns. int n \<le> maxRetries e"
        "pushed_to d2 = concat (map (\<lambda>(n, a). replicate (Suc n) a) (zip ns (addressed e AddrFor targets)))"
        by blast
      have "addressed e AddrFor (n # targets) = addr # addressed e AddrFor targets"
        using ne a True by (simp add: addressed_def)
      with d1 d2 k c1 r(2) ne show ?thesis
        by (intro exI [where x = "d1 @ d2"] exI [where x = "k # ns"]) simp
    qed
  qed
qed

section \<open>Invariants of the worker pool\<close>

fun busy1 :: "worker \<Rightarrow> job multiset" where
  "busy1 (Busy j) = {#j#}"
| "busy1 Idle = {#}"
| "busy1 Exited = {#}"

definition busy :: "worker list \<Rightarrow> job multiset" where
  "busy ws = sum_list (map busy1 ws)"

lemma busy_update: "i < length ws \<Longrightarrow> busy (ws[i := w]) + busy1 (ws ! i) = busy ws + busy1 w"
proof (induction ws arbitrary: i)
  case (Cons v ws)
  then show ?case by (cases i) (auto simp: busy_def ac_simps)
qed simp

lemma busy_steps:
  assumes "i < length ws"
  shows "ws ! i = Idle \<Longrightarrow> busy (ws[i := Busy j]) = add_mset j (busy ws)"
    and "ws ! i = Busy j \<Longrightarrow> add_mset j (busy (ws[i := Idle])) = busy ws"
    and "ws ! i = Idle \<Longrightarrow> busy (ws[i := Exited]) = busy ws"
  using busy_update [OF assms, of "Busy j"] busy_update [OF assms, of Idle] busy_update [OF assms, of Exited]
  by simp_all

lemma busy_all_exited: "list_all (\<lambda>w. w = Exited) ws \<Longrightarrow> busy ws = {#}"
  by (induction ws) (auto simp: busy_def)

text \<open>
  The buffer is bounded; jobs leave it in the order in which they entered; every job that
  entered is in the buffer, in the hands of a worker or finished; workers leave only a closed
  and empty channel; the number of workers is fixed.
\<close>

definition pool_inv :: "engine \<Rightarrow> pool \<Rightarrow> bool" where
  "pool_inv e p \<longleftrightarrow> length (p_queue p) \<le> queue_cap
     \<and> (\<exists>taken. accepted p = taken @ p_queue p \<and> mset taken = mset (finished p) + busy (p_workers p))
     \<and> (Exited \<in> set (p_workers p) \<longrightarrow> p_closed p \<and> p_queue p = [])
     \<and> length (p_workers p) = nat (eng_workers e)"

lemma pool_step_inv:
  assumes "pool_step p p'" and "pool_inv e p"
  shows "pool_inv e p'"
  using assms
proof (induction rule: pool_step.induct)
  case (receive p j js i)
  then obtain taken where "accepted p = taken @ j # js" "mset taken = mset (finished p) + busy (p_workers p)"
    by (auto simp: pool_inv_def)
  moreover have "Exited \<notin> set ((p_workers p)[i := Busy j])"
    using receive set_update_subset_insert [of "p_workers p" i "Busy j"] by (auto simp: pool_inv_def)
  ultimately show ?case
    using receive by (auto simp: pool_inv_def busy_steps intro!: exI [where x = "taken @ [j]"])
next
  case (finish p i j)
  then have "Exited \<in> set ((p_workers p)[i := Idle]) \<Longrightarrow> Exited \<in> set (p_workers p)"
    using set_update_subset_insert [of "p_workers p" i Idle] by auto
  with finish busy_steps(2) [OF finish(2,3)] show ?case by (auto simp: pool_inv_def)
next
  case (leave p i)
  then show ?case by (auto simp: pool_inv_def busy_steps(3))
qed (auto simp: pool_inv_def)

lemma pool_reach_inv: "pool_reach e p \<Longrightarrow> pool_inv e p"
proof (induction rule: pool_reach.induct)
  case start
  have "busy (replicate n Idle) = {#}" for n by (induction n) (auto simp: busy_def)
  then show ?case by (auto simp: pool_inv_def pool_Start_def)
qed (rule pool_step_inv)

text \<open>The steps of the workers: those that neither touch callers nor close the channel.\<close>

definition worker_step :: "pool \<Rightarrow> pool \<Rightarrow> bool" where
  "worker_step p p' \<longleftrightarrow> pool_step p p' \<and> p_senders p' = p_senders p \<and> p_closed p' = p_closed p
     \<and> p_panicked p' = p_panicked p"

fun worker_load :: "worker \<Rightarrow> nat" where
  "worker_load Idle = 1"
| "worker_load (Busy j) = 2"
| "worker_load Exited = 0"

definition load :: "pool \<Rightarrow> nat" where
  "load p = 2 * length (p_queue p) + sum_list (map worker_load (p_workers p))"

lemma sum_load_update:
  "i < length ws \<Longrightarrow>
     sum_list (map worker_load (ws[i := w])) + worker_load (ws ! i) = sum_list (map worker_load ws) + worker_load w"
proof (induction ws arbitrary: i)
  case (Cons v ws)
  then show ?case by (cases i) auto
qed simp

inductive_cases pool_stepE: "pool_step p p'"

lemma worker_step_cases:
  assumes "worker_step p p'"
  obtains (receive) j js i where "p_queue p = j # js" "i < length (p_workers p)" "p_workers p ! i = Idle"
      "p' = p\<lparr>p_queue := js, p_workers := (p_workers p)[i := Busy j]\<rparr>"
    | (finish) i j where "i < length (p_workers p)" "p_workers p ! i = Busy j"
      "p' = p\<lparr>p_workers := (p_workers p)[i := Idle], finished := finished p @ [j]\<rparr>"
    | (leave) i where "p_closed p" "p_queue p = []" "i < length (p_workers p)" "p_workers p ! i = Idle"
      "p' = p\<lparr>p_workers := (p_workers p)[i := Exited]\<rparr>"
proof -
  from assms have s: "pool_step p p'" and w: "p_senders p' = p_senders p" "p_closed p' = p_closed p"
    "p_panicked p' = p_panicked p" by (simp_all add: worker_step_def)
  from s show thesis
  proof (cases rule: pool_step.cases)
    case (send xs j ys)
    then have "length (p_senders p') < length (p_senders p)" by simp
    with w show ?thesis by simp
  next
    case (receive j js i)
    with that(1) show ?thesis by blast
  next
    case (finish i j)
    with that(2) show ?thesis by blast
  next
    case (leave i)
    with that(3) show ?thesis by blast
  qed (use w in simp_all)
qed

lemma worker_step_load: "worker_step p p' \<Longrightarrow> load p' < load p \<and> accepted p' = accepted p"
proof (erule worker_step_cases, goal_cases)
  case (1 j js i)
  with sum_load_update [of i "p_workers p" "Busy j"] show ?case by (simp add: load_def)
next
  case (2 i j)
  with sum_load_update [of i "p_workers p" Idle] show ?case by (simp add: load_def)
next
  case (3 i)
  with sum_load_update [of i "p_workers p" Exited] show ?case by (simp add: load_def)
qed

lemma worker_steps_load:
  "(worker_step ^^ n) p p' \<Longrightarrow> n + load p' \<le> load p \<and> accepted p' = accepted p
     \<and> p_closed p' = p_closed p \<and> p_panicked p' = p_panicked p"
proof (induction n arbitrary: p')
  case (Suc n)
  then obtain q where q: "(worker_step ^^ n) p q" "worker_step q p'" by auto
  with Suc.IH [OF q(1)] worker_step_load [OF q(2)] show ?case by (auto simp: worker_step_def)
qed simp

lemma worker_steps_inv: "(worker_step ^^ n) p p' \<Longrightarrow> pool_inv e p \<Longrightarrow> pool_inv e p'"
proof (induction n arbitrary: p')
  case (Suc n)
  then show ?case using pool_step_inv by (auto simp: worker_step_def)
qed simp

text \<open>A closed pool that is not at its end can move.\<close>

lemma closed_pool_moves:
  assumes "pool_inv e p" and "p_closed p" and "\<not> p_panicked p" and "\<not> Stop_returns p"
  shows "\<exists>p'. worker_step p p'"
proof -
  from assms(2-4) obtain w where "w \<in> set (p_workers p)" "w \<noteq> Exited"
    by (auto simp: Stop_returns_def list_all_iff)
  then obtain i where i: "i < length (p_workers p)" "p_workers p ! i \<noteq> Exited" by (metis in_set_conv_nth)
  show ?thesis
  proof (cases "p_workers p ! i")
    case Idle
    show ?thesis
    proof (cases "p_queue p")
      case Nil
      from pool_step.leave [OF assms(3,2) Nil i(1) Idle] show ?thesis by (auto simp: worker_step_def)
    next
      case (Cons j js)
      from pool_step.receive [OF assms(3) Cons i(1) Idle] show ?thesis by (auto simp: worker_step_def)
    qed
  next
    case (Busy j)
    from pool_step.finish [OF assms(3) i(1) Busy] show ?thesis by (auto simp: worker_step_def)
  qed (use i in simp)
qed

section \<open>Properties\<close>

text \<open>
  C28. A push is tried at most six times, with the waits 200, 400, 800, 1600 and 3200 ms between the
  attempts. For every script of attempt outcomes and cancellations: it ends pushed right after
  the first successful attempt, or gives up with the last error after six failed attempts, or
  stops in a wait in which the context is cancelled, and it does nothing else.
\<close>

theorem pushWithRetry_attempts:
  assumes "pushWithRetry (NewEngine selfID workers) (script_env results cancels) addr j [] = (res, log)"
  shows "\<exists>k \<le> 5. (\<forall>i < k. results i \<noteq> None \<and> \<not> cancels i)
    \<and> (let tries = Push addr (ChunkID j) (Data j)
             # concat (map (\<lambda>i. [Sleep (200000000 * 2 ^ i), Push addr (ChunkID j) (Data j)]) [0..<k])
       in case res of
            Pushed \<Rightarrow> results k = None \<and> log = tries
          | GaveUp err \<Rightarrow> k = 5 \<and> results k = Some err \<and> log = tries
          | Cancelled \<Rightarrow> k < 5 \<and> results k \<noteq> None \<and> cancels k \<and> log = tries @ [Sleep (200000000 * 2 ^ k)])"
proof -
  let ?e = "NewEngine selfID workers"
  have e: "maxRetries ?e = 5" "retryBase ?e = 200000000" by (simp_all add: NewEngine_def)
  have att: "attempts ?e addr j k = Push addr (ChunkID j) (Data j)
      # concat (map (\<lambda>i. [Sleep (200000000 * 2 ^ i), Push addr (ChunkID j) (Data j)]) [0..<k])" for k
    by (induction k) (simp_all add: e)
  from pushWithRetry_spec [of ?e results cancels addr j "[]"] assms e
  have S: "push_spec ?e results cancels addr j log res" by simp
  show ?thesis
  proof (cases res)
    case Pushed
    with S obtain k where "k \<le> 5" "log = attempts ?e addr j k" "results k = None"
      "\<forall>i < k. results i \<noteq> None" "\<forall>i < k. \<not> cancels i" by (auto simp: push_spec_def e)
    with Pushed show ?thesis by (intro exI [where x = k]) (simp add: att Let_def)
  next
    case Cancelled
    with S obtain k where "k < 5" "log = attempts ?e addr j k @ [Sleep (200000000 * 2 ^ k)]"
      "\<forall>i \<le> k. results i \<noteq> None" "\<forall>i < k. \<not> cancels i" "cancels k" by (auto simp: push_spec_def e)
    with Cancelled show ?thesis by (intro exI [where x = k]) (simp add: att Let_def)
  next
    case (GaveUp err)
    with S obtain k where "int k = 5" "log = attempts ?e addr j k" "results k = Some err"
      "\<forall>i \<le> k. results i \<noteq> None" "\<forall>i < k. \<not> cancels i" by (auto simp: push_spec_def e)
    moreover from this have "k = 5" by simp
    ultimately show ?thesis using GaveUp by (intro exI [where x = k]) (simp add: att Let_def)
  qed
qed

definition sample_job :: job where
  "sample_job = \<lparr>ChunkID = ''c1'', Data = [1, 2, 3]\<rparr>"

lemma pushWithRetry_attempts_witness:
  "pushWithRetry (NewEngine ''n1'' 4) (script_env (\<lambda>i. None) (\<lambda>i. False)) ''h2'' sample_job []
   = (Pushed, [Push ''h2'' ''c1'' [1, 2, 3]])"
proof -
  obtain res log where run: "pushWithRetry (NewEngine ''n1'' 4) (script_env (\<lambda>i. None) (\<lambda>i. False)) ''h2'' sample_job [] = (res, log)"
    by fastforce
  from pushWithRetry_attempts [OF run] obtain k where k: "\<forall>i < k. (None :: go_error option) \<noteq> None"
    "case res of Pushed \<Rightarrow> log = Push ''h2'' ''c1'' [1, 2, 3]
             # concat (map (\<lambda>i. [Sleep (200000000 * 2 ^ i), Push ''h2'' ''c1'' [1, 2, 3]]) [0..<k])
       | GaveUp err \<Rightarrow> False | Cancelled \<Rightarrow> False"
    by (cases res) (auto simp: sample_job_def Let_def)
  from k(1) have "k = 0" by auto
  with k(2) show ?thesis by (simp add: run split: push_outcome.splits)
qed

text \<open>
  C27. Replicating a chunk reaches its whole replica set. Whatever the pushes return, the job is
  pushed, in ring order, to the address of every node of the replica set that has one, one to six
  times each; never to the node itself nor to any other address; every push carries the chunk's
  ID and bytes; and the nodes without an address are the ones reported as skipped.
\<close>

theorem replicate_reaches_targets:
  assumes "replicate_job sha1 (NewEngine selfID workers) (script_env results cancels) AddrFor r j [] = (out, log)"
  shows "pushed_to log
      \<in> {concat (map (\<lambda>(n, a). replicate n a) (zip ns (addressed (NewEngine selfID workers) AddrFor (GetN sha1 r (ChunkID j) Factor)))) | ns.
           length ns = length (addressed (NewEngine selfID workers) AddrFor (GetN sha1 r (ChunkID j) Factor)) \<and> set ns \<subseteq> {1..6}}
    \<and> set (pushed_to log) = {fst (AddrFor n) | n. n \<in> set (GetN sha1 r (ChunkID j) Factor) \<and> n \<noteq> selfID \<and> snd (AddrFor n)}
    \<and> list_all (carries j) log
    \<and> map fst out = filter (\<lambda>n. n \<noteq> selfID) (GetN sha1 r (ChunkID j) Factor)"
proof -
  let ?e = "NewEngine selfID workers" and ?ts = "GetN sha1 r (ChunkID j) Factor"
  have e: "maxRetries ?e = 5" "eng_selfID ?e = selfID" by (simp_all add: NewEngine_def)
  from replicate_loop_spec [of ?e results cancels AddrFor j ?ts "[]" out log] assms e
  obtain ns where ns: "length ns = length (addressed ?e AddrFor ?ts)" "\<forall>n \<in> set ns. n \<le> 5"
    "pushed_to log = concat (map (\<lambda>(n, a). replicate (Suc n) a) (zip ns (addressed ?e AddrFor ?ts)))"
    "list_all (carries j) log" "map fst out = filter (\<lambda>n. n \<noteq> selfID) ?ts"
    by (auto simp: replicate_job_def)
  have "pushed_to log = concat (map (\<lambda>(n, a). replicate n a) (zip (map Suc ns) (addressed ?e AddrFor ?ts)))"
    unfolding ns(3) by (simp add: zip_map1 comp_def case_prod_unfold)
  then have shape: "pushed_to log \<in> {concat (map (\<lambda>(n, a). replicate n a) (zip ns (addressed ?e AddrFor ?ts))) | ns.
           length ns = length (addressed ?e AddrFor ?ts) \<and> set ns \<subseteq> {1..6}}"
    using ns(1,2) by (intro CollectI exI [where x = "map Suc ns"]) auto
  have "set (pushed_to log) = set (addressed ?e AddrFor ?ts)" unfolding ns(3) by (rule set_repeated [OF ns(1)])
  also have "\<dots> = {fst (AddrFor n) | n. n \<in> set ?ts \<and> n \<noteq> selfID \<and> snd (AddrFor n)}"
    by (auto simp: addressed_def e)
  finally show ?thesis using shape ns(4,5) by blast
qed

lemma replicate_reaches_targets_witness:
  "set (pushed_to (snd (replicate_job sample_sha1 (NewEngine ''a'' 4) (script_env (\<lambda>i. None) (\<lambda>i. False))
      (\<lambda>n. (n @ '':80'', True)) sample_ring sample_job [])))
   = {n @ '':80'' | n. n \<in> set (GetN sample_sha1 sample_ring ''c1'' Factor) \<and> n \<noteq> ''a''}"
proof -
  obtain out log where run: "replicate_job sample_sha1 (NewEngine ''a'' 4) (script_env (\<lambda>i. None) (\<lambda>i. False))
      (\<lambda>n. (n @ '':80'', True)) sample_ring sample_job [] = (out, log)" by fastforce
  from replicate_reaches_targets [OF run] have "set (pushed_to log)
      = {n @ '':80'' | n. n \<in> set (GetN sample_sha1 sample_ring ''c1'' Factor) \<and> n \<noteq> ''a''}"
    by (simp add: sample_job_def)
  then show ?thesis by (simp only: run snd_conv)
qed

text \<open>
  Under a cancelled context jobs are dropped. When every push fails, because its context is
  cancelled, and every wait ends at once for the same reason, a job is tried once per target
  and given up: no target has it. \<^verbatim>\<open>main\<close> cancels the context before it calls
  Stop, so the jobs still buffered at shutdown are not drained to the replicas.
\<close>

lemma cancelled_context_drops_job:
  assumes "\<forall>i. results i \<noteq> None" and "\<forall>i. cancels i"
    and "replicate_job sha1 (NewEngine selfID workers) (script_env results cancels) AddrFor r j log = (out, log')"
  shows "(\<forall>(n, res) \<in> set out. res \<in> {None, Some Cancelled})
    \<and> pushed_to log' = pushed_to log @ addressed (NewEngine selfID workers) AddrFor (GetN sha1 r (ChunkID j) Factor)"
proof -
  let ?e = "NewEngine selfID workers"
  have e: "maxRetries ?e = 5" by (simp add: NewEngine_def)
  have push: "res = Cancelled \<and> pushed_to log1 = pushed_to log @ [addr]"
    if "pushWithRetry ?e (script_env results cancels) addr j log = (res, log1)" for addr log res log1
  proof -
    from pushWithRetry_spec [OF _ that] e obtain d where d: "log1 = log @ d"
      "push_spec ?e (\<lambda>i. results (pushes log + i)) (\<lambda>i. cancels (sleeps log + i)) addr j d res" by auto
    show ?thesis
    proof (cases res)
      case Cancelled
      with d(2) obtain k where k: "d = attempts ?e addr j k @ [Sleep (retryBase ?e * 2 ^ k)]"
        "\<forall>i < k. \<not> cancels (sleeps log + i)" by (auto simp: push_spec_def)
      then have "k = 0" using assms(2) by (metis neq0_conv)
      with Cancelled d(1) k show ?thesis by (simp add: pushed_to_def)
    next
      case (GaveUp err)
      with d assms(2) obtain k where "int k = 5" "\<forall>i < k. \<not> cancels (sleeps log + i)"
        by (auto simp: push_spec_def e)
      then have "0 < k" "\<forall>i < k. \<not> cancels (sleeps log + i)" by simp_all
      then have "\<not> cancels (sleeps log + 0)" by blast
      with assms(2) show ?thesis by blast
    qed (use d assms(1) in \<open>auto simp: push_spec_def\<close>)
  qed
  have "list_all (\<lambda>x. snd x \<in> {None, Some Cancelled}) out \<and> pushed_to log' = pushed_to log @ addressed ?e AddrFor ts"
    if "replicate_loop ?e (script_env results cancels) AddrFor j ts log = (out, log')" for ts
    using that
  proof (induction ts arbitrary: log out)
    case (Cons n ts)
    obtain addr ok where a: "AddrFor n = (addr, ok)" by (cases "AddrFor n") auto
    obtain res log1 where p: "pushWithRetry ?e (script_env results cancels) addr j log = (res, log1)"
      by (cases "pushWithRetry ?e (script_env results cancels) addr j log") auto
    show ?case
      using Cons.prems Cons.IH [of log] Cons.IH [of log1] push [OF p] a p
      by (auto simp: addressed_def split: if_splits prod.splits)
  qed (simp add: addressed_def)
  with assms(3) show ?thesis by (fastforce simp: replicate_job_def list_all_iff)
qed

lemma cancelled_context_drops_job_witness:
  "list_all (\<lambda>x. snd x \<in> {None, Some Cancelled})
     (fst (replicate_job sample_sha1 (NewEngine ''a'' 4) (script_env (\<lambda>i. Some (Failure ''context canceled'')) (\<lambda>i. True))
        (\<lambda>n. (n @ '':80'', True)) sample_ring sample_job []))"
  using cancelled_context_drops_job [of "\<lambda>i. Some (Failure ''context canceled'')" "\<lambda>i. True", OF _ _ prod.collapse [symmetric]]
  by (fastforce simp: list_all_iff)

text \<open>
  C22. Accepted jobs are neither lost nor duplicated. In every reachable state of the queue and its
  workers at most 1024 jobs are buffered, they are the latest accepted ones in the order in which
  they were accepted, and the accepted jobs are those buffered, those being replicated and those
  finished, each as often as it was accepted; when Stop has returned all are finished.
\<close>

theorem queue_conserves_jobs:
  assumes "pool_reach e p"
  shows "QueueDepth p \<le> 1024
    \<and> (\<exists>taken. accepted p = taken @ p_queue p)
    \<and> mset (accepted p) = mset (p_queue p) + busy (p_workers p) + mset (finished p)
    \<and> (Stop_returns p \<and> 0 < eng_workers e \<longrightarrow> mset (finished p) = mset (accepted p))"
proof -
  note I = pool_reach_inv [OF assms, unfolded pool_inv_def]
  then obtain taken where t: "accepted p = taken @ p_queue p" "mset taken = mset (finished p) + busy (p_workers p)"
    by blast
  then have all: "mset (accepted p) = mset (p_queue p) + busy (p_workers p) + mset (finished p)" by simp
  have "p_queue p = []" "busy (p_workers p) = {#}" if "Stop_returns p" "0 < eng_workers e"
  proof -
    have "p_workers p \<noteq> []" using I that(2) by (metis length_0_conv less_numeral_extra(3) zero_less_nat_eq)
    with that(1) have "Exited \<in> set (p_workers p)" by (auto simp: Stop_returns_def list_all_iff neq_Nil_conv)
    with I show "p_queue p = []" by blast
    show "busy (p_workers p) = {#}" using that(1) by (auto simp: Stop_returns_def busy_all_exited)
  qed
  with t(1) all I show ?thesis by (auto simp: QueueDepth_def queue_cap_def)
qed

lemma queue_conserves_jobs_witness:
  "QueueDepth ((pool_Start (NewEngine ''n1'' 4))\<lparr>p_queue := [sample_job], accepted := [sample_job]\<rparr>) \<le> 1024"
proof -
  let ?p = "pool_Start (NewEngine ''n1'' 4)"
  have "pool_step ?p (?p\<lparr>p_senders := [sample_job]\<rparr>)"
    using pool_step.call [of ?p sample_job] by (simp add: pool_Start_def)
  moreover have "pool_step (?p\<lparr>p_senders := [sample_job]\<rparr>) (?p\<lparr>p_queue := [sample_job], accepted := [sample_job]\<rparr>)"
    using pool_step.send [of "?p\<lparr>p_senders := [sample_job]\<rparr>" "[]" sample_job "[]"]
    by (simp add: pool_Start_def queue_cap_def)
  ultimately have "pool_reach (NewEngine ''n1'' 4) (?p\<lparr>p_queue := [sample_job], accepted := [sample_job]\<rparr>)"
    by (meson pool_reach.intros)
  from queue_conserves_jobs [OF this] show ?thesis by blast
qed

text \<open>
  C32. Stop terminates: once the channel of a running engine is closed, its workers take at most
  twice the buffered jobs plus twice the workers many steps, and as long as Stop cannot return
  one of them can take a step (unless a caller panicked); so every run of the workers ends with
  all of them gone and all accepted jobs finished.
\<close>

theorem Stop_drains_queue:
  assumes "pool_reach (NewEngine selfID workers) p" and "p_closed p" and "\<not> p_panicked p"
    and "(worker_step ^^ n) p p'"
  shows "n \<le> 2 * QueueDepth p + 2 * length (p_workers p)
    \<and> (Stop_returns p' \<or> (\<exists>p''. worker_step p' p''))
    \<and> (Stop_returns p' \<longrightarrow> mset (finished p') = mset (accepted p) \<and> p_queue p' = [])"
proof -
  let ?e = "NewEngine selfID workers"
  note I = pool_reach_inv [OF assms(1)]
  note I' = worker_steps_inv [OF assms(4) I] and W = worker_steps_load [OF assms(4)]
  have "sum_list (map worker_load ws) \<le> 2 * length ws" for ws
  proof (induction ws)
    case (Cons w ws)
    then show ?case by (cases w) auto
  qed simp
  from this [of "p_workers p"] have "load p \<le> 2 * QueueDepth p + 2 * length (p_workers p)"
    by (simp add: load_def QueueDepth_def)
  moreover have "Stop_returns p' \<or> (\<exists>p''. worker_step p' p'')"
    using closed_pool_moves [OF I'] W assms(2,3) by blast
  moreover have "mset (finished p') = mset (accepted p) \<and> p_queue p' = []" if stop: "Stop_returns p'"
  proof -
    have "0 < length (p_workers p')" using I' by (auto simp: pool_inv_def NewEngine_def split: if_splits)
    then have "Exited \<in> set (p_workers p')"
      using stop by (cases "p_workers p'") (auto simp: Stop_returns_def)
    then have "p_queue p' = []" using I' by (auto simp: pool_inv_def)
    moreover have "busy (p_workers p') = {#}" using stop by (simp add: Stop_returns_def busy_all_exited)
    ultimately show ?thesis using I' W by (auto simp: pool_inv_def)
  qed
  moreover have "n \<le> load p" using W by linarith
  ultimately show ?thesis using le_trans by blast
qed

lemma Stop_drains_queue_witness:
  "let p = (pool_Start (NewEngine ''n1'' 4))\<lparr>p_closed := True\<rparr>
   in Stop_returns p \<or> (\<exists>p''. worker_step p p'')"
proof -
  let ?p = "pool_Start (NewEngine ''n1'' 4)"
  have "pool_step ?p (?p\<lparr>p_closed := True\<rparr>)"
    using pool_step.close [of ?p] by (simp add: pool_Start_def)
  then have "pool_reach (NewEngine ''n1'' 4) (?p\<lparr>p_closed := True\<rparr>)" by (meson pool_reach.intros)
  from Stop_drains_queue [OF this, of 0] show ?thesis by (simp add: pool_Start_def Let_def)
qed

text \<open>
  Enqueue after Stop brings the process down. In every reachable state whose channel is
  closed, a caller of Enqueue - a repair pass that is still running, for instance - can only
  panic: no sequence of steps accepts a job any more, and the panic is one step away.
\<close>

lemma Enqueue_after_Stop_panics:
  assumes "pool_reach e p" and "p_closed p" and "\<not> p_panicked p"
  shows "(\<exists>p1 p2. pool_step p p1 \<and> p_senders p1 = p_senders p @ [j] \<and> pool_step p1 p2 \<and> p_panicked p2)
    \<and> (\<forall>p'. pool_step\<^sup>*\<^sup>* p p' \<longrightarrow> accepted p' = accepted p)"
proof -
  let ?p1 = "p\<lparr>p_senders := p_senders p @ [j]\<rparr>"
  have s: "pool_step p ?p1" "pool_step ?p1 (?p1\<lparr>p_panicked := True\<rparr>)"
    using pool_step.call [of p j] pool_step.panic [of ?p1] assms by simp_all
  have "p_senders ?p1 = p_senders p @ [j]" "p_panicked (?p1\<lparr>p_panicked := True\<rparr>)" by simp_all
  with s have "\<exists>p1 p2. pool_step p p1 \<and> p_senders p1 = p_senders p @ [j] \<and> pool_step p1 p2 \<and> p_panicked p2"
    by blast
  moreover have "accepted p' = accepted p \<and> p_closed p'" if "pool_step\<^sup>*\<^sup>* p p'" for p'
    using that
  proof (induction rule: rtranclp_induct)
    case (step q q')
    then show ?case by (auto elim!: pool_stepE)
  qed (use assms in simp)
  ultimately show ?thesis by blast
qed

lemma Enqueue_after_Stop_panics_witness:
  "\<exists>p1 p2. pool_step ((pool_Start (NewEngine ''n1'' 4))\<lparr>p_closed := True\<rparr>) p1 \<and> pool_step p1 p2
     \<and> sample_job \<in> set (p_senders p1) \<and> p_panicked p2"
proof -
  let ?p = "pool_Start (NewEngine ''n1'' 4)"
  have "pool_step ?p (?p\<lparr>p_closed := True\<rparr>)" using pool_step.close [of ?p] by (simp add: pool_Start_def)
  then have r: "pool_reach (NewEngine ''n1'' 4) (?p\<lparr>p_closed := True\<rparr>)" by (meson pool_reach.intros)
  have "p_closed (?p\<lparr>p_closed := True\<rparr>)" "\<not> p_panicked (?p\<lparr>p_closed := True\<rparr>)" by (simp_all add: pool_Start_def)
  from Enqueue_after_Stop_panics [OF r this, of sample_job] show ?thesis
    by (metis in_set_conv_decomp)
qed

end
