(* ===== verification/Recovery.thy ===== *)
theory Recovery
  imports Replication LocalFS
begin

text \<open>
  Self-healing, from \<^verbatim>\<open>internal/recovery/recovery.go\<close>: the callbacks for dead and
  revived nodes, the repair pass over the local store, and the repair counters. The jobs a pass
  enqueues are returned as a list, in the order of the calls of Enqueue.
\<close>

section \<open>The manager\<close>

record manager =
  man_selfID :: string
  repairsRunning :: int
  repairsComplete :: int

definition manager_New :: "string \<Rightarrow> manager" where
  "manager_New selfID = \<lparr>man_selfID = selfID, repairsRunning = 0, repairsComplete = 0\<rparr>"

text \<open>
  \<^verbatim>\<open>HandleNodeDead\<close> takes the node off the ring and starts a repair pass for it
  (the second component: the goroutines started, by their argument).
\<close>

definition HandleNodeDead :: "string \<Rightarrow> ring \<Rightarrow> ring \<times> string list" where
  "HandleNodeDead deadNodeID r = (RemoveNode deadNodeID r, [deadNodeID])"

definition HandleNodeAlive :: "(bytes \<Rightarrow> bytes) \<Rightarrow> string \<Rightarrow> string \<Rightarrow> ring \<Rightarrow> ring" where
  "HandleNodeAlive sha1 nodeID addr r = AddNode sha1 nodeID r"

fun contains :: "string list \<Rightarrow> string \<Rightarrow> bool" where
  "contains [] s = False"
| "contains (x # ss) s = (if x = s then True else contains ss s)"

text \<open>
  The loop over the local chunk IDs. Each iteration reads the ring anew, and other goroutines may
  have changed it since the last: \<open>targets i c\<close> is the replica set that iteration \<open>i\<close>
  computes for \<open>c\<close>.
\<close>

fun repair_loop ::
  "string \<Rightarrow> 's backend \<Rightarrow> (nat \<Rightarrow> string \<Rightarrow> string list) \<Rightarrow> nat \<Rightarrow> string list \<Rightarrow> 's \<Rightarrow> job list \<times> 's" where
  "repair_loop selfID local targets i [] s = ([], s)"
| "repair_loop selfID local targets i (c # ids) s =
     (let newTargets = targets i c
      in if \<not> contains newTargets selfID then repair_loop selfID local targets (Suc i) ids s
         else case b_Get local c s of
                (Inl err, s1) \<Rightarrow> repair_loop selfID local targets (Suc i) ids s1
              | (Inr data, s1) \<Rightarrow>
                  (let (jobs, s2) = repair_loop selfID local targets (Suc i) ids s1
                   in (\<lparr>ChunkID = c, Data = data\<rparr> # jobs, s2)))"

definition repair_start :: "manager \<Rightarrow> manager" where
  "repair_start m = m\<lparr>repairsRunning := repairsRunning m + 1\<rparr>"

definition repair_end :: "manager \<Rightarrow> manager" where
  "repair_end m = m\<lparr>repairsRunning := repairsRunning m - 1, repairsComplete := repairsComplete m + 1\<rparr>"

text \<open>
  A pass from its start to its deferred end, on which the counters of the manager are updated
  also when the listing fails.
\<close>

definition repairLocalChunks ::
  "(bytes \<Rightarrow> bytes) \<Rightarrow> 's backend \<Rightarrow> (nat \<Rightarrow> ring) \<Rightarrow> string \<Rightarrow> manager \<times> 's \<Rightarrow> job list \<times> manager \<times> 's" where
  "repairLocalChunks sha1 local rings deadNodeID st =
     (let (m, s) = st;
          m1 = repair_start m
      in case b_List local s of
           (Inl err, s1) \<Rightarrow> ([], repair_end m1, s1)
         | (Inr ids, s1) \<Rightarrow>
             (let (jobs, s2) = repair_loop (man_selfID m) local (\<lambda>i c. GetN sha1 (rings i) c Factor) 0 ids s1
              in (jobs, repair_end m1, s2)))"

definition fmt_int :: "int \<Rightarrow> string" where
  "fmt_int i = (if i < 0 then ''-'' @ fmt_d (nat (- i)) else fmt_d (nat i))"

definition manager_Status :: "manager \<Rightarrow> string" where
  "manager_Status m = ''repairs_running='' @ fmt_int (repairsRunning m)
     @ '' repairs_complete='' @ fmt_int (repairsComplete m)"

section \<open>The repair pass over any store\<close>

text \<open>A pass is its iterations one after the other.\<close>

lemma repair_loop_iterations:
  "repair_loop selfID local targets i (c # ids) s =
     (let (jobs, s1) = repair_loop selfID local targets i [c] s;
          (jobs', s2) = repair_loop selfID local targets (Suc i) ids s1
      in (jobs @ jobs', s2))"
  by (simp split: prod.split sum.split)

lemma contains_iff [simp]: "contains ss s \<longleftrightarrow> s \<in> set ss"
  by (induction ss) auto

context backend_spec
begin

lemma repair_loop_spec:
  assumes "inv s" and "\<And>c. c \<in> set ids \<Longrightarrow> stored s c \<noteq> None"
    and "repair_loop selfID B targets i ids s = (jobs, s')"
  shows "inv s' \<and> stored s' = stored s
    \<and> (\<forall>j \<in> set jobs. stored s (ChunkID j) = Some (Data j)
         \<and> (\<exists>k. k < length ids \<and> ids ! k = ChunkID j \<and> selfID \<in> set (targets (i + k) (ChunkID j))))
    \<and> (reliable s \<longrightarrow> reliable s' \<and> (\<forall>k < length ids. selfID \<in> set (targets (i + k) (ids ! k)) \<longrightarrow>
         (\<exists>d. \<lparr>ChunkID = ids ! k, Data = d\<rparr> \<in> set jobs)))"
  using assms
proof (induction ids arbitrary: s i jobs)
  case (Cons c ids)
  let ?rest = "\<lambda>s1 jobs'. repair_loop selfID B targets (Suc i) ids s1 = (jobs', s')"
  have c: "ok_id c" using Cons.prems(1,2) stored_ok [of s c] by auto
  have shift: "(\<exists>k. k < length (c # ids) \<and> (c # ids) ! k = x \<and> selfID \<in> set (targets (i + k) x))
      \<longleftrightarrow> (c = x \<and> selfID \<in> set (targets i x))
        \<or> (\<exists>k. k < length ids \<and> ids ! k = x \<and> selfID \<in> set (targets (Suc i + k) x))" for x
    using Ex_less_Suc2 [of "length ids" "\<lambda>k. (c # ids) ! k = x \<and> selfID \<in> set (targets (i + k) x)"] by simp
  have shift_all: "(\<forall>k < length (c # ids). selfID \<in> set (targets (i + k) ((c # ids) ! k)) \<longrightarrow>
        (\<exists>d. \<lparr>ChunkID = (c # ids) ! k, Data = d\<rparr> \<in> set js))
      \<longleftrightarrow> (selfID \<in> set (targets i c) \<longrightarrow> (\<exists>d. \<lparr>ChunkID = c, Data = d\<rparr> \<in> set js))
        \<and> (\<forall>k < length ids. selfID \<in> set (targets (Suc i + k) (ids ! k)) \<longrightarrow>
            (\<exists>d. \<lparr>ChunkID = ids ! k, Data = d\<rparr> \<in> set js))" for js
    using All_less_Suc2 [of "length ids" "\<lambda>k. selfID \<in> set (targets (i + k) ((c # ids) ! k)) \<longrightarrow>
        (\<exists>d. \<lparr>ChunkID = (c # ids) ! k, Data = d\<rparr> \<in> set js)"]
    by simp
  show ?case
  proof (cases "selfID \<in> set (targets i c)")
    case False
    then have "?rest s jobs" using Cons.prems(3) by simp
    from Cons.IH [OF Cons.prems(1) _ this] Cons.prems(2) False show ?thesis
      unfolding shift shift_all by auto
  next
    case True
    obtain x s1 where g: "b_Get B c s = (x, s1)" by (cases "b_Get B c s") auto
    note G = get_inv [OF Cons.prems(1) c g]
    show ?thesis
    proof (cases x)
      case (Inl err)
      then have "\<not> reliable s"
        using get_reliable [OF Cons.prems(1) c _ g] Cons.prems(2) [of c] by (auto split: option.splits)
      moreover have "?rest s1 jobs" using Cons.prems(3) True g Inl by simp
      ultimately show ?thesis
        using Cons.IH [OF conjunct1 [OF G] _ \<open>?rest s1 jobs\<close>] Cons.prems(2) G unfolding shift by auto
    next
      case (Inr data)
      then have data: "stored s c = Some data" using get_ok [OF Cons.prems(1) c] g by simp
      obtain jobs' where r: "?rest s1 jobs'" and jobs: "jobs = \<lparr>ChunkID = c, Data = data\<rparr> # jobs'"
        using Cons.prems(3) True g Inr by (auto split: prod.splits)
      have rel: "reliable s \<Longrightarrow> reliable s1" using get_reliable [OF Cons.prems(1) c _ g] by simp
      from Cons.IH [OF conjunct1 [OF G] _ r] Cons.prems(2) G True data rel show ?thesis
        unfolding shift shift_all jobs by auto
    qed
  qed
qed simp

lemma repair_pass_spec:
  assumes "inv s" and "repairLocalChunks sha1 B rings dead (m, s) = (jobs, m', s')"
  shows "inv s' \<and> stored s' = stored s
    \<and> (\<forall>j \<in> set jobs. stored s (ChunkID j) = Some (Data j)
         \<and> (\<exists>k. man_selfID m \<in> set (GetN sha1 (rings k) (ChunkID j) Factor)))
    \<and> (reliable s \<longrightarrow> reliable s' \<and> (\<forall>c d. stored s c = Some d
         \<and> (\<forall>k. man_selfID m \<in> set (GetN sha1 (rings k) c Factor)) \<longrightarrow> \<lparr>ChunkID = c, Data = d\<rparr> \<in> set jobs))
    \<and> m' = m\<lparr>repairsComplete := repairsComplete m + 1\<rparr>"
proof -
  obtain y s1 where l: "b_List B s = (y, s1)" by (cases "b_List B s") auto
  note L = list_inv [OF assms(1) l]
  have m': "m' = m\<lparr>repairsComplete := repairsComplete m + 1\<rparr>"
    using assms(2) l by (cases y) (auto simp: repairLocalChunks_def repair_start_def repair_end_def split: prod.splits)
  show ?thesis
  proof (cases y)
    case (Inl e)
    with list_reliable [OF assms(1) _ l] have "\<not> reliable s" by auto
    with assms l L Inl m' show ?thesis by (auto simp: repairLocalChunks_def)
  next
    case (Inr ids)
    with list_ok [OF assms(1)] l have ids: "set ids = dom (stored s)" by simp
    have run: "repair_loop (man_selfID m) B (\<lambda>i c. GetN sha1 (rings i) c Factor) 0 ids s1 = (jobs, s')"
      using assms(2) l Inr by (auto simp: repairLocalChunks_def split: prod.splits)
    have "stored s1 c \<noteq> None" if "c \<in> set ids" for c using that ids L by auto
    note R = repair_loop_spec [OF conjunct1 [OF L] this run]
    have full: "\<lparr>ChunkID = c, Data = d\<rparr> \<in> set jobs"
      if "reliable s" "stored s c = Some d" "\<forall>k. man_selfID m \<in> set (GetN sha1 (rings k) c Factor)" for c d
    proof -
      from that(2) ids obtain k where k: "k < length ids" "ids ! k = c" by (metis domI in_set_conv_nth)
      have "reliable s1" using list_reliable [OF assms(1) that(1) l] by simp
      with R k that(3) obtain d' where d': "\<lparr>ChunkID = c, Data = d'\<rparr> \<in> set jobs" by fastforce
      with R L have "stored s c = Some d'" by fastforce
      with d' that(2) show ?thesis by simp
    qed
    have "reliable s1" if "reliable s" using list_reliable [OF assms(1) that l] by simp
    with R L full m' show ?thesis by auto
  qed
qed

end

end
