(* ===== verification/Api.thy ===== *)
theory Api
  imports Chunk Recovery
begin

text \<open>
  The HTTP surface of a node, from \<^verbatim>\<open>internal/api/server.go\<close>: routing, upload,
  download with its fallbacks, and the endpoints peers use. A response is what the handler does
  to its \<^verbatim>\<open>ResponseWriter\<close>; requests to other nodes go to an environment.
\<close>

section \<open>Responses\<close>

text \<open>
  The first \<^verbatim>\<open>WriteHeader\<close> fixes the status, a first \<^verbatim>\<open>Write\<close>
  without one means 200, and so does a handler that does neither. The connection may fail: the
  script says for each write how many bytes of it still go out (\<open>None\<close>: all).
\<close>

record response =
  rs_header :: "(string, string) gomap"
  rs_status :: "nat option"
  rs_body :: bytes
  rs_writes :: "nat option list"

definition new_response :: "nat option list \<Rightarrow> response" where
  "new_response script = \<lparr>rs_header = [], rs_status = None, rs_body = [], rs_writes = script\<rparr>"

definition Header_Set :: "string \<Rightarrow> string \<Rightarrow> response \<Rightarrow> response" where
  "Header_Set k v w = (if rs_status w = None then w\<lparr>rs_header := gm_set (rs_header w) k v\<rparr> else w)"

definition WriteHeader :: "nat \<Rightarrow> response \<Rightarrow> response" where
  "WriteHeader code w = (if rs_status w = None then w\<lparr>rs_status := Some code\<rparr> else w)"

definition rs_Write :: "bytes \<Rightarrow> response \<Rightarrow> go_error option \<times> response" where
  "rs_Write d w0 =
     (let w = WriteHeader 200 w0
      in case rs_writes w of
           Some n # r \<Rightarrow> (Some (Failure ''write: broken pipe''), w\<lparr>rs_body := rs_body w @ take n d, rs_writes := r\<rparr>)
         | None # r \<Rightarrow> (None, w\<lparr>rs_body := rs_body w @ d, rs_writes := r\<rparr>)
         | [] \<Rightarrow> (None, w\<lparr>rs_body := rs_body w @ d\<rparr>))"

definition final_status :: "response \<Rightarrow> nat" where
  "final_status w = (case rs_status w of None \<Rightarrow> 200 | Some c \<Rightarrow> c)"

definition http_Error :: "string \<Rightarrow> nat \<Rightarrow> response \<Rightarrow> response" where
  "http_Error msg code w =
     (let w1 = Header_Set ''Content-Type'' ''text/plain; charset=utf-8'' w;
          w2 = Header_Set ''X-Content-Type-Options'' ''nosniff'' w1;
          w3 = WriteHeader code w2
      in snd (rs_Write (bytes_of (msg @ [CHR 0x0A])) w3))"

fun error_string :: "go_error \<Rightarrow> string" where
  "error_string EOF = ''EOF''"
| "error_string ErrUnexpectedEOF = ''unexpected EOF''"
| "error_string ErrNotFound = ''storage: chunk not found''"
| "error_string ErrNotExist = ''file does not exist''"
| "error_string (Failure s) = s"
| "error_string (Wrapped s e) = s @ '': '' @ error_string e"

section \<open>JSON of a manifest\<close>

text \<open>
  \<^verbatim>\<open>encoding/json\<close> on the manifest. Characters of ASCII are escaped as the encoder
  does; bytes above are kept, which is what it does with well-formed UTF-8.
\<close>

definition json_char :: "char \<Rightarrow> string" where
  "json_char c =
     (let n = of_char c :: nat
      in if c = CHR 0x22 then [CHR 0x5C, CHR 0x22]
         else if c = CHR 0x5C then [CHR 0x5C, CHR 0x5C]
         else if n = 8 then [CHR 0x5C] @ ''b''
         else if n = 12 then [CHR 0x5C] @ ''f''
         else if n = 10 then [CHR 0x5C] @ ''n''
         else if n = 13 then [CHR 0x5C] @ ''r''
         else if n = 9 then [CHR 0x5C] @ ''t''
         else if n < 32 \<or> c = CHR ''<'' \<or> c = CHR ''>'' \<or> c = CHR ''&''
              then [CHR 0x5C] @ ''u00'' @ [hex_char (n div 16), hex_char (n mod 16)]
         else [c])"

definition json_string :: "string \<Rightarrow> string" where
  "json_string s = [CHR 0x22] @ concat (map json_char s) @ [CHR 0x22]"

fun json_list :: "string list \<Rightarrow> string" where
  "json_list [] = ''''"
| "json_list [s] = s"
| "json_list (s # t # ss) = s @ '','' @ json_list (t # ss)"

definition json_manifest :: "manifest \<Rightarrow> string" where
  "json_manifest m = ''{'' @ json_string ''blob_id'' @ '':'' @ json_string (BlobID m)
     @ '','' @ json_string ''size'' @ '':'' @ fmt_int (sint (Size m))
     @ '','' @ json_string ''chunk_ids'' @ '':['' @ json_list (map json_string (ChunkIDs m)) @ '']''
     @ '','' @ json_string ''chunk_size'' @ '':'' @ fmt_int (ChunkSize m) @ ''}'' @ [CHR 0x0A]"

section \<open>The server\<close>

text \<open>
  The server's fields. The engine is represented by what the handlers use of it: they hand over
  jobs, and the handlers below return them in the order of the calls.
\<close>

record ('s, 'c, 'cb) server =
  SelfID :: string
  Ring :: ring
  Local :: "'s backend"
  Cold :: "'c backend option"
  srv_Membership :: "'cb membership"
  manifests :: "(string, manifest) gomap"

definition NewServer ::
  "string \<Rightarrow> ring \<Rightarrow> 's backend \<Rightarrow> 'c backend option \<Rightarrow> 'cb membership \<Rightarrow> ('s, 'c, 'cb) server" where
  "NewServer selfID r local cold ms =
     \<lparr>SelfID = selfID, Ring = r, Local = local, Cold = cold, srv_Membership = ms, manifests = []\<rparr>"

text \<open>
  Routing on the method and the decoded segments of a clean path. \<^verbatim>\<open>GET\<close> patterns
  also take \<^verbatim>\<open>HEAD\<close>; a segment variable takes one segment that is not empty,
  whatever its decoded characters are; the subtree pattern redirects its path without the
  final slash.
\<close>

datatype route = RUpload string | RDownload string | RPutChunk string | RGetChunk string
  | RHealthz | RStatus | RRedirect | RMethodNotAllowed | RNotFound

fun join_path :: "string list \<Rightarrow> string" where
  "join_path [] = ''''"
| "join_path (s # ss) = ''/'' @ s @ join_path ss"

definition is_get :: "string \<Rightarrow> bool" where
  "is_get meth \<longleftrightarrow> meth = ''GET'' \<or> meth = ''HEAD''"

definition Routes :: "string \<Rightarrow> string list \<Rightarrow> route" where
  "Routes meth segs =
     (if segs = [''blobs''] then (if meth = ''POST'' \<or> is_get meth then RRedirect else RMethodNotAllowed)
      else if segs \<noteq> [] \<and> hd segs = ''blobs'' then
        (if meth = ''POST'' then RUpload (join_path segs)
         else if is_get meth then RDownload (join_path segs)
         else RMethodNotAllowed)
      else if length segs = 3 \<and> take 2 segs = [''internal'', ''chunks''] \<and> segs ! 2 \<noteq> '''' then
        (if meth = ''PUT'' then RPutChunk (segs ! 2)
         else if is_get meth then RGetChunk (segs ! 2)
         else RMethodNotAllowed)
      else if segs = [''healthz''] then (if is_get meth then RHealthz else RMethodNotAllowed)
      else if segs = [''status''] then (if is_get meth then RStatus else RMethodNotAllowed)
      else RNotFound)"

definition TrimPrefix :: "string \<Rightarrow> string \<Rightarrow> string" where
  "TrimPrefix s p = (if prefix p s then drop (length p) s else s)"

section \<open>Upload\<close>

text \<open>
  The loop over the chunks: store those this node is a target of, hand every chunk to the engine.
  \<open>targets i c\<close> is the replica set read in iteration \<open>i\<close>.
\<close>

fun upload_loop ::
  "string \<Rightarrow> 's backend \<Rightarrow> (nat \<Rightarrow> string \<Rightarrow> string list) \<Rightarrow> nat \<Rightarrow> chunk list \<Rightarrow> 's
     \<Rightarrow> go_error option \<times> job list \<times> 's" where
  "upload_loop selfID local targets i [] s = (None, [], s)"
| "upload_loop selfID local targets i (c # cs) s =
     (let ts = targets i (chunkID c);
          isLocalTarget = contains ts selfID;
          (err, s1) = (if isLocalTarget \<or> length ts = 0 then b_Put local (chunkID c) (chunkData c) s
                       else (None, s))
      in case err of
           Some e \<Rightarrow> (Some e, [], s1)
         | None \<Rightarrow>
             (let (res, jobs, s2) = upload_loop selfID local targets (Suc i) cs s1
              in (res, \<lparr>ChunkID = chunkID c, Data = chunkData c\<rparr> # jobs, s2)))"

definition handleUploadBlob ::
  "(bytes \<Rightarrow> bytes) \<Rightarrow> (bytes \<Rightarrow> bytes) \<Rightarrow> (nat \<Rightarrow> ring) \<Rightarrow> string \<Rightarrow> reader \<Rightarrow> response
     \<Rightarrow> ('s, 'c, 'cb) server \<Rightarrow> 's \<Rightarrow> (response \<times> job list \<times> ('s, 'c, 'cb) server \<times> 's) option" where
  "handleUploadBlob sha1 sha256 rings urlPath body w srv s =
     (let blobID = TrimPrefix urlPath ''/blobs/''
      in if blobID = '''' then Some (http_Error ''missing blob id in path'' 400 w, [], srv, s)
         else case Split sha256 blobID body DefaultSize of
                None \<Rightarrow> None
              | Some (Inl err) \<Rightarrow> Some (http_Error (''split failed: '' @ error_string err) 400 w, [], srv, s)
              | Some (Inr (chunks, mf)) \<Rightarrow>
                  (case upload_loop (SelfID srv) (Local srv) (\<lambda>i c. GetN sha1 (rings i) c Factor) 0 chunks s of
                     (Some e, jobs, s') \<Rightarrow> Some (http_Error ''storage failure'' 500 w, jobs, srv, s')
                   | (None, jobs, s') \<Rightarrow>
                       Some (snd (rs_Write (bytes_of (json_manifest mf)) (Header_Set ''Content-Type'' ''application/json'' w)),
                             jobs, srv\<lparr>manifests := gm_set (manifests srv) blobID mf\<rparr>, s')))"

section \<open>Download\<close>

text \<open>
  A peer's answer to \<^verbatim>\<open>GET /internal/chunks/{id}\<close>: no response, or a status and
  what reading its body gives.
\<close>

type_synonym get_reply = "go_error + (nat \<times> (go_error + bytes))"

definition addrForNode ::
  "((string \<times> Peer) list \<Rightarrow> (string \<times> Peer) list) \<Rightarrow> 'cb membership \<Rightarrow> string \<Rightarrow> string \<times> bool" where
  "addrForNode ord m nodeID =
     (case filter (\<lambda>p. peer_ID p = nodeID \<and> peer_State p = StateAlive) (Peers ord m) of
        [] \<Rightarrow> ('''', False)
      | p # ps \<Rightarrow> (Addr p, True))"

fun fetch_peers ::
  "string \<Rightarrow> (string \<Rightarrow> string \<times> bool) \<Rightarrow> (string \<Rightarrow> 'n \<Rightarrow> get_reply \<times> 'n) \<Rightarrow> string \<Rightarrow> string list \<Rightarrow> 'n
     \<Rightarrow> bytes option \<times> 'n" where
  "fetch_peers selfID addrFor http_Get c [] n = (None, n)"
| "fetch_peers selfID addrFor http_Get c (nodeID # ns) n =
     (if nodeID = selfID then fetch_peers selfID addrFor http_Get c ns n
      else
        (let (addr, ok) = addrFor nodeID
         in if \<not> ok then fetch_peers selfID addrFor http_Get c ns n
            else case http_Get (chunk_url addr c) n of
                   (Inr (status, body), n1) \<Rightarrow>
                     if status = 200
                     then (case body of Inr data \<Rightarrow> (Some data, n1)
                           | Inl e \<Rightarrow> fetch_peers selfID addrFor http_Get c ns n1)
                     else fetch_peers selfID addrFor http_Get c ns n1
                 | (Inl e, n1) \<Rightarrow> fetch_peers selfID addrFor http_Get c ns n1))"

text \<open>The world of a download: the response, the local store, the cold store, the network.\<close>

record ('s, 'c, 'n) io =
  io_resp :: response
  io_local :: 's
  io_cold :: 'c
  io_net :: 'n

definition fetchChunk ::
  "(bytes \<Rightarrow> bytes) \<Rightarrow> ((string \<times> Peer) list \<Rightarrow> (string \<times> Peer) list) \<Rightarrow> (string \<Rightarrow> 'n \<Rightarrow> get_reply \<times> 'n)
     \<Rightarrow> ('s, 'c, 'cb) server \<Rightarrow> string \<Rightarrow> ('s, 'c, 'n) io \<Rightarrow> (go_error + bytes) \<times> ('s, 'c, 'n) io" where
  "fetchChunk sha1 ord http_Get srv c w =
     (case b_Get (Local srv) c (io_local w) of
        (Inr data, s1) \<Rightarrow> (Inr data, w\<lparr>io_local := s1\<rparr>)
      | (Inl err, s1) \<Rightarrow>
          (case fetch_peers (SelfID srv) (addrForNode ord (srv_Membership srv)) http_Get c
                  (GetN sha1 (Ring srv) c Factor) (io_net w) of
             (Some data, n1) \<Rightarrow> (Inr data, w\<lparr>io_local := s1, io_net := n1\<rparr>)
           | (None, n1) \<Rightarrow>
               (case Cold srv of
                  None \<Rightarrow> (Inl ErrNotFound, w\<lparr>io_local := s1, io_net := n1\<rparr>)
                | Some cold \<Rightarrow>
                    (case b_Get cold c (io_cold w) of
                       (Inr data, c1) \<Rightarrow> (Inr data, w\<lparr>io_local := s1, io_net := n1, io_cold := c1\<rparr>)
                     | (Inl err', c1) \<Rightarrow> (Inl ErrNotFound, w\<lparr>io_local := s1, io_net := n1, io_cold := c1\<rparr>)))))"

definition io_Write :: "bytes \<Rightarrow> ('s, 'c, 'n) io \<Rightarrow> go_error option \<times> ('s, 'c, 'n) io" where
  "io_Write d w = (let (e, r) = rs_Write d (io_resp w) in (e, w\<lparr>io_resp := r\<rparr>))"

text \<open>The error of the reassembly is only logged; it is the second component here.\<close>

definition handleDownloadBlob ::
  "(bytes \<Rightarrow> bytes) \<Rightarrow> (bytes \<Rightarrow> bytes) \<Rightarrow> ((string \<times> Peer) list \<Rightarrow> (string \<times> Peer) list) \<Rightarrow> (string \<Rightarrow> 'n \<Rightarrow> get_reply \<times> 'n)
     \<Rightarrow> ('s, 'c, 'cb) server \<Rightarrow> string \<Rightarrow> ('s, 'c, 'n) io \<Rightarrow> ('s, 'c, 'n) io \<times> go_error option" where
  "handleDownloadBlob sha1 sha256 ord http_Get srv urlPath w =
     (let blobID = TrimPrefix urlPath ''/blobs/''
      in case gm_get (manifests srv) blobID of
           None \<Rightarrow> (w\<lparr>io_resp := http_Error ''unknown blob id'' 404 (io_resp w)\<rparr>, None)
         | Some mf \<Rightarrow>
             (let (err, w') = Reassemble sha256 io_Write mf (fetchChunk sha1 ord http_Get srv) w
              in (w', err)))"

section \<open>Endpoints for peers\<close>

definition ReadAll :: "reader \<Rightarrow> go_error + bytes" where
  "ReadAll rd = (if ending rd = EOF then Inr (content rd) else Inl (ending rd))"

definition handlePutChunk ::
  "(bytes \<Rightarrow> bytes) \<Rightarrow> string \<Rightarrow> reader \<Rightarrow> response \<Rightarrow> ('s, 'c, 'cb) server \<Rightarrow> 's \<Rightarrow> response \<times> 's" where
  "handlePutChunk sha256 cid body w srv s =
     (case ReadAll body of
        Inl err \<Rightarrow> (http_Error ''read failed'' 400 w, s)
      | Inr data \<Rightarrow>
          if \<not> Verify sha256 cid data then (http_Error ''chunk integrity check failed'' 400 w, s)
          else case b_Put (Local srv) cid data s of
                 (Some e, s1) \<Rightarrow> (http_Error ''storage failure'' 500 w, s1)
               | (None, s1) \<Rightarrow> (WriteHeader 200 w, s1))"

definition handleGetChunk :: "string \<Rightarrow> response \<Rightarrow> ('s, 'c, 'cb) server \<Rightarrow> 's \<Rightarrow> response \<times> 's" where
  "handleGetChunk cid w srv s =
     (case b_Get (Local srv) cid s of
        (Inl err, s1) \<Rightarrow> (http_Error ''not found'' 404 w, s1)
      | (Inr data, s1) \<Rightarrow> (snd (rs_Write data w), s1))"

definition handleHealthz :: "response \<Rightarrow> response" where
  "handleHealthz w = snd (rs_Write (bytes_of ''ok'') (WriteHeader 200 w))"

text \<open>
  \<^verbatim>\<open>/status\<close>: a map, which \<^verbatim>\<open>encoding/json\<close> writes in the order of its
  keys; the peers are structs without tags, their state a number. \<open>fmt_time\<close> is the text of a time.
\<close>

definition json_peer :: "(instant \<Rightarrow> string) \<Rightarrow> Peer \<Rightarrow> string" where
  "json_peer fmt_time p = ''{'' @ json_string ''ID'' @ '':'' @ json_string (peer_ID p)
     @ '','' @ json_string ''Addr'' @ '':'' @ json_string (Addr p)
     @ '','' @ json_string ''State'' @ '':'' @ fmt_d (State_iota (peer_State p))
     @ '','' @ json_string ''LastHeartbeat'' @ '':'' @ json_string (fmt_time (LastHeartbeat p)) @ ''}''"

record status_view =
  node_id :: string
  ring_nodes :: "string list"
  replication_q :: nat
  recovery :: string
  st_peers :: "Peer list"

definition json_status :: "(instant \<Rightarrow> string) \<Rightarrow> status_view \<Rightarrow> string" where
  "json_status fmt_time v = ''{'' @ json_string ''node_id'' @ '':'' @ json_string (node_id v)
     @ '','' @ json_string ''peers'' @ '':['' @ json_list (map (json_peer fmt_time) (st_peers v)) @ '']''
     @ '','' @ json_string ''recovery'' @ '':'' @ json_string (recovery v)
     @ '','' @ json_string ''replication_q'' @ '':'' @ fmt_d (replication_q v)
     @ '','' @ json_string ''ring_nodes'' @ '':['' @ json_list (map json_string (ring_nodes v)) @ '']'' @ ''}'' @ [CHR 0x0A]"

definition handleStatus ::
  "(instant \<Rightarrow> string) \<Rightarrow> ((string \<times> bool) list \<Rightarrow> (string \<times> bool) list) \<Rightarrow> ((string \<times> Peer) list \<Rightarrow> (string \<times> Peer) list)
     \<Rightarrow> ('s, 'c, 'cb) server \<Rightarrow> pool \<Rightarrow> manager \<Rightarrow> response \<Rightarrow> response" where
  "handleStatus fmt_time ord ord' srv q rec w =
     snd (rs_Write (bytes_of (json_status fmt_time
            \<lparr>node_id = SelfID srv, ring_nodes = ring_Nodes ord (Ring srv), replication_q = QueueDepth q,
             recovery = manager_Status rec, st_peers = Peers ord' (srv_Membership srv)\<rparr>))
          (Header_Set ''Content-Type'' ''application/json'' w))"

section \<open>Serving a request\<close>

text \<open>
  A request as the multiplexer sees it: method, decoded segments of the path, body. The answers of the
  multiplexer itself are those of \<^verbatim>\<open>net/http\<close>: a permanent redirect with its link
  for \<^verbatim>\<open>GET\<close>, the allowed methods, or not found.
\<close>

record request =
  req_Method :: string
  req_segs :: "string list"
  req_Body :: reader

definition http_Redirect :: "string \<Rightarrow> string \<Rightarrow> response \<Rightarrow> response" where
  "http_Redirect meth url w =
     (let w1 = Header_Set ''Location'' url w;
          w2 = (if is_get meth then Header_Set ''Content-Type'' ''text/html; charset=utf-8'' w1 else w1);
          w3 = WriteHeader 301 w2
      in if meth = ''GET''
         then snd (rs_Write (bytes_of (''<a href='' @ [CHR 0x22] @ url @ [CHR 0x22] @ ''>Moved Permanently</a>.'' @ [CHR 0x0A, CHR 0x0A])) w3)
         else w3)"

definition allowed_methods :: "string list \<Rightarrow> string" where
  "allowed_methods segs =
     (if segs \<noteq> [] \<and> hd segs = ''blobs'' then ''GET, HEAD, POST''
      else if length segs = 3 then ''GET, HEAD, PUT''
      else ''GET, HEAD'')"

text \<open>
  The handlers behind their routes. \<open>None\<close> is an upload whose body never ends. The jobs are those
  handed to Enqueue.
\<close>

definition ServeHTTP ::
  "(bytes \<Rightarrow> bytes) \<Rightarrow> (bytes \<Rightarrow> bytes) \<Rightarrow> (nat \<Rightarrow> ring) \<Rightarrow> ((string \<times> bool) list \<Rightarrow> (string \<times> bool) list)
     \<Rightarrow> ((string \<times> Peer) list \<Rightarrow> (string \<times> Peer) list) \<Rightarrow> (string \<Rightarrow> 'n \<Rightarrow> get_reply \<times> 'n) \<Rightarrow> (instant \<Rightarrow> string)
     \<Rightarrow> pool \<Rightarrow> manager \<Rightarrow> request \<Rightarrow> ('s, 'c, 'cb) server \<Rightarrow> ('s, 'c, 'n) io
     \<Rightarrow> (('s, 'c, 'n) io \<times> job list \<times> ('s, 'c, 'cb) server) option" where
  "ServeHTTP sha1 sha256 rings ord ord' http_Get fmt_time q rec rq srv io =
     (let w = io_resp io; answer = (\<lambda>w'. Some (io\<lparr>io_resp := w'\<rparr>, [], srv))
      in case Routes (req_Method rq) (req_segs rq) of
           RUpload path \<Rightarrow>
             (case handleUploadBlob sha1 sha256 rings path (req_Body rq) w srv (io_local io) of
                None \<Rightarrow> None
              | Some (w', jobs, srv', s') \<Rightarrow> Some (io\<lparr>io_resp := w', io_local := s'\<rparr>, jobs, srv'))
         | RDownload path \<Rightarrow> (let (io', err) = handleDownloadBlob sha1 sha256 ord' http_Get srv path io in Some (io', [], srv))
         | RPutChunk cid \<Rightarrow>
             (let (w', s') = handlePutChunk sha256 cid (req_Body rq) w srv (io_local io)
              in Some (io\<lparr>io_resp := w', io_local := s'\<rparr>, [], srv))
         | RGetChunk cid \<Rightarrow>
             (let (w', s') = handleGetChunk cid w srv (io_local io) in Some (io\<lparr>io_resp := w', io_local := s'\<rparr>, [], srv))
         | RHealthz \<Rightarrow> answer (handleHealthz w)
         | RStatus \<Rightarrow> answer (handleStatus fmt_time ord ord' srv q rec w)
         | RRedirect \<Rightarrow> answer (http_Redirect (req_Method rq) (join_path (req_segs rq) @ ''/'') w)
         | RMethodNotAllowed \<Rightarrow>
             answer (http_Error ''Method Not Allowed'' 405 (Header_Set ''Allow'' (allowed_methods (req_segs rq)) w))
         | RNotFound \<Rightarrow> answer (http_Error ''404 page not found'' 404 w))"

end
