(* ===== verification/ApiProperties.thy ===== *)
theory ApiProperties
  imports Api LocalFSProperties
begin

text \<open>
  What the handlers guarantee: acknowledged uploads, integrity of downloads from any mixture of
  sources, the fallback order of reads, verified content of the store; and the defects the model
  exposes (failed downloads answered with 200, acknowledged chunks that are in memory only,
  damaged local copies, chunk IDs that name other files).
\<close>

section \<open>Uploads over any store\<close>

definition job_of :: "chunk \<Rightarrow> job" where
  "job_of c = \<lparr>ChunkID = chunkID c, Data = chunkData c\<rparr>"

definition local_target :: "string \<Rightarrow> string list \<Rightarrow> bool" where
  "local_target selfID ts \<longleftrightarrow> selfID \<in> set ts \<or> ts = []"

lemma upload_loop_Cons:
  "upload_loop selfID B targets i (c # cs) s =
     (case (if local_target selfID (targets i (chunkID c)) then b_Put B (chunkID c) (chunkData c) s else (None, s)) of
        (Some e, s1) \<Rightarrow> (Some e, [], s1)
      | (None, s1) \<Rightarrow>
          (let (res, jobs, s2) = upload_loop selfID B targets (Suc i) cs s1 in (res, job_of c # jobs, s2)))"
  by (simp add: local_target_def job_of_def split: prod.splits option.splits)

declare upload_loop.simps(2) [simp del]

definition same_data :: "chunk list \<Rightarrow> bool" where
  "same_data cs \<longleftrightarrow> (\<forall>c \<in> set cs. \<forall>c' \<in> set cs. chunkID c = chunkID c' \<longrightarrow> chunkData c = chunkData c')"

lemma same_data_tl: "same_data (c # cs) \<Longrightarrow> same_data cs"
  unfolding same_data_def by (meson list.set_intros(2))

context backend_spec
begin

lemma upload_loop_spec:
  assumes "inv s" and "\<forall>c \<in> set cs. ok_id (chunkID c)" and "same_data cs"
    and "upload_loop selfID B targets i cs s = (res, jobs, s')"
  shows "inv s' \<and> (\<exists>n. jobs = map job_of (take n cs) \<and> (res = None \<longrightarrow> jobs = map job_of cs))
    \<and> (\<forall>x. stored s' x = stored s x \<or> (\<exists>k < length cs. chunkID (cs ! k) = x
          \<and> local_target selfID (targets (i + k) x) \<and> stored s' x = Some (chunkData (cs ! k))))
    \<and> (res = None \<longrightarrow> (\<forall>k < length cs. local_target selfID (targets (i + k) (chunkID (cs ! k))) \<longrightarrow>
          stored s' (chunkID (cs ! k)) = Some (chunkData (cs ! k))))
    \<and> (reliable s \<longrightarrow> res = None \<and> reliable s')"
  using assms
proof (induction cs arbitrary: s i jobs)
  case (Cons c cs)
  have ok: "ok_id (chunkID c)" "\<forall>c \<in> set cs. ok_id (chunkID c)" "same_data cs"
    using Cons.prems(2) same_data_tl [OF Cons.prems(3)] by simp_all
  let ?lt = "local_target selfID (targets i (chunkID c))"
  obtain e s1 where p: "(if ?lt then b_Put B (chunkID c) (chunkData c) s else (None, s)) = (e, s1)"
    by (cases "if ?lt then b_Put B (chunkID c) (chunkData c) s else (None, s)") auto
  have "inv s1 \<and> stored s1 = (if ?lt \<and> e = None then (stored s)(chunkID c \<mapsto> chunkData c) else stored s)
    \<and> (reliable s \<longrightarrow> e = None \<and> reliable s1) \<and> (\<not> ?lt \<longrightarrow> e = None)"
  proof (cases ?lt)
    case True
    then have w: "b_Put B (chunkID c) (chunkData c) s = (e, s1)" using p by simp
    have "stored s1 = (if e = None then (stored s)(chunkID c \<mapsto> chunkData c) else stored s)"
      using w put_ok [OF Cons.prems(1) ok(1)] put_err [OF Cons.prems(1) ok(1)] by (cases e) auto
    with True show ?thesis
      using put_inv [OF Cons.prems(1) ok(1) w] put_reliable [OF Cons.prems(1) ok(1) _ w] by simp
  next
    case False
    with p Cons.prems(1) show ?thesis by auto
  qed
  then have P: "inv s1" "stored s1 = (if ?lt \<and> e = None then (stored s)(chunkID c \<mapsto> chunkData c) else stored s)"
    "reliable s \<longrightarrow> e = None \<and> reliable s1" "\<not> ?lt \<Longrightarrow> e = None" by blast+
  show ?case
  proof (cases e)
    case (Some err)
    with Cons.prems(4) p have "res = Some err" "jobs = []" "s' = s1" by (simp_all add: upload_loop_Cons)
    with P Some show ?thesis by auto
  next
    case None
    obtain jobs' where r: "upload_loop selfID B targets (Suc i) cs s1 = (res, jobs', s')" "jobs = job_of c # jobs'"
      using Cons.prems(4) p None by (auto simp: upload_loop_Cons split: prod.splits)
    from Cons.IH [OF P(1) ok(2,3) r(1)]
    have inv': "inv s'" and rel: "reliable s1 \<longrightarrow> res = None \<and> reliable s'"
      and jobs: "\<exists>n. jobs' = map job_of (take n cs) \<and> (res = None \<longrightarrow> jobs' = map job_of cs)"
      and old: "\<And>x. stored s' x = stored s1 x \<or> (\<exists>k < length cs. chunkID (cs ! k) = x
          \<and> local_target selfID (targets (Suc i + k) x) \<and> stored s' x = Some (chunkData (cs ! k)))"
      and new: "\<And>k. res = None \<Longrightarrow> k < length cs \<Longrightarrow> local_target selfID (targets (Suc i + k) (chunkID (cs ! k))) \<Longrightarrow>
          stored s' (chunkID (cs ! k)) = Some (chunkData (cs ! k))" by blast+
    have head: "stored s' (chunkID c) = Some (chunkData c)" if "?lt"
    proof (rule disjE [OF old [of "chunkID c"]])
      assume "\<exists>k < length cs. chunkID (cs ! k) = chunkID c
          \<and> local_target selfID (targets (Suc i + k) (chunkID c)) \<and> stored s' (chunkID c) = Some (chunkData (cs ! k))"
      then obtain k where "k < length cs" "chunkID (cs ! k) = chunkID c" "stored s' (chunkID c) = Some (chunkData (cs ! k))"
        by blast
      moreover have "chunkData (cs ! k) = chunkData c"
        using Cons.prems(3) calculation(1,2) unfolding same_data_def
        by (meson list.set_intros(1) list.set_intros(2) nth_mem)
      ultimately show ?thesis by simp
    qed (use P(2) that None in simp)
    have "\<exists>n. jobs = map job_of (take n (c # cs)) \<and> (res = None \<longrightarrow> jobs = map job_of (c # cs))"
      using jobs r(2) by (metis list.simps(9) take_Suc_Cons)
    moreover have "stored s' x = stored s x \<or> (\<exists>k < length (c # cs). chunkID ((c # cs) ! k) = x
          \<and> local_target selfID (targets (i + k) x) \<and> stored s' x = Some (chunkData ((c # cs) ! k)))" for x
    proof -
      have "(\<exists>k < length (c # cs). chunkID ((c # cs) ! k) = x
            \<and> local_target selfID (targets (i + k) x) \<and> stored s' x = Some (chunkData ((c # cs) ! k)))
          \<longleftrightarrow> (chunkID c = x \<and> local_target selfID (targets i x) \<and> stored s' x = Some (chunkData c))
            \<or> (\<exists>k < length cs. chunkID (cs ! k) = x
                \<and> local_target selfID (targets (Suc i + k) x) \<and> stored s' x = Some (chunkData (cs ! k)))"
        using Ex_less_Suc2 [of "length cs" "\<lambda>k. chunkID ((c # cs) ! k) = x
            \<and> local_target selfID (targets (i + k) x) \<and> stored s' x = Some (chunkData ((c # cs) ! k))"] by simp
      moreover have "stored s1 x = stored s x \<or> (chunkID c = x \<and> local_target selfID (targets i x) \<and> stored s1 x = Some (chunkData c))"
        using P(2) None by (cases ?lt) auto
      ultimately show ?thesis using old [of x] by metis
    qed
    moreover have "stored s' (chunkID ((c # cs) ! k)) = Some (chunkData ((c # cs) ! k))"
      if "res = None" "k < length (c # cs)" "local_target selfID (targets (i + k) (chunkID ((c # cs) ! k)))" for k
      using that new [of "k - 1"] head by (cases k) auto
    ultimately show ?thesis using inv' rel P(3) None by blast
  qed
qed (auto simp: upload_loop.simps(1))

end

section \<open>What a source can hand out\<close>

text \<open>
  After any reads of IDs in \<open>C\<close>, a read of an ID in \<open>C\<close> gives an error or a member of \<open>S\<close>.
\<close>

definition serves :: "('k \<Rightarrow> 's \<Rightarrow> (go_error + bytes) \<times> 's) \<Rightarrow> 'k set \<Rightarrow> bytes set \<Rightarrow> 's \<Rightarrow> bool" where
  "serves g C S s \<longleftrightarrow>
     (\<forall>cs c d. set cs \<subseteq> C \<and> c \<in> C \<and> fst (g c (fold (\<lambda>k s. snd (g k s)) cs s)) = Inr d \<longrightarrow> d \<in> S)"

lemma serves_step: "serves g C S s \<Longrightarrow> c \<in> C \<Longrightarrow> g c s = (x, s') \<Longrightarrow> serves g C S s'"
  unfolding serves_def
proof (intro allI impI)
  fix cs k d
  assume *: "\<forall>cs c d. set cs \<subseteq> C \<and> c \<in> C \<and> fst (g c (fold (\<lambda>k s. snd (g k s)) cs s)) = Inr d \<longrightarrow> d \<in> S"
    "c \<in> C" "g c s = (x, s')" "set cs \<subseteq> C \<and> k \<in> C \<and> fst (g k (fold (\<lambda>k s. snd (g k s)) cs s')) = Inr d"
  then have "set (c # cs) \<subseteq> C \<and> k \<in> C \<and> fst (g k (fold (\<lambda>k s. snd (g k s)) (c # cs) s)) = Inr d" by simp
  with *(1) show "d \<in> S" by blast
qed

lemma serves_get: "serves g C S s \<Longrightarrow> c \<in> C \<Longrightarrow> g c s = (Inr d, s') \<Longrightarrow> d \<in> S"
  unfolding serves_def by (drule spec [of _ "[]"], drule spec [of _ c], drule spec [of _ d]) simp

lemma serves_UNIV: "serves g C UNIV s"
  by (simp add: serves_def)

context backend_spec
begin

lemma serves_stored:
  assumes "inv s" and "\<forall>c \<in> C. ok_id c" and "ran (stored s) \<subseteq> S"
  shows "serves (b_Get B) C S s"
proof -
  have reads: "inv (fold (\<lambda>k s. snd (b_Get B k s)) cs s) \<and> stored (fold (\<lambda>k s. snd (b_Get B k s)) cs s) = stored s"
    if "set cs \<subseteq> C" for cs
    using that assms(1)
  proof (induction cs arbitrary: s)
    case (Cons c cs)
    with assms(2) have "ok_id c" by auto
    from get_inv [OF Cons.prems(2) this prod.collapse [symmetric]] Cons.IH [of "snd (b_Get B c s)"] Cons.prems(1)
    show ?case by simp
  qed simp
  show ?thesis
    unfolding serves_def
  proof (intro allI impI)
    fix cs c d
    let ?s = "fold (\<lambda>k s. snd (b_Get B k s)) cs s"
    assume *: "set cs \<subseteq> C \<and> c \<in> C \<and> fst (b_Get B c ?s) = Inr d"
    then have "ok_id c" "b_Get B c ?s = (Inr d, snd (b_Get B c ?s))"
      using assms(2) by (auto simp: prod_eq_iff)
    then have "stored ?s c = Some d" using get_ok reads * by blast
    then show "d \<in> S" using reads * assms(3) by (metis ranI subsetD)
  qed
qed

end

definition net_get :: "(string \<Rightarrow> 'n \<Rightarrow> get_reply \<times> 'n) \<Rightarrow> string \<Rightarrow> 'n \<Rightarrow> (go_error + bytes) \<times> 'n" where
  "net_get http_Get url n =
     (case http_Get url n of
        (Inr (status, Inr d), n1) \<Rightarrow> if status = 200 then (Inr d, n1) else (Inl EOF, n1)
      | (r, n1) \<Rightarrow> (Inl EOF, n1))"

definition chunk_urls :: "string set \<Rightarrow> string set" where
  "chunk_urls C = {chunk_url a c | a c. c \<in> C}"

lemma fetch_peers_Cons:
  "fetch_peers selfID addrFor http_Get c (nodeID # ns) n =
     (if nodeID = selfID \<or> \<not> snd (addrFor nodeID) then fetch_peers selfID addrFor http_Get c ns n
      else case net_get http_Get (chunk_url (fst (addrFor nodeID)) c) n of
             (Inr d, n1) \<Rightarrow> (Some d, n1)
           | (Inl e, n1) \<Rightarrow> fetch_peers selfID addrFor http_Get c ns n1)"
  by (auto simp: net_get_def split: prod.splits sum.splits)

declare fetch_peers.simps(2) [simp del]

lemma fetch_peers_serves:
  assumes "serves (net_get http_Get) (chunk_urls C) S n" and "c \<in> C"
    and "fetch_peers selfID addrFor http_Get c ns n = (r, n')"
  shows "serves (net_get http_Get) (chunk_urls C) S n' \<and> (\<forall>d. r = Some d \<longrightarrow> d \<in> S)"
  using assms(1,3)
proof (induction ns arbitrary: n)
  case (Cons nodeID ns)
  let ?url = "chunk_url (fst (addrFor nodeID)) c"
  have url: "?url \<in> chunk_urls C" using assms(2) by (auto simp: chunk_urls_def)
  obtain x n1 where g: "net_get http_Get ?url n = (x, n1)" by (cases "net_get http_Get ?url n") auto
  note S = serves_step [OF Cons.prems(1) url g]
  show ?case
  proof (cases "nodeID = selfID \<or> \<not> snd (addrFor nodeID)")
    case True
    with Cons show ?thesis by (simp add: fetch_peers_Cons)
  next
    case False
    show ?thesis
    proof (cases x)
      case (Inl e)
      with False Cons.prems(2) g Cons.IH [OF S] show ?thesis by (simp add: fetch_peers_Cons)
    next
      case (Inr d)
      with g serves_get [OF Cons.prems(1) url, of d n1] False Cons.prems(2) S show ?thesis
        by (auto simp: fetch_peers_Cons)
    qed
  qed
qed simp

text \<open>The sources of a download only hand out members of \<open>S\<close> for the chunks \<open>C\<close>.\<close>

definition io_inv ::
  "('s, 'c, 'cb) server \<Rightarrow> (string \<Rightarrow> 'n \<Rightarrow> get_reply \<times> 'n) \<Rightarrow> string set \<Rightarrow> bytes set \<Rightarrow> ('s, 'c, 'n) io \<Rightarrow> bool" where
  "io_inv srv http_Get C S w \<longleftrightarrow> serves (b_Get (Local srv)) C S (io_local w)
     \<and> serves (net_get http_Get) (chunk_urls C) S (io_net w)
     \<and> (\<forall>cold. Cold srv = Some cold \<longrightarrow> serves (b_Get cold) C S (io_cold w))"

lemma fetchChunk_resp [simp]: "fetchChunk sha1 ord http_Get srv c w = (x, w') \<Longrightarrow> io_resp w' = io_resp w"
  by (auto simp: fetchChunk_def split: prod.splits sum.splits option.splits)

lemma fetchChunk_inv:
  assumes inv: "io_inv srv http_Get C S w" and c: "c \<in> C" and f: "fetchChunk sha1 ord http_Get srv c w = (x, w')"
  shows "io_inv srv http_Get C S w' \<and> (\<forall>d. x = Inr d \<longrightarrow> d \<in> S)"
proof -
  note I = inv [unfolded io_inv_def]
  obtain y s1 where l: "b_Get (Local srv) c (io_local w) = (y, s1)" by (cases "b_Get (Local srv) c (io_local w)") auto
  note L = serves_step [OF conjunct1 [OF I] c l]
  obtain r n1 where p: "fetch_peers (SelfID srv) (addrForNode ord (srv_Membership srv)) http_Get c
      (GetN sha1 (Ring srv) c Factor) (io_net w) = (r, n1)" by fastforce
  note P = fetch_peers_serves [OF conjunct1 [OF conjunct2 [OF I]] c p]
  show ?thesis
  proof (cases y)
    case (Inr d)
    with f l L I serves_get [OF conjunct1 [OF I] c, of d s1] show ?thesis
      by (auto simp: fetchChunk_def io_inv_def)
  next
    case (Inl e)
    show ?thesis
    proof (cases r)
      case (Some d)
      with f l Inl p P L I show ?thesis by (auto simp: fetchChunk_def io_inv_def)
    next
      case none: None
      show ?thesis
      proof (cases "Cold srv")
        case None
        with f l Inl p none P L show ?thesis by (auto simp: fetchChunk_def io_inv_def)
      next
        case (Some cold)
        obtain z c1 where k: "b_Get cold c (io_cold w) = (z, c1)" by (cases "b_Get cold c (io_cold w)") auto
        have sc: "serves (b_Get cold) C S (io_cold w)" using I Some by simp
        note K = serves_step [OF sc c k] and K2 = serves_get [OF sc c]
        show ?thesis
        proof (cases z)
          case (Inl e')
          with f l \<open>y = Inl e\<close> p none Some k P L K show ?thesis by (auto simp: fetchChunk_def io_inv_def)
        next
          case (Inr d)
          with f l \<open>y = Inl e\<close> p none Some k P L K K2 [of d c1] show ?thesis
            by (auto simp: fetchChunk_def io_inv_def)
        qed
      qed
    qed
  qed
qed

lemma rs_Write_body:
  "rs_Write d w = (None, w') \<Longrightarrow> rs_body w' = rs_body w @ d"
  "rs_Write d w = (Some e, w') \<Longrightarrow> \<exists>n. rs_body w' = rs_body w @ take n d"
  "rs_Write d w = (r, w') \<Longrightarrow> rs_status w' = Some (final_status w)"
  by (auto simp: rs_Write_def WriteHeader_def Let_def final_status_def split: list.splits option.splits if_splits)

interpretation dl: blob_io "fetchChunk sha1 ord http_Get srv" io_Write "\<lambda>w. rs_body (io_resp w)"
    "io_inv srv http_Get C S" C S
  for sha1 ord http_Get srv C S
proof (unfold_locales, goal_cases)
  case (1 c s x s')
  then show ?case by simp
next
  case (2 s c x s')
  then show ?case using fetchChunk_inv by blast
next
  case (3 s c d s')
  then show ?case using fetchChunk_inv by blast
next
  case (4 s d r s')
  then show ?case by (auto simp: io_Write_def io_inv_def split: prod.splits)
next
  case (5 d s s')
  then show ?case by (auto simp: io_Write_def dest: rs_Write_body(1) split: prod.splits)
next
  case (6 d s e s')
  then show ?case by (auto simp: io_Write_def dest: rs_Write_body(2) split: prod.splits)
qed

section \<open>Small facts\<close>

lemma TrimPrefix_blobs [simp]: "TrimPrefix (''/blobs/'' @ blobID) ''/blobs/'' = blobID"
  by (simp add: TrimPrefix_def)

lemma Split_chunks:
  assumes "Split sha256 blobID rd c = Some (Inr (chunks, m))"
  defines "ds \<equiv> pieces (nat (effective_size c)) (content rd)"
  shows "map chunkData chunks = ds \<and> ChunkIDs m = map (ID sha256) ds
    \<and> concat ds = content rd \<and> (\<forall>ch \<in> set chunks. chunkID ch = ID sha256 (chunkData ch))"
  unfolding ds_def
proof -
  let ?ds = "pieces (nat (effective_size c)) (content rd)"
  have m: "chunks = make_chunks sha256 0 ?ds" "ChunkIDs m = map (ID sha256) ?ds"
    using assms by (auto simp: Split_spec Let_def split: if_splits)
  have "\<forall>ch \<in> set chunks. chunkID ch = ID sha256 (chunkData ch)"
    unfolding m(1) by (auto simp: make_chunks_def)
  moreover have "concat ?ds = content rd" using less_imp_le [OF effective_size_pos, of c] by (simp add: concat_pieces)
  ultimately show "map chunkData chunks = ?ds \<and> ChunkIDs m = map (ID sha256) ?ds
    \<and> concat ?ds = content rd \<and> (\<forall>ch \<in> set chunks. chunkID ch = ID sha256 (chunkData ch))"
    using m by simp
qed

lemma handleUploadBlob_total:
  "\<exists>w' jobs srv' s'. handleUploadBlob sha1 sha256 rings urlPath body w srv s = Some (w', jobs, srv', s')"
proof -
  have "handleUploadBlob sha1 sha256 rings urlPath body w srv s \<noteq> None"
    by (simp add: handleUploadBlob_def Split_spec Let_def split: option.split sum.split prod.split)
  then show ?thesis by (metis not_None_eq prod.exhaust)
qed

lemma rs_Write_status: "rs_status (snd (rs_Write d w)) = Some (final_status w)"
  using rs_Write_body(3) [of d w "fst (rs_Write d w)" "snd (rs_Write d w)"] by simp

lemma Header_Set_status [simp]: "rs_status (Header_Set k v w) = rs_status w"
  by (simp add: Header_Set_def)

lemma upload_outcome:
  assumes "blobID \<noteq> ''''"
  shows "Split sha256 blobID body DefaultSize = Some (Inl err) \<Longrightarrow>
      handleUploadBlob sha1 sha256 rings (''/blobs/'' @ blobID) body w srv s
        = Some (http_Error (''split failed: '' @ error_string err) 400 w, [], srv, s)"
    and "Split sha256 blobID body DefaultSize = Some (Inr (chunks, m)) \<Longrightarrow>
      upload_loop (SelfID srv) (Local srv) (\<lambda>i c. GetN sha1 (rings i) c Factor) 0 chunks s = (Some e, jobs, s') \<Longrightarrow>
      handleUploadBlob sha1 sha256 rings (''/blobs/'' @ blobID) body w srv s
        = Some (http_Error ''storage failure'' 500 w, jobs, srv, s')"
    and "Split sha256 blobID body DefaultSize = Some (Inr (chunks, m)) \<Longrightarrow>
      upload_loop (SelfID srv) (Local srv) (\<lambda>i c. GetN sha1 (rings i) c Factor) 0 chunks s = (None, jobs, s') \<Longrightarrow>
      handleUploadBlob sha1 sha256 rings (''/blobs/'' @ blobID) body w srv s
        = Some (snd (rs_Write (bytes_of (json_manifest m)) (Header_Set ''Content-Type'' ''application/json'' w)), jobs,
            srv\<lparr>manifests := gm_set (manifests srv) blobID m\<rparr>, s')"
  unfolding handleUploadBlob_def TrimPrefix_blobs Let_def
  by (simp_all only: assms if_False option.case sum.case prod.case)

lemma upload_ok_status:
  "rs_status w = None \<Longrightarrow> final_status (snd (rs_Write d (Header_Set k v w))) = 200"
  using rs_Write_status [of d "Header_Set k v w"] by (simp add: final_status_def)

lemma effective_size_default: "effective_size DefaultSize = DefaultSize"
  by (simp add: effective_size_def DefaultSize_def)

lemma ID_hex: "set (ID sha256 d) \<subseteq> hex_chars"
  unfolding ID_def by (rule set_EncodeToString)

lemma ok_id_ID: "sha256 d \<noteq> [] \<Longrightarrow> ok_id (ID sha256 d)"
  by (rule ok_id_hex [OF ID_hex]) (auto simp: ID_def EncodeToString_def)

lemma http_Error_status [simp]: "rs_status w = None \<Longrightarrow> final_status (http_Error msg code w) = code"
  by (auto simp: http_Error_def final_status_def rs_Write_def WriteHeader_def Header_Set_def Let_def
      split: list.splits option.splits)

text \<open>A digest for the witnesses.\<close>

definition sample_sha256 :: "bytes \<Rightarrow> bytes" where
  "sample_sha256 b = 1 # b"

lemma sample_sha256_inj: "inj_on sample_sha256 A"
  by (simp add: inj_on_def sample_sha256_def)

section \<open>Upload\<close>

text \<open>
  C8. An acknowledged upload is complete. When the handler answers 200, the manifest of the whole
  body is registered under the blob's name, every chunk is in the local store if this node is one
  of its targets (or there is none), and every chunk was handed to the replication engine, in
  order. Otherwise the answer is 400 or 500 and no manifest is registered. Either way the store
  gains only chunks whose hash is their ID, and without environment failures a body that ends
  properly is answered 200.
\<close>

theorem upload_acknowledged:
  assumes "localfs_inv l s" and "Local srv = LocalFS l" and "\<forall>b. sha256 b \<noteq> []"
    and "inj_on sha256 (set (pieces (nat DefaultSize) (content body)))"
    and "rs_status w = None" and "blobID \<noteq> ''''"
    and "handleUploadBlob sha1 sha256 rings (''/blobs/'' @ blobID) body w srv s = Some (w', jobs, srv', s')"
  shows "(final_status w' = 200 \<longrightarrow> (\<exists>chunks m. Split sha256 blobID body DefaultSize = Some (Inr (chunks, m))
        \<and> gm_get (manifests srv') blobID = Some m \<and> jobs = map job_of chunks
        \<and> (\<forall>k < length chunks. local_target (SelfID srv) (GetN sha1 (rings k) (chunkID (chunks ! k)) Factor) \<longrightarrow>
             localfs_stored l s' (chunkID (chunks ! k)) = Some (chunkData (chunks ! k)))))
    \<and> (final_status w' \<noteq> 200 \<longrightarrow> final_status w' \<in> {400, 500} \<and> manifests srv' = manifests srv)
    \<and> (\<forall>x. localfs_stored l s' x = localfs_stored l s x
         \<or> (\<exists>d. localfs_stored l s' x = Some d \<and> Verify sha256 x d))
    \<and> (no_faults s \<and> ending body = EOF \<longrightarrow> final_status w' = 200)"
proof -
  obtain r where sp: "Split sha256 blobID body DefaultSize = Some r" by (simp add: Split_spec)
  show ?thesis
  proof (cases r)
    case (Inl err)
    have "ending body \<noteq> EOF" using sp Inl by (auto simp: Split_spec accepted_end_def Let_def split: if_splits)
    moreover have "w' = http_Error (''split failed: '' @ error_string err) 400 w" "srv' = srv" "s' = s"
      using trans [OF assms(7) [symmetric] upload_outcome(1) [OF assms(6) sp [unfolded Inl]]] by simp_all
    ultimately show ?thesis using assms(5) by simp
  next
    case (Inr cm)
    obtain chunks m where cm: "cm = (chunks, m)" by fastforce
    note C = Split_chunks [OF sp [unfolded Inr cm]]
    then have ids: "\<forall>ch \<in> set chunks. chunkID ch = ID sha256 (chunkData ch)" by blast
    have ds: "chunkData ` set chunks = set (pieces (nat DefaultSize) (content body))"
      using C unfolding effective_size_default by (metis list.set_map)
    have ok: "\<forall>ch \<in> set chunks. ok_id (chunkID ch)" using ids ok_id_ID assms(3) by simp
    have same: "same_data chunks"
      unfolding same_data_def
    proof (intro ballI impI)
      fix c c' assume c: "c \<in> set chunks" "c' \<in> set chunks" "chunkID c = chunkID c'"
      then have "sha256 (chunkData c) = sha256 (chunkData c')"
        using ids by (auto simp: ID_def dest: EncodeToString_inj)
      then show "chunkData c = chunkData c'"
        using inj_onD [OF assms(4)] c(1,2) ds by blast
    qed
    obtain res js s1 where u: "upload_loop (SelfID srv) (Local srv) (\<lambda>i c. GetN sha1 (rings i) c Factor) 0 chunks s = (res, js, s1)"
      by (metis prod.exhaust)
    note U = lfs.upload_loop_spec [OF assms(1) ok same u [unfolded assms(2)]]
    have only: "\<forall>x. localfs_stored l s1 x = localfs_stored l s x \<or> (\<exists>d. localfs_stored l s1 x = Some d \<and> Verify sha256 x d)"
      using U ids by (metis Verify_def nth_mem)
    show ?thesis
    proof (cases res)
      case (Some e)
      then have "w' = http_Error ''storage failure'' 500 w" "srv' = srv" "s' = s1"
        using trans [OF assms(7) [symmetric] upload_outcome(2) [OF assms(6) sp [unfolded Inr cm] u [unfolded Some]]] by simp_all
      with assms(5) only U Some show ?thesis by simp
    next
      case None
      then have w': "w' = snd (rs_Write (bytes_of (json_manifest m)) (Header_Set ''Content-Type'' ''application/json'' w))"
        and rest: "srv' = srv\<lparr>manifests := gm_set (manifests srv) blobID m\<rparr>" "s' = s1" "jobs = js"
        using trans [OF assms(7) [symmetric] upload_outcome(3) [OF assms(6) sp [unfolded Inr cm] u [unfolded None]]] by simp_all
      have "final_status w' = 200" unfolding w' by (rule upload_ok_status [OF assms(5)])
      with rest only U None sp Inr cm show ?thesis by (auto simp: gomap_simps)
    qed
  qed
qed

definition sample_server :: "(fsys, memory, bool) server" where
  "sample_server = NewServer ''self'' ring_New (LocalFS sample_localfs) None sample_membership"

lemma sample_server_fields [simp]:
  "SelfID sample_server = ''self''" "Ring sample_server = ring_New" "Local sample_server = LocalFS sample_localfs"
  "Cold sample_server = None" "manifests sample_server = []" "srv_Membership sample_server = sample_membership"
  by (simp_all add: sample_server_def NewServer_def)

lemma upload_acknowledged_witness:
  "\<exists>w' jobs srv' s'. handleUploadBlob sample_sha1 sample_sha256 (\<lambda>i. ring_New) ''/blobs/x'' [RData [7, 8]] (new_response [])
       sample_server sample_fs = Some (w', jobs, srv', s')
     \<and> final_status w' = 200 \<and> localfs_stored sample_localfs s' ''010708'' = Some [7, 8]"
proof -
  have split: "Split sample_sha256 ''x'' [RData [7, 8]] DefaultSize
      = Some (Inr (make_chunks sample_sha256 0 [[7, 8]],
          \<lparr>BlobID = ''x'', Size = 2, ChunkIDs = [ID sample_sha256 [7, 8]], ChunkSize = DefaultSize\<rparr>))"
    by (simp add: Split_spec accepted_end_def effective_size_def DefaultSize_def pieces_short)
  obtain w' jobs srv' s' where run: "handleUploadBlob sample_sha1 sample_sha256 (\<lambda>i. ring_New) (''/blobs/'' @ ''x'')
      [RData [7, 8]] (new_response []) sample_server sample_fs = Some (w', jobs, srv', s')"
    using handleUploadBlob_total [of sample_sha1 sample_sha256 "\<lambda>i. ring_New" "''/blobs/'' @ ''x''" "[RData [7, 8]]"
        "new_response []" sample_server sample_fs] by blast
  have "GetN sample_sha1 ring_New c Factor = []" for c by (simp add: GetN_def ring_New_def)
  moreover have "chunkID (make_chunks sample_sha256 0 [[7, 8]] ! 0) = ''010708''"
    by (simp add: ID_def sample_sha256_def hex_char_def)
  ultimately have "final_status w' = 200 \<and> localfs_stored sample_localfs s' ''010708'' = Some [7, 8]"
    using upload_acknowledged [OF sample_fs_inv(1) _ _ sample_sha256_inj _ _ run] split sample_fs_inv(2)
    by (auto simp: sample_sha256_def new_response_def local_target_def)
  with run show ?thesis by auto
qed

text \<open>
  An acknowledged chunk may exist in memory only. When this node is not among the targets
  of any chunk, the upload is answered 200 although the store of the node is exactly as
  before: until a worker has pushed it, a chunk lives in the queue of the engine alone, and a
  crash loses the acknowledged blob.
\<close>

lemma upload_not_durable:
  assumes "\<forall>k c. \<not> local_target (SelfID srv) (GetN sha1 (rings k) c Factor)"
    and "ending body = EOF" and "blobID \<noteq> ''''" and "rs_status w = None"
  shows "\<exists>w' jobs srv'. handleUploadBlob sha1 sha256 rings (''/blobs/'' @ blobID) body w srv s = Some (w', jobs, srv', s)
    \<and> final_status w' = 200 \<and> concat (map Data jobs) = content body"
proof -
  obtain chunks m where sp: "Split sha256 blobID body DefaultSize = Some (Inr (chunks, m))"
    using assms(2) by (simp add: Split_spec accepted_end_def Let_def)
  have u: "upload_loop (SelfID srv) (Local srv) (\<lambda>i c. GetN sha1 (rings i) c Factor) i cs s = (None, map job_of cs, s)" for i cs
    using assms(1) by (induction cs arbitrary: i) (auto simp: upload_loop_Cons upload_loop.simps(1))
  have "concat (map Data (map job_of chunks)) = concat (map chunkData chunks)" by (simp add: job_of_def comp_def)
  also have "\<dots> = content body" using Split_chunks [OF sp] by simp
  finally have "concat (map Data (map job_of chunks)) = content body" .
  with upload_outcome(3) [OF assms(3) sp u] upload_ok_status [OF assms(4)] show ?thesis by blast
qed

lemma upload_not_durable_witness:
  "\<exists>w' jobs srv'. handleUploadBlob sample_sha1 sample_sha256 (\<lambda>i. sample_ring) ''/blobs/x'' [RData [7, 8]] (new_response [])
      sample_server sample_fs = Some (w', jobs, srv', sample_fs) \<and> final_status w' = 200"
proof -
  have "\<not> local_target ''self'' (GetN sample_sha1 sample_ring c Factor)" for c
    using hr.getn_members [OF sample_ring_inv, of c Factor] hr.getn_length [OF sample_ring_inv, of c Factor]
    by (auto simp: local_target_def sample_ring_set Factor_def)
  then show ?thesis
    using upload_not_durable [of sample_server sample_sha1 "\<lambda>i. sample_ring" "[RData [7, 8]]" "''x''" "new_response []"
        sample_sha256 sample_fs]
    by (auto simp: new_response_def)
qed

section \<open>Download\<close>

lemma download_known:
  "gm_get (manifests srv) blobID = Some mf \<Longrightarrow>
     handleDownloadBlob sha1 sha256 ord http_Get srv (''/blobs/'' @ blobID) w
       = (snd (Reassemble sha256 io_Write mf (fetchChunk sha1 ord http_Get srv) w),
          fst (Reassemble sha256 io_Write mf (fetchChunk sha1 ord http_Get srv) w))"
  unfolding handleDownloadBlob_def TrimPrefix_blobs Let_def by (simp add: split_beta)

lemma download_run:
  assumes "gm_get (manifests srv) blobID = Some mf"
    and "handleDownloadBlob sha1 sha256 ord http_Get srv (''/blobs/'' @ blobID) w = (w', err)"
  shows "reassemble_loop sha256 io_Write (fetchChunk sha1 ord http_Get srv) (ChunkIDs mf) w = (err, w')"
proof -
  let ?R = "Reassemble sha256 io_Write mf (fetchChunk sha1 ord http_Get srv) w"
  have "(snd ?R, fst ?R) = (w', err)" by (rule trans [OF download_known [OF assms(1), symmetric] assms(2)])
  then have "?R = (err, w')" by (simp only: prod.inject prod_eq_iff fst_conv snd_conv)
  then show ?thesis by (simp only: Reassemble_def)
qed

lemma fetchChunk_local:
  "b_Get (Local srv) c (io_local w) = (Inr d, s1) \<Longrightarrow>
     fetchChunk sha1 ord http_Get srv c w = (Inr d, w\<lparr>io_local := s1\<rparr>)"
  by (simp add: fetchChunk_def)

lemma fetchChunk_error: "fst (fetchChunk sha1 ord http_Get srv c w) = Inl e \<Longrightarrow> e = ErrNotFound"
  by (auto simp: fetchChunk_def split: prod.splits sum.splits option.splits)

text \<open>
  C3. A download never delivers a wrong byte. Whatever the local store, the peers and the cold tier
  hand out for the chunks of a blob - damaged, stale or forged, as long as the digest tells the
  strings involved apart - the body is a prefix of the uploaded bytes, also when the connection
  breaks, and it is all of them when the reassembly reports no error.
\<close>

theorem download_integrity:
  assumes "Split sha256 blobID body DefaultSize = Some (Inr (chunks, m))"
    and "gm_get (manifests srv) blobID = Some m"
    and "io_inv srv http_Get (set (ChunkIDs m)) S w" and "inj_on sha256 (chunkData ` set chunks \<union> S)"
    and "handleDownloadBlob sha1 sha256 ord http_Get srv (''/blobs/'' @ blobID) w = (w', err)"
  shows "\<exists>out. rs_body (io_resp w') = rs_body (io_resp w) @ out \<and> prefix out (content body)
    \<and> (err = None \<longrightarrow> out = content body)"
proof -
  let ?ds = "pieces (nat (effective_size DefaultSize)) (content body)"
  note C = Split_chunks [OF assms(1)]
  have run: "reassemble_loop sha256 io_Write (fetchChunk sha1 ord http_Get srv) (map (ID sha256) ?ds) w = (err, w')"
    using download_run [OF assms(2,5)] C by simp
  have "inj_on sha256 (set ?ds \<union> S)" using assms(4) C by (metis list.set_map)
  moreover have "ID sha256 ` set ?ds \<subseteq> set (ChunkIDs m)" using C by simp
  ultimately have "\<exists>n. rs_body (io_resp w') = rs_body (io_resp w) @ take n (concat ?ds)
      \<and> (err = None \<longrightarrow> rs_body (io_resp w') = rs_body (io_resp w) @ concat ?ds)"
    using dl.reassemble_prefix [OF assms(3) _ _ run] by blast
  then show ?thesis using C by (metis append_same_eq same_append_eq take_is_prefix)
qed

definition sample_io :: "(fsys, memory, unit) io" where
  "sample_io = \<lparr>io_resp = new_response [], io_local = sample_fs, io_cold = NewMemory, io_net = ()\<rparr>"

definition sample_manifest :: manifest where
  "sample_manifest = \<lparr>BlobID = ''x'', Size = 2, ChunkIDs = [ID sample_sha256 [7, 8]], ChunkSize = DefaultSize\<rparr>"

definition downloading_server :: "(fsys, memory, bool) server" where
  "downloading_server = sample_server\<lparr>Ring := sample_ring, manifests := [(''x'', sample_manifest)]\<rparr>"

lemma sample_split:
  "Split sample_sha256 ''x'' [RData [7, 8]] DefaultSize
     = Some (Inr (make_chunks sample_sha256 0 [[7, 8]], sample_manifest))"
  by (simp add: Split_spec accepted_end_def effective_size_def DefaultSize_def pieces_short sample_manifest_def)

lemma downloading_server_manifest: "gm_get (manifests downloading_server) ''x'' = Some sample_manifest"
  by (simp add: downloading_server_def gm_get_def)

lemma download_integrity_witness:
  "prefix (rs_body (io_resp (fst (handleDownloadBlob sample_sha1 sample_sha256 (\<lambda>xs. xs) (\<lambda>url n. (Inr (200, Inr [6]), n))
      downloading_server (''/blobs/'' @ ''x'') sample_io)))) [7, 8]"
proof -
  obtain w' err where run: "handleDownloadBlob sample_sha1 sample_sha256 (\<lambda>xs. xs) (\<lambda>url n. (Inr (200, Inr [6]), n))
      downloading_server (''/blobs/'' @ ''x'') sample_io = (w', err)" by fastforce
  have "io_inv downloading_server (\<lambda>url n. (Inr (200, Inr [6]), n)) (set (ChunkIDs sample_manifest)) UNIV sample_io"
    by (simp add: io_inv_def serves_UNIV)
  from download_integrity [OF sample_split downloading_server_manifest this sample_sha256_inj run] run show ?thesis
    by (auto simp: sample_io_def new_response_def)
qed

text \<open>
  A failed download is answered with 200. For a blob whose manifest is known the status is 200
  whatever happens, and when the first chunk cannot be had from any source the client
  receives a successful, empty response; the error is only logged.
\<close>

lemma failed_download_answers_200:
  assumes "gm_get (manifests srv) blobID = Some m" and "rs_status (io_resp w) = None"
    and "handleDownloadBlob sha1 sha256 ord http_Get srv (''/blobs/'' @ blobID) w = (w', err)"
  shows "final_status (io_resp w') = 200
    \<and> (\<forall>c cs e. ChunkIDs m = c # cs \<and> fst (fetchChunk sha1 ord http_Get srv c w) = Inl e \<longrightarrow>
         err \<noteq> None \<and> io_resp w' = io_resp w)"
proof -
  let ?f = "fetchChunk sha1 ord http_Get srv"
  have status: "rs_status (io_resp w2) \<in> {None, Some 200}"
    if "reassemble_loop sha256 io_Write ?f ids w1 = (r, w2)" "rs_status (io_resp w1) \<in> {None, Some 200}" for ids w1 r w2
    using that
  proof (induction ids arbitrary: w1)
    case (Cons c ids)
    obtain x w3 where f: "?f c w1 = (x, w3)" by (cases "?f c w1") auto
    then have st: "rs_status (io_resp w3) \<in> {None, Some 200}" using Cons.prems(2) by simp
    show ?case
    proof (cases "\<exists>d. x = Inr d \<and> Verify sha256 c d")
      case False
      with Cons.prems(1) f have "w2 = w3" by (auto split: sum.splits if_splits)
      with st show ?thesis by simp
    next
      case True
      then obtain d where d: "x = Inr d" "Verify sha256 c d" by blast
      obtain e w4 where wr: "io_Write d w3 = (e, w4)" by (cases "io_Write d w3") auto
      then have st4: "rs_status (io_resp w4) \<in> {None, Some 200}"
        using st by (auto simp: io_Write_def final_status_def dest!: rs_Write_body(3) split: prod.splits)
      show ?thesis
      proof (cases e)
        case None
        with Cons.prems(1) f d wr have "reassemble_loop sha256 io_Write ?f ids w4 = (r, w2)" by simp
        from Cons.IH [OF this st4] show ?thesis .
      next
        case (Some err)
        with Cons.prems(1) f d wr st4 show ?thesis by simp
      qed
    qed
  qed simp
  have run: "reassemble_loop sha256 io_Write ?f (ChunkIDs m) w = (err, w')"
    by (rule download_run [OF assms(1,3)])
  have "err \<noteq> None \<and> io_resp w' = io_resp w" if ids: "ChunkIDs m = c # cs" and f: "fst (?f c w) = Inl e" for c cs e
  proof -
    obtain w1 where "?f c w = (Inl e, w1)" using f by (metis fst_conv surj_pair)
    with run ids show ?thesis by auto
  qed
  then show ?thesis using status [OF run] assms(2) by (auto simp: final_status_def)
qed

lemma failed_download_answers_200_witness:
  "final_status (io_resp (fst (handleDownloadBlob sample_sha1 sample_sha256 (\<lambda>xs. xs) (\<lambda>url n. (Inl EOF, n))
      downloading_server (''/blobs/'' @ ''x'') sample_io))) = 200"
proof -
  have "rs_status (io_resp sample_io) = None" by (simp add: sample_io_def new_response_def)
  from failed_download_answers_200 [OF downloading_server_manifest this prod.collapse [symmetric]] show ?thesis by blast
qed

section \<open>The fallback chain\<close>

definition table_ok :: "'cb membership \<Rightarrow> bool" where
  "table_ok m \<longleftrightarrow> gm_ok (peers m) \<and> (\<forall>k p. gm_get (peers m) k = Some p \<longrightarrow> peer_ID p = k)"

lemma Peers_table:
  assumes "table_ok m" and "range_order ord"
  shows "p \<in> set (Peers ord m) \<longleftrightarrow> gm_get (peers m) (peer_ID p) = Some p"
proof -
  have "p \<in> set (Peers ord m) \<longleftrightarrow> (\<exists>k. (k, p) \<in> set (peers m))"
    using range_order_set [OF assms(2)] by (force simp: Peers_def)
  also have "\<dots> \<longleftrightarrow> (\<exists>k. gm_get (peers m) k = Some p)"
    using assms(1) by (simp add: table_ok_def gm_get_eq_Some)
  also have "\<dots> \<longleftrightarrow> gm_get (peers m) (peer_ID p) = Some p" using assms(1) by (auto simp: table_ok_def)
  finally show ?thesis .
qed

lemma addrForNode_table:
  assumes "table_ok m" and "range_order ord"
  shows "addrForNode ord m nodeID = (case gm_get (peers m) nodeID of
      Some p \<Rightarrow> if peer_State p = StateAlive then (Addr p, True) else ('''', False)
    | None \<Rightarrow> ('''', False))"
proof -
  let ?P = "\<lambda>p. peer_ID p = nodeID \<and> peer_State p = StateAlive"
  note mem = Peers_table [OF assms]
  show ?thesis
  proof (cases "filter ?P (Peers ord m)")
    case Nil
    then have "\<not> ?P p" if "gm_get (peers m) (peer_ID p) = Some p" for p
      using that mem by (auto simp: filter_empty_conv)
    then have "gm_get (peers m) nodeID = Some p \<Longrightarrow> peer_State p \<noteq> StateAlive" for p
      using assms(1) by (metis table_ok_def)
    with Nil show ?thesis by (auto simp: addrForNode_def split: option.splits)
  next
    case (Cons p ps)
    then have "p \<in> set (filter ?P (Peers ord m))" by (metis list.set_intros(1))
    with mem have "gm_get (peers m) nodeID = Some p" "peer_State p = StateAlive" by auto
    with Cons show ?thesis by (simp add: addrForNode_def)
  qed
qed

lemma fetch_peers_available:
  assumes "nodeID \<in> set ns" and "nodeID \<noteq> selfID" and "addrFor nodeID = (addr, True)"
    and "\<And>n. \<exists>d n'. net_get http_Get (chunk_url addr c) n = (Inr d, n')"
  shows "\<exists>d n'. fetch_peers selfID addrFor http_Get c ns n = (Some d, n')"
  using assms(1)
proof (induction ns arbitrary: n)
  case (Cons k ns)
  obtain x n1 where g: "net_get http_Get (chunk_url (fst (addrFor k)) c) n = (x, n1)"
    by (cases "net_get http_Get (chunk_url (fst (addrFor k)) c) n") auto
  show ?case
  proof (cases "k = nodeID")
    case True
    with assms(2-4) show ?thesis by (simp add: fetch_peers_Cons) (metis (mono_tags, lifting) old.prod.case sum.case(2))
  next
    case False
    with Cons show ?thesis using g by (cases x) (auto simp: fetch_peers_Cons)
  qed
qed simp


definition four_peers :: "bool membership" where
  "four_peers = fold (\<lambda>n. AddPeer n (n @ '':80'') 0) [''a'', ''b'', ''c'', ''d'']
     (registered ''self'' ''h1:80'' 0 [True] [False])"

lemma four_peers_table:
  "peers four_peers = map (\<lambda>n. (n, \<lparr>peer_ID = n, Addr = n @ '':80'', peer_State = StateAlive, LastHeartbeat = 0\<rparr>))
     [''a'', ''b'', ''c'', ''d'']"
  by (simp add: four_peers_def AddPeer_def registered_eq membership_New_def gm_set_def gm_get_def)

lemma sample_store_empty: "localfs_stored sample_localfs sample_fs = Map.empty"
  by (auto simp: fun_eq_iff localfs_stored_def tree_stored_def file_at_def sample_fs_def gm_get_def
      sample_localfs_def Join_def Clean_def)


text \<open>
  A damaged local copy is never repaired by a read. When the local store returns other
  bytes than the chunk's ID promises, the chunk is taken from there and no peer is asked, so
  the download stops with an integrity error although every other replica may be good.
\<close>

lemma damaged_local_copy_blocks_download:
  assumes "gm_get (manifests srv) blobID = Some m" and "ChunkIDs m = c # cs"
    and "b_Get (Local srv) c (io_local w) = (Inr d, s1)" and "\<not> Verify sha256 c d"
  shows "handleDownloadBlob sha1 sha256 ord http_Get srv (''/blobs/'' @ blobID) w
    = (w\<lparr>io_local := s1\<rparr>, Some (Failure (''chunk: integrity check failed for '' @ c)))"
proof -
  let ?R = "Reassemble sha256 io_Write m (fetchChunk sha1 ord http_Get srv) w"
  have "?R = (Some (Failure (''chunk: integrity check failed for '' @ c)), w\<lparr>io_local := s1\<rparr>)"
    using assms(2,4) fetchChunk_local [OF assms(3)] by (simp add: Reassemble_def)
  then show ?thesis unfolding download_known [OF assms(1)] by simp
qed

lemma damaged_local_copy_blocks_download_witness:
  "snd (handleDownloadBlob sample_sha1 sample_sha256 (\<lambda>xs. xs) (\<lambda>url n. (Inr (200, Inr [7, 8]), n))
      downloading_server (''/blobs/'' @ ''x'')
      (sample_io\<lparr>io_local := snd (LocalFS_Put sample_localfs (ID sample_sha256 [7, 8]) [6] sample_fs)\<rparr>)) \<noteq> None"
proof -
  let ?c = "ID sample_sha256 [7, 8]"
  let ?s = "snd (LocalFS_Put sample_localfs ?c [6] sample_fs)"
  have ok: "ok_id ?c" by (rule ok_id_ID) (simp add: sample_sha256_def)
  note P = LocalFS_Put_spec [OF sample_fs_inv(1) ok prod.collapse [symmetric], of "[6]"]
  then have "localfs_stored sample_localfs ?s ?c = Some [6]" using sample_fs_inv(2) by simp
  with LocalFS_Get_spec [OF conjunct1 [OF P] ok prod.collapse [symmetric]] P sample_fs_inv(2)
  have "LocalFS_Get sample_localfs ?c ?s = (Inr [6], snd (LocalFS_Get sample_localfs ?c ?s))" by (simp add: prod_eq_iff)
  then have "b_Get (Local downloading_server) ?c (io_local (sample_io\<lparr>io_local := ?s\<rparr>))
      = (Inr [6], snd (LocalFS_Get sample_localfs ?c ?s))" by (simp add: downloading_server_def)
  moreover have "\<not> Verify sample_sha256 ?c [6]" by (simp add: Verify_def ID_def sample_sha256_def hex_char_def)
  moreover have "ChunkIDs sample_manifest = [?c]" by (simp add: sample_manifest_def)
  ultimately show ?thesis
    using damaged_local_copy_blocks_download [OF downloading_server_manifest] by (metis option.distinct(1) snd_conv)
qed

section \<open>Endpoints for peers\<close>

definition verified :: "(bytes \<Rightarrow> bytes) \<Rightarrow> (string \<rightharpoonup> bytes) \<Rightarrow> bool" where
  "verified sha256 st \<longleftrightarrow> (\<forall>c d. st c = Some d \<longrightarrow> Verify sha256 c d)"

lemma handlePutChunk_spec:
  assumes "localfs_inv l s" and "Local srv = LocalFS l" and "\<forall>b. sha256 b \<noteq> []" and "rs_status w = None"
    and "handlePutChunk sha256 cid body w srv s = (w', s')"
  shows "localfs_inv l s'
    \<and> (final_status w' = 200 \<longrightarrow> ending body = EOF \<and> Verify sha256 cid (content body)
         \<and> localfs_stored l s' = (localfs_stored l s)(cid \<mapsto> content body))
    \<and> (final_status w' \<noteq> 200 \<longrightarrow> localfs_stored l s' = localfs_stored l s)
    \<and> (verified sha256 (localfs_stored l s) \<longrightarrow> verified sha256 (localfs_stored l s'))
    \<and> (no_faults s \<and> ending body = EOF \<and> Verify sha256 cid (content body) \<longrightarrow> final_status w' = 200)"
proof (cases "ending body = EOF \<and> Verify sha256 cid (content body)")
  case False
  then have "s' = s \<and> final_status w' = 400"
    using assms(4,5) by (auto simp: handlePutChunk_def ReadAll_def split: if_splits)
  with False assms(1) show ?thesis by auto
next
  case True
  then have cid: "cid = ID sha256 (content body)" by (simp add: Verify_def)
  have ok: "ok_id cid" unfolding cid by (rule ok_id_ID) (use assms(3) in blast)
  obtain e s1 where p: "LocalFS_Put l cid (content body) s = (e, s1)"
    by (cases "LocalFS_Put l cid (content body) s") auto
  note P = LocalFS_Put_spec [OF assms(1) ok p]
  have w': "s' = s1 \<and> final_status w' = (if e = None then 200 else 500)"
  proof (cases e)
    case None
    with assms(2,4,5) True p show ?thesis
      by (auto simp: handlePutChunk_def ReadAll_def final_status_def WriteHeader_def)
  next
    case (Some err)
    with assms(2,4,5) True p show ?thesis by (auto simp: handlePutChunk_def ReadAll_def)
  qed
  with P True show ?thesis by (auto simp: verified_def)
qed

text \<open>
  The store is content-addressed. A pushed chunk is stored only if its bytes hash to the ID in
  the URL; a push that is not answered 200 changes no chunk; and a store in which every chunk
  hashes to its ID stays one under any push. Without environment failures a complete push of
  matching bytes is stored and answered 200.
\<close>

lemma pushed_chunks_verified:
  assumes "localfs_inv l s" and "Local srv = LocalFS l" and "\<forall>b. sha256 b \<noteq> []" and "rs_status w = None"
    and "handlePutChunk sha256 cid body w srv s = (w', s')"
  shows "localfs_inv l s'
    \<and> (final_status w' = 200 \<longrightarrow> ending body = EOF \<and> Verify sha256 cid (content body)
         \<and> localfs_stored l s' = (localfs_stored l s)(cid \<mapsto> content body))
    \<and> (final_status w' \<noteq> 200 \<longrightarrow> localfs_stored l s' = localfs_stored l s)
    \<and> (verified sha256 (localfs_stored l s) \<longrightarrow> verified sha256 (localfs_stored l s'))
    \<and> (no_faults s \<and> ending body = EOF \<and> Verify sha256 cid (content body) \<longrightarrow> final_status w' = 200)"
  by (rule handlePutChunk_spec [OF assms])

lemma pushed_chunks_verified_witness:
  "localfs_stored sample_localfs (snd (handlePutChunk sample_sha256 (ID sample_sha256 [7, 8]) [RData [7], RData [8]]
      (new_response []) sample_server sample_fs)) (ID sample_sha256 [7, 8]) = Some [7, 8]"
proof -
  obtain w' s' where run: "handlePutChunk sample_sha256 (ID sample_sha256 [7, 8]) [RData [7], RData [8]]
      (new_response []) sample_server sample_fs = (w', s')" by fastforce
  have "Local sample_server = LocalFS sample_localfs" "\<forall>b. sample_sha256 b \<noteq> []" "rs_status (new_response []) = None"
    by (simp_all add: sample_sha256_def new_response_def)
  from pushed_chunks_verified [OF sample_fs_inv(1) this run] run sample_fs_inv(2) show ?thesis
    by (auto simp: Verify_def)
qed

text \<open>
  C34. The chunk endpoint serves any file. For every path there is a request for an internal chunk -
  one segment whose encoded slashes the router decodes - that is routed to the handler and, for a
  file the process can read, answered 200 with the bytes of that file.
\<close>

theorem chunk_endpoint_serves_any_file:
  assumes "p \<noteq> []" and "\<forall>s \<in> set p. ordinary s" and "Local srv = LocalFS l"
    and "faults fs = []" and "resolve p (tree fs) = Inr (FFile b)"
  shows "\<exists>cid. Routes ''GET'' [''internal'', ''chunks'', cid] = RGetChunk cid
    \<and> handleGetChunk cid (new_response []) srv fs
        = (\<lparr>rs_header = [], rs_status = Some 200, rs_body = b, rs_writes = []\<rparr>, fs)"
proof -
  let ?c = "escape_id l p"
  have path: "lfs_path l ?c = p" by (rule lfs_path_escape [OF assms(1,2)])
  have "?c \<noteq> ''''" using escape_id_take(1) [OF assms(1), of l] by auto
  then have "Routes ''GET'' [''internal'', ''chunks'', ?c] = RGetChunk ?c"
    by (simp add: Routes_def is_get_def numeral_2_eq_2 numeral_3_eq_3)
  moreover have "LocalFS_Get l ?c fs = (Inr b, fs)"
    using assms(4,5) path by (simp add: LocalFS_Get_def os_ReadFile_def next_fault_def fault_error_def)
  then have "handleGetChunk ?c (new_response []) srv fs
      = (\<lparr>rs_header = [], rs_status = Some 200, rs_body = b, rs_writes = []\<rparr>, fs)"
    by (simp add: handleGetChunk_def assms(3) rs_Write_def WriteHeader_def new_response_def Let_def)
  ultimately show ?thesis by blast
qed

lemma chunk_endpoint_serves_any_file_witness:
  "\<exists>cid. fst (handleGetChunk cid (new_response []) sample_server
      \<lparr>tree = [([], FDir), ([''data''], FDir), ([''etc''], FDir), ([''etc'', ''passwd''], FFile [1, 2, 3])], faults = []\<rparr>)
    = \<lparr>rs_header = [], rs_status = Some 200, rs_body = [1, 2, 3], rs_writes = []\<rparr>"
proof -
  let ?fs = "\<lparr>tree = [([], FDir), ([''data''], FDir), ([''etc''], FDir), ([''etc'', ''passwd''], FFile [1, 2, 3])], faults = []\<rparr>"
  have "\<exists>cid. Routes ''GET'' [''internal'', ''chunks'', cid] = RGetChunk cid
    \<and> handleGetChunk cid (new_response []) sample_server ?fs
        = (\<lparr>rs_header = [], rs_status = Some 200, rs_body = [1, 2, 3], rs_writes = []\<rparr>, ?fs)"
    by (rule chunk_endpoint_serves_any_file [of "[''etc'', ''passwd'']" _ sample_localfs])
       (simp_all add: ordinary_def resolve_def gm_get_def)
  then show ?thesis by (metis fst_conv)
qed

end
