(* ===== verification/Healing.thy ===== *)
theory Healing
  imports ApiProperties
begin

text \<open>
  The cluster as a whole: the file-system stores of its nodes, connected by the HTTP transport of
  the replication engine to the chunk endpoints of the servers. The theorems compose the ring,
  the recovery manager, the engine and the handlers into the claim the repository makes of them:
  the death of a node does not lose a replicated chunk, and the survivors restore its replicas.
\<close>

section \<open>Nodes and network\<close>

text \<open>
  The nodes with their addresses and servers, and those that are up. The network delivers a request
  to the node whose address is in the URL, if it is up; the world is the store of each node.
\<close>

record ('c, 'cb) cluster =
  cl_nodes :: "string list"
  cl_addr :: "string \<Rightarrow> string"
  cl_root :: "string \<Rightarrow> localfs"
  cl_srv :: "string \<Rightarrow> (fsys, 'c, 'cb) server"
  cl_up :: "string set"

type_synonym stores = "string \<Rightarrow> fsys"

fun locate :: "(string \<Rightarrow> string) \<Rightarrow> string list \<Rightarrow> string \<Rightarrow> (string \<times> string) option" where
  "locate addr [] url = None"
| "locate addr (n # ns) url =
     (let p = chunk_url (addr n) ''''
      in if prefix p url then Some (n, drop (length p) url) else locate addr ns url)"

definition cluster_Do ::
  "(bytes \<Rightarrow> bytes) \<Rightarrow> ('c, 'cb) cluster \<Rightarrow> string \<Rightarrow> string \<Rightarrow> bytes \<Rightarrow> stores \<Rightarrow> http_result \<times> stores" where
  "cluster_Do sha256 cl meth url data st =
     (case locate (cl_addr cl) (cl_nodes cl) url of
        None \<Rightarrow> (Inl (Failure ''no such host''), st)
      | Some (n, seg) \<Rightarrow>
          if n \<notin> cl_up cl then (Inl (Failure ''connection refused''), st)
          else case Routes meth [''internal'', ''chunks'', seg] of
                 RPutChunk cid \<Rightarrow>
                   (let (resp, s') = handlePutChunk sha256 cid [RData data] (new_response []) (cl_srv cl n) (st n)
                    in (Inr (final_status resp), st(n := s')))
               | _ \<Rightarrow> (Inr 404, st))"

definition cluster_env :: "(bytes \<Rightarrow> bytes) \<Rightarrow> ('c, 'cb) cluster \<Rightarrow> stores env" where
  "cluster_env sha256 cl =
     \<lparr>PushChunk = HTTP_PushChunk \<lparr>new_request = (\<lambda>meth url. None), client_Do = cluster_Do sha256 cl\<rparr>,
      Backoff = (\<lambda>t st. (False, st))\<rparr>"

definition resolver :: "('c, 'cb) cluster \<Rightarrow> string \<Rightarrow> string \<times> bool" where
  "resolver cl n = (if n \<in> set (cl_nodes cl) then (cl_addr cl n, True) else ('''', False))"

definition cl_stored :: "('c, 'cb) cluster \<Rightarrow> stores \<Rightarrow> string \<Rightarrow> string \<rightharpoonup> bytes" where
  "cl_stored cl st n = localfs_stored (cl_root cl n) (st n)"

text \<open>
  A well-formed cluster: distinct addresses without slashes, servers on the file-system stores.
  The stores are in order, without failures, and hold chunks that hash to their IDs, of the
  strings \<open>S\<close>.
\<close>

definition cl_wf :: "('c, 'cb) cluster \<Rightarrow> bool" where
  "cl_wf cl \<longleftrightarrow> inj_on (cl_addr cl) (set (cl_nodes cl))
     \<and> (\<forall>n \<in> set (cl_nodes cl). CHR ''/'' \<notin> set (cl_addr cl n) \<and> Local (cl_srv cl n) = LocalFS (cl_root cl n))"

definition st_ok :: "(bytes \<Rightarrow> bytes) \<Rightarrow> ('c, 'cb) cluster \<Rightarrow> bytes set \<Rightarrow> stores \<Rightarrow> bool" where
  "st_ok sha256 cl S st \<longleftrightarrow> (\<forall>n \<in> set (cl_nodes cl). localfs_inv (cl_root cl n) (st n) \<and> no_faults (st n)
     \<and> (\<forall>c d. cl_stored cl st n c = Some d \<longrightarrow> Verify sha256 c d \<and> d \<in> S))"

lemma prefix_url:
  assumes "CHR ''/'' \<notin> set a" "CHR ''/'' \<notin> set b"
  shows "prefix (chunk_url a '''') (chunk_url b c) \<longleftrightarrow> a = b"
proof
  assume "prefix (chunk_url a '''') (chunk_url b c)"
  then obtain z where "a @ ''/internal/chunks/'' @ z = b @ ''/internal/chunks/'' @ c"
    by (auto simp: chunk_url_def prefix_def)
  moreover have "takeWhile (\<lambda>x. x \<noteq> CHR ''/'') (a @ ''/internal/chunks/'' @ z) = a" for z
    using assms(1) by (auto simp: takeWhile_append)
  moreover have "takeWhile (\<lambda>x. x \<noteq> CHR ''/'') (b @ ''/internal/chunks/'' @ c) = b"
    using assms(2) by (auto simp: takeWhile_append)
  ultimately show "a = b" by metis
qed (simp add: chunk_url_def)

lemma locate_node:
  assumes "n \<in> set ns" and "inj_on addr (set ns)" and "\<forall>n \<in> set ns. CHR ''/'' \<notin> set (addr n)"
  shows "locate addr ns (chunk_url (addr n) c) = Some (n, c)"
  using assms
proof (induction ns)
  case (Cons k ns)
  show ?case
  proof (cases "addr k = addr n")
    case True
    then have "k = n" using Cons.prems by (auto dest: inj_onD)
    then show ?thesis by (simp add: chunk_url_def)
  next
    case False
    then have "\<not> prefix (chunk_url (addr k) '''') (chunk_url (addr n) c)" using prefix_url [of "addr k" "addr n" c] Cons.prems by auto
    moreover have "n \<in> set ns" using False Cons.prems(1) by auto
    ultimately show ?thesis using Cons by (simp add: Let_def)
  qed
qed simp

section \<open>Pushes over the network\<close>

lemma push_up:
  assumes wf: "cl_wf cl" and ok: "st_ok sha256 cl S st" and n: "n \<in> set (cl_nodes cl)" "n \<in> cl_up cl"
    and d: "Verify sha256 c d" "d \<in> S" and ne: "\<forall>b. sha256 b \<noteq> []"
  shows "\<exists>st'. PushChunk (cluster_env sha256 cl) (cl_addr cl n) c d st = (None, st')
    \<and> st_ok sha256 cl S st' \<and> cl_stored cl st' = (cl_stored cl st)(n := (cl_stored cl st n)(c \<mapsto> d))"
proof -
  have loc: "locate (cl_addr cl) (cl_nodes cl) (chunk_url (cl_addr cl n) c) = Some (n, c)"
    using wf n(1) by (intro locate_node) (auto simp: cl_wf_def)
  have inv: "localfs_inv (cl_root cl n) (st n)" "no_faults (st n)" using ok n(1) by (auto simp: st_ok_def)
  have srv: "Local (cl_srv cl n) = LocalFS (cl_root cl n)" using wf n(1) by (auto simp: cl_wf_def)
  have "c \<noteq> ''''" using d(1) ne by (auto simp: Verify_def ID_def EncodeToString_def)
  then have route: "Routes ''PUT'' [''internal'', ''chunks'', c] = RPutChunk c"
    by (simp add: Routes_def numeral_2_eq_2 numeral_3_eq_3)
  obtain w' s' where h: "handlePutChunk sha256 c [RData d] (new_response []) (cl_srv cl n) (st n) = (w', s')"
    by fastforce
  note H = handlePutChunk_spec [OF inv(1) srv ne _ h]
  have H': "localfs_inv (cl_root cl n) s'" "final_status w' = 200"
    "localfs_stored (cl_root cl n) s' = (localfs_stored (cl_root cl n) (st n))(c \<mapsto> d)"
    using H inv(2) d(1) by (simp_all add: new_response_def)
  have "no_faults s'"
    using h LocalFS_Put_spec [OF inv(1), of c d] inv(2) d(1) ne
    by (auto simp: handlePutChunk_def ReadAll_def srv Verify_def intro: ok_id_ID split: prod.splits option.splits)
  with H' ok d have "st_ok sha256 cl S (st(n := s'))"
    by (auto simp: st_ok_def cl_stored_def)
  moreover have "cl_stored cl (st(n := s')) = (cl_stored cl st)(n := (cl_stored cl st n)(c \<mapsto> d))"
    using H'(3) by (auto simp: cl_stored_def fun_eq_iff)
  moreover have "PushChunk (cluster_env sha256 cl) (cl_addr cl n) c d st = (None, st(n := s'))"
    using loc route h H'(2) n(2)
    by (simp add: cluster_env_def HTTP_PushChunk_def cluster_Do_def Let_def)
  ultimately show ?thesis by blast
qed

lemma push_down:
  assumes wf: "cl_wf cl" and n: "n \<in> set (cl_nodes cl)" "n \<notin> cl_up cl"
  shows "\<exists>e. PushChunk (cluster_env sha256 cl) (cl_addr cl n) c d st = (Some e, st)"
proof -
  have "locate (cl_addr cl) (cl_nodes cl) (chunk_url (cl_addr cl n) c) = Some (n, c)"
    using wf n(1) by (intro locate_node) (auto simp: cl_wf_def)
  then show ?thesis using n(2) by (simp add: cluster_env_def HTTP_PushChunk_def cluster_Do_def Let_def)
qed

lemma retry_up:
  assumes "PushChunk env addr (ChunkID j) (Data j) st = (None, st')" and "0 \<le> maxRetries e"
  shows "pushWithRetry e env addr j st = (Pushed, st')"
  using assms by (simp add: pushWithRetry_def push_loop.simps [of e _ _ _ 0])

lemma loop_down:
  assumes "\<And>st. \<exists>e. PushChunk (cluster_env sha256 cl) addr (ChunkID j) (Data j) st = (Some e, st)"
  shows "snd (push_loop e (cluster_env sha256 cl) addr j a err st) = st"
proof (induction "nat (maxRetries e + 1 - a)" arbitrary: a err)
  case 0
  then show ?case by (simp add: push_loop.simps)
next
  case (Suc n)
  obtain e' where p: "PushChunk (cluster_env sha256 cl) addr (ChunkID j) (Data j) st = (Some e', st)"
    using assms by blast
  have b: "(if a > 0 then Backoff (cluster_env sha256 cl) (retryBase e * 2 ^ nat (a - 1)) st else (False, st)) = (False, st)"
    by (simp add: cluster_env_def)
  have "snd (push_loop e (cluster_env sha256 cl) addr j (a + 1) e' st) = st" using Suc by simp
  with p b show ?case by (subst push_loop.simps) (simp add: Let_def)
qed

text \<open>Replicating a job updates exactly the stores of its other targets that are up.\<close>

definition add_copy :: "string set \<Rightarrow> job \<Rightarrow> (string \<Rightarrow> string \<rightharpoonup> bytes) \<Rightarrow> (string \<Rightarrow> string \<rightharpoonup> bytes)" where
  "add_copy N j cs = (\<lambda>n. if n \<in> N then (cs n)(ChunkID j \<mapsto> Data j) else cs n)"

lemma replicate_loop_cluster:
  assumes "cl_wf cl" and "\<forall>b. sha256 b \<noteq> []" and "set ts \<subseteq> set (cl_nodes cl)" and "0 \<le> maxRetries e"
    and "st_ok sha256 cl S st" and "Verify sha256 (ChunkID j) (Data j)" and "Data j \<in> S"
  shows "\<exists>out st'. replicate_loop e (cluster_env sha256 cl) (resolver cl) j ts st = (out, st') \<and> st_ok sha256 cl S st'
    \<and> cl_stored cl st' = add_copy {n \<in> set ts. n \<noteq> eng_selfID e \<and> n \<in> cl_up cl} j (cl_stored cl st)"
  using assms(3,5)
proof (induction ts arbitrary: st)
  case Nil
  then show ?case by (simp add: add_copy_def)
next
  case (Cons n ts)
  have n: "n \<in> set (cl_nodes cl)" and r: "resolver cl n = (cl_addr cl n, True)"
    using Cons.prems(1) by (simp_all add: resolver_def)
  show ?case
  proof (cases "n = eng_selfID e")
    case True
    then have "{k \<in> set (n # ts). k \<noteq> eng_selfID e \<and> k \<in> cl_up cl} = {k \<in> set ts. k \<noteq> eng_selfID e \<and> k \<in> cl_up cl}"
      by auto
    with True Cons show ?thesis by simp
  next
    case self: False
    obtain res st1 where p: "pushWithRetry e (cluster_env sha256 cl) (cl_addr cl n) j st = (res, st1)"
      by (cases "pushWithRetry e (cluster_env sha256 cl) (cl_addr cl n) j st") auto
    have st1: "st_ok sha256 cl S st1 \<and> cl_stored cl st1 = add_copy ({n} \<inter> cl_up cl) j (cl_stored cl st)"
    proof (cases "n \<in> cl_up cl")
      case True
      from push_up [OF assms(1) Cons.prems(2) n True assms(6,7,2)] obtain st2 where
        s2: "PushChunk (cluster_env sha256 cl) (cl_addr cl n) (ChunkID j) (Data j) st = (None, st2)"
        "st_ok sha256 cl S st2" "cl_stored cl st2 = (cl_stored cl st)(n := (cl_stored cl st n)(ChunkID j \<mapsto> Data j))"
        by blast
      have eq: "st1 = st2" using retry_up [OF s2(1) assms(4)] p by simp
      have "add_copy ({n} \<inter> cl_up cl) j (cl_stored cl st)
          = (cl_stored cl st)(n := (cl_stored cl st n)(ChunkID j \<mapsto> Data j))"
        using True by (auto simp: add_copy_def)
      with s2(2,3) show ?thesis unfolding eq by simp
    next
      case False
      have "snd (pushWithRetry e (cluster_env sha256 cl) (cl_addr cl n) j st) = st"
        unfolding pushWithRetry_def by (rule loop_down) (rule push_down [OF assms(1) n False])
      then have "st1 = st" using p by simp
      with Cons.prems(2) False show ?thesis by (simp add: add_copy_def)
    qed
    from Cons.IH [OF _ conjunct1 [OF st1]] Cons.prems(1) obtain out st' where
      r2: "replicate_loop e (cluster_env sha256 cl) (resolver cl) j ts st1 = (out, st')" "st_ok sha256 cl S st'"
      "cl_stored cl st' = add_copy {n \<in> set ts. n \<noteq> eng_selfID e \<and> n \<in> cl_up cl} j (cl_stored cl st1)" by auto
    have "cl_stored cl st' = add_copy {k \<in> set (n # ts). k \<noteq> eng_selfID e \<and> k \<in> cl_up cl} j (cl_stored cl st)"
      unfolding r2(3) conjunct2 [OF st1] using self by (auto simp: add_copy_def fun_eq_iff)
    with r2(1,2) p r self show ?thesis by (auto simp: Let_def)
  qed
qed

section \<open>Working off the jobs of several nodes\<close>

text \<open>The jobs of the nodes in some order: each entry is a node and a job of its engine.\<close>

fun run_jobs ::
  "(bytes \<Rightarrow> bytes) \<Rightarrow> (bytes \<Rightarrow> bytes) \<Rightarrow> ('c, 'cb) cluster \<Rightarrow> int \<Rightarrow> ring \<Rightarrow> (string \<times> job) list \<Rightarrow> stores \<Rightarrow> stores" where
  "run_jobs sha1 sha256 cl k r [] st = st"
| "run_jobs sha1 sha256 cl k r ((y, j) # work) st =
     run_jobs sha1 sha256 cl k r work
       (snd (replicate_job sha1 (NewEngine y k) (cluster_env sha256 cl) (resolver cl) r j st))"

lemma run_jobs_spec:
  assumes wf: "cl_wf cl" and ne: "\<forall>b. sha256 b \<noteq> []" and ts: "\<And>c. set (GetN sha1 r c Factor) \<subseteq> set (cl_nodes cl)"
    and inj: "inj_on sha256 S" and ok: "st_ok sha256 cl S st"
    and work: "\<And>y j. (y, j) \<in> set work \<Longrightarrow> Verify sha256 (ChunkID j) (Data j) \<and> Data j \<in> S"
  shows "st_ok sha256 cl S (run_jobs sha1 sha256 cl k r work st)
    \<and> (\<forall>n c d. n \<in> set (cl_nodes cl) \<and> cl_stored cl st n c = Some d \<longrightarrow>
         cl_stored cl (run_jobs sha1 sha256 cl k r work st) n c = Some d)
    \<and> (\<forall>y j n. (y, j) \<in> set work \<and> n \<in> set (GetN sha1 r (ChunkID j) Factor) \<and> n \<noteq> y \<and> n \<in> cl_up cl \<longrightarrow>
         cl_stored cl (run_jobs sha1 sha256 cl k r work st) n (ChunkID j) = Some (Data j))"
  using ok work
proof (induction work arbitrary: st)
  case (Cons yj work)
  obtain y j where yj: "yj = (y, j)" by (cases yj)
  let ?e = "NewEngine y k" and ?ts = "GetN sha1 r (ChunkID j) Factor"
  have e: "0 \<le> maxRetries ?e" "eng_selfID ?e = y" by (simp_all add: NewEngine_def)
  have j: "Verify sha256 (ChunkID j) (Data j)" "Data j \<in> S" using Cons.prems(2) [of y j] yj by simp_all
  from replicate_loop_cluster [OF wf ne ts [of "ChunkID j"] e(1) Cons.prems(1) j]
  obtain out st1 where r1: "replicate_job sha1 ?e (cluster_env sha256 cl) (resolver cl) r j st = (out, st1)"
    "st_ok sha256 cl S st1"
    "cl_stored cl st1 = add_copy {n \<in> set ?ts. n \<noteq> y \<and> n \<in> cl_up cl} j (cl_stored cl st)"
    by (auto simp: replicate_job_def e(2))
  have run: "run_jobs sha1 sha256 cl k r (yj # work) st = run_jobs sha1 sha256 cl k r work st1"
    using r1(1) yj by simp
  note IH = Cons.IH [OF r1(2)]
  have work': "\<And>y j. (y, j) \<in> set work \<Longrightarrow> Verify sha256 (ChunkID j) (Data j) \<and> Data j \<in> S"
  proof -
    fix y j assume "(y, j) \<in> set work"
    then have "(y, j) \<in> set (yj # work)" by simp
    then show "Verify sha256 (ChunkID j) (Data j) \<and> Data j \<in> S" by (rule Cons.prems(2))
  qed
  have keep: "cl_stored cl st1 n c = Some d" if "n \<in> set (cl_nodes cl)" "cl_stored cl st n c = Some d" for n c d
  proof (cases "n \<in> set ?ts \<and> n \<noteq> y \<and> n \<in> cl_up cl \<and> c = ChunkID j")
    case True
    have "Verify sha256 c d" "d \<in> S" using Cons.prems(1) that by (auto simp: st_ok_def)
    then have "EncodeToString (sha256 d) = EncodeToString (sha256 (Data j))" using j(1) True by (simp add: Verify_def ID_def)
    then have "sha256 d = sha256 (Data j)" by (simp add: EncodeToString_inj)
    then have "d = Data j" by (rule inj_onD [OF inj _ \<open>d \<in> S\<close> j(2)])
    with True r1(3) show ?thesis by (simp add: add_copy_def)
  next
    case False
    with that r1(3) show ?thesis by (auto simp: add_copy_def)
  qed
  have new: "cl_stored cl st1 n (ChunkID j) = Some (Data j)" if "n \<in> set ?ts" "n \<noteq> y" "n \<in> cl_up cl" for n
    using that r1(3) by (simp add: add_copy_def)
  show ?case
    unfolding run
  proof (intro conjI allI impI)
    show "st_ok sha256 cl S (run_jobs sha1 sha256 cl k r work st1)" using IH work' by blast
    show "cl_stored cl (run_jobs sha1 sha256 cl k r work st1) n c = Some d"
      if "n \<in> set (cl_nodes cl) \<and> cl_stored cl st n c = Some d" for n c d
      using IH work' keep that by blast
    show "cl_stored cl (run_jobs sha1 sha256 cl k r work st1) n (ChunkID j') = Some (Data j')"
      if *: "(y', j') \<in> set (yj # work) \<and> n \<in> set (GetN sha1 r (ChunkID j') Factor) \<and> n \<noteq> y' \<and> n \<in> cl_up cl" for y' j' n
    proof (cases "(y', j') \<in> set work")
      case True
      with IH work' * show ?thesis by blast
    next
      case False
      with * yj have eq: "y' = y" "j' = j" by auto
      moreover have "n \<in> set (cl_nodes cl)" using * ts by blast
      ultimately show ?thesis using new IH work' * by blast
    qed
  qed
qed simp

section \<open>A death and its repair\<close>

text \<open>
  The state of the cluster: the ring the survivors agree on, the nodes that are up, and the stores.
  When \<open>x\<close> dies, each survivor runs its callback and its repair pass, and the engines work off
  the resulting jobs, in any interleaving \<open>work\<close>.
\<close>

type_synonym cstate = "ring \<times> string set \<times> stores"

definition repair_of ::
  "(bytes \<Rightarrow> bytes) \<Rightarrow> ('c, 'cb) cluster \<Rightarrow> string \<Rightarrow> ring \<Rightarrow> stores \<Rightarrow> string \<Rightarrow> job list \<times> manager \<times> fsys" where
  "repair_of sha1 cl x r st y =
     repairLocalChunks sha1 (LocalFS (cl_root cl y)) (\<lambda>i. fst (HandleNodeDead x r)) x (manager_New y, st y)"

definition repair_work ::
  "(bytes \<Rightarrow> bytes) \<Rightarrow> ('c, 'cb) cluster \<Rightarrow> string \<Rightarrow> cstate \<Rightarrow> (string \<times> job) list \<Rightarrow> bool" where
  "repair_work sha1 cl x s work \<longleftrightarrow>
     (case s of (r, up, st) \<Rightarrow> set work = {(y, j). y \<in> up - {x} \<and> j \<in> set (fst (repair_of sha1 cl x r st y))})"

definition death_and_repair ::
  "(bytes \<Rightarrow> bytes) \<Rightarrow> (bytes \<Rightarrow> bytes) \<Rightarrow> ('c, 'cb) cluster \<Rightarrow> int \<Rightarrow> string \<Rightarrow> (string \<times> job) list \<Rightarrow> cstate \<Rightarrow> cstate" where
  "death_and_repair sha1 sha256 cl k x work s =
     (case s of (r, up, st) \<Rightarrow>
        (let r' = fst (HandleNodeDead x r);
             up' = up - {x};
             st1 = (\<lambda>y. if y \<in> up' then snd (snd (repair_of sha1 cl x r st y)) else st y)
         in (r', up', run_jobs sha1 sha256 (cl\<lparr>cl_up := up'\<rparr>) k r' work st1)))"

definition cluster_inv ::
  "(bytes \<Rightarrow> bytes) \<Rightarrow> (bytes \<Rightarrow> bytes) \<Rightarrow> ('c, 'cb) cluster \<Rightarrow> string set \<Rightarrow> bytes set \<Rightarrow> cstate \<Rightarrow> bool" where
  "cluster_inv sha1 sha256 cl U S s \<longleftrightarrow>
     (case s of (r, up, st) \<Rightarrow> ring_inv sha1 U r \<and> ring_set r = up \<and> up \<subseteq> set (cl_nodes cl) \<and> st_ok sha256 cl S st)"

text \<open>A chunk is replicated when every node of its replica set has its bytes.\<close>

definition replicated :: "(bytes \<Rightarrow> bytes) \<Rightarrow> ('c, 'cb) cluster \<Rightarrow> cstate \<Rightarrow> string \<Rightarrow> bytes \<Rightarrow> bool" where
  "replicated sha1 cl s c d \<longleftrightarrow>
     (case s of (r, up, st) \<Rightarrow> \<forall>n \<in> set (GetN sha1 r c Factor). cl_stored cl st n c = Some d)"

lemma cl_up_irrelevant [simp]:
  "cl_stored (cl\<lparr>cl_up := up\<rparr>) = cl_stored cl" "st_ok sha256 (cl\<lparr>cl_up := up\<rparr>) S = st_ok sha256 cl S"
  "cl_wf (cl\<lparr>cl_up := up\<rparr>) = cl_wf cl"
  by (simp_all add: cl_stored_def st_ok_def cl_wf_def fun_eq_iff)

lemma repair_of_spec:
  assumes "st_ok sha256 cl S st" and "y \<in> set (cl_nodes cl)" and "repair_of sha1 cl x r st y = (jobs, m, s)"
  shows "localfs_inv (cl_root cl y) s \<and> no_faults s \<and> localfs_stored (cl_root cl y) s = cl_stored cl st y
    \<and> (\<forall>j \<in> set jobs. Verify sha256 (ChunkID j) (Data j) \<and> Data j \<in> S)
    \<and> (\<forall>c d. cl_stored cl st y c = Some d \<and> y \<in> set (GetN sha1 (RemoveNode x r) c Factor) \<longrightarrow>
         \<lparr>ChunkID = c, Data = d\<rparr> \<in> set jobs)"
proof -
  have I: "localfs_inv (cl_root cl y) (st y)" "no_faults (st y)"
    "\<And>c d. cl_stored cl st y c = Some d \<Longrightarrow> Verify sha256 c d \<and> d \<in> S"
    using assms(1,2) by (auto simp: st_ok_def)
  have run: "repairLocalChunks sha1 (LocalFS (cl_root cl y)) (\<lambda>i. RemoveNode x r) x (manager_New y, st y) = (jobs, m, s)"
    using assms(3) by (simp add: repair_of_def HandleNodeDead_def)
  note R = lfs.repair_pass_spec [OF I(1) run]
  have "man_selfID (manager_New y) = y" by (simp add: manager_New_def)
  with R I(2) I(3) show ?thesis unfolding cl_stored_def by auto
qed

lemma death_and_repair_spec:
  assumes wf: "cl_wf cl" and ne: "\<forall>b. sha256 b \<noteq> []" and inj: "inj_on sha256 S"
    and inv: "cluster_inv sha1 sha256 cl U S (r, up, st)" and x: "up - {x} \<noteq> {}"
    and work: "repair_work sha1 cl x (r, up, st) work"
    and run: "death_and_repair sha1 sha256 cl k x work (r, up, st) = s'"
  shows "cluster_inv sha1 sha256 cl U S s' \<and> (\<forall>c d. replicated sha1 cl (r, up, st) c d \<and> 2 \<le> card up \<longrightarrow> replicated sha1 cl s' c d)"
proof -
  let ?r' = "RemoveNode x r" and ?up' = "up - {x}"
  let ?st1 = "\<lambda>y. if y \<in> ?up' then snd (snd (repair_of sha1 cl x r st y)) else st y"
  let ?cl' = "cl\<lparr>cl_up := ?up'\<rparr>"
  have rinv: "ring_inv sha1 U r" "ring_set r = up" and upn: "up \<subseteq> set (cl_nodes cl)" and ok: "st_ok sha256 cl S st"
    using inv by (auto simp: cluster_inv_def)
  have rinv': "ring_inv sha1 U ?r'" "ring_set ?r' = ?up'"
    using hr.inv_remove [OF rinv(1)] hr.members_remove [OF rinv(1)] rinv(2) by simp_all
  have s': "s' = (?r', ?up', run_jobs sha1 sha256 ?cl' k ?r' work ?st1)"
    using run by (simp add: death_and_repair_def HandleNodeDead_def Let_def)
  have rep: "localfs_inv (cl_root cl y) (?st1 y) \<and> no_faults (?st1 y) \<and> cl_stored cl ?st1 y = cl_stored cl st y
      \<and> (\<forall>j \<in> set (fst (repair_of sha1 cl x r st y)). Verify sha256 (ChunkID j) (Data j) \<and> Data j \<in> S)
      \<and> (\<forall>c d. cl_stored cl st y c = Some d \<and> y \<in> set (GetN sha1 ?r' c Factor) \<longrightarrow>
           \<lparr>ChunkID = c, Data = d\<rparr> \<in> set (fst (repair_of sha1 cl x r st y)))" if "y \<in> ?up'" for y
    using repair_of_spec [OF ok, of y sha1 x r "fst (repair_of sha1 cl x r st y)" "fst (snd (repair_of sha1 cl x r st y))"
        "snd (snd (repair_of sha1 cl x r st y))"] that upn by (auto simp: cl_stored_def)
  have st1: "cl_stored cl ?st1 n = cl_stored cl st n" for n
    using rep [of n] by (cases "n \<in> ?up'") (auto simp: cl_stored_def)
  have ok1: "st_ok sha256 ?cl' S ?st1"
    unfolding cl_up_irrelevant st_ok_def st1
  proof (intro ballI conjI)
    fix n assume n: "n \<in> set (cl_nodes cl)"
    have base: "localfs_inv (cl_root cl n) (st n) \<and> no_faults (st n)" using ok n by (simp add: st_ok_def)
    have "localfs_inv (cl_root cl n) (?st1 n) \<and> no_faults (?st1 n)"
    proof (cases "n \<in> ?up'")
      case True
      from rep [OF True] show ?thesis by blast
    next
      case False
      then have "?st1 n = st n" by (simp only: if_False)
      with base show ?thesis by (simp only:)
    qed
    then show "localfs_inv (cl_root cl n) (?st1 n)" "no_faults (?st1 n)" by blast+
    show "\<forall>c d. cl_stored cl st n c = Some d \<longrightarrow> Verify sha256 c d \<and> d \<in> S" using ok n by (simp add: st_ok_def)
  qed
  have mem: "set (GetN sha1 ?r' c Factor) \<subseteq> ?up'" for c
    using hr.getn_members [OF rinv'(1), of c Factor] rinv'(2) by simp
  have good: "Verify sha256 (ChunkID j) (Data j) \<and> Data j \<in> S" if "(y, j) \<in> set work" for y j
    using that work rep [of y] by (auto simp: repair_work_def)
  have "set (GetN sha1 ?r' c Factor) \<subseteq> set (cl_nodes ?cl')" for c using mem [of c] upn by auto
  note J = run_jobs_spec [where cl = ?cl' and k = k, unfolded cl_up_irrelevant, OF wf ne this inj
      ok1 [unfolded cl_up_irrelevant] good]
  have "cluster_inv sha1 sha256 cl U S s'"
    using J rinv' upn by (auto simp: s' cluster_inv_def)
  moreover have "replicated sha1 cl s' c d" if repl: "replicated sha1 cl (r, up, st) c d" and two: "2 \<le> card up" for c d
  proof -
    have "2 \<le> length (GetN sha1 r c Factor)"
      using hr.getn_length [OF rinv(1), of c Factor] rinv(2) two by (simp add: Factor_def)
    moreover have dist: "distinct (GetN sha1 r c Factor)" by (rule hr.getn_distinct [OF rinv(1)])
    ultimately have "2 \<le> card (set (GetN sha1 r c Factor))" by (simp add: distinct_card)
    then have "\<not> set (GetN sha1 r c Factor) \<subseteq> {x}"
      using card_mono [of "{x}" "set (GetN sha1 r c Factor)"] by auto
    then obtain y where y: "y \<in> set (GetN sha1 r c Factor)" "y \<noteq> x" by blast
    have yd: "cl_stored cl st y c = Some d" using repl y(1) by (simp add: replicated_def)
    have y': "y \<in> set (GetN sha1 ?r' c Factor)" by (rule hr.getn_remove_keeps [OF rinv(1) y])
    then have yup: "y \<in> ?up'" using mem by blast
    have "(y, \<lparr>ChunkID = c, Data = d\<rparr>) \<in> set work"
      using work rep [OF yup] yd y' yup by (auto simp: repair_work_def)
    then have "cl_stored cl (run_jobs sha1 sha256 ?cl' k ?r' work ?st1) n c = Some d"
      if "n \<in> set (GetN sha1 ?r' c Factor)" for n
    proof (cases "n = y")
      case True
      have "y \<in> set (cl_nodes cl)" using yup upn by blast
      with J st1 yd True show ?thesis by auto
    next
      case False
      have "n \<in> cl_up ?cl'" using mem that by auto
      with J \<open>(y, \<lparr>ChunkID = c, Data = d\<rparr>) \<in> set work\<close> that False show ?thesis by fastforce
    qed
    then show ?thesis by (simp add: s' replicated_def)
  qed
  ultimately show ?thesis by blast
qed

text \<open>Any number of deaths, each repaired before the next.\<close>

inductive heals ::
  "(bytes \<Rightarrow> bytes) \<Rightarrow> (bytes \<Rightarrow> bytes) \<Rightarrow> ('c, 'cb) cluster \<Rightarrow> int \<Rightarrow> cstate \<Rightarrow> cstate \<Rightarrow> bool"
  for sha1 sha256 cl k where
  none: "heals sha1 sha256 cl k s s"
| death: "heals sha1 sha256 cl k s (r, up, st) \<Longrightarrow> 2 \<le> card up \<Longrightarrow> repair_work sha1 cl x (r, up, st) work \<Longrightarrow>
     heals sha1 sha256 cl k s (death_and_repair sha1 sha256 cl k x work (r, up, st))"

section \<open>Properties\<close>

lemma heals_spec:
  assumes "heals sha1 sha256 cl k s s'" and "cl_wf cl" and "\<forall>b. sha256 b \<noteq> []" and "inj_on sha256 S"
    and "cluster_inv sha1 sha256 cl U S s"
  shows "cluster_inv sha1 sha256 cl U S s' \<and> (\<forall>c d. replicated sha1 cl s c d \<longrightarrow> replicated sha1 cl s' c d)"
  using assms
proof (induction rule: heals.induct)
  case (death s r up st x work)
  have "up - {x} \<noteq> {}"
  proof
    assume "up - {x} = {}"
    then have "up \<subseteq> {x}" by blast
    from card_mono [OF _ this] death(2) show False by simp
  qed
  with death_and_repair_spec [OF death(5,6,7) _ this death(3) refl, of U k] death show ?case by blast
qed simp

text \<open>
  C2. The cluster heals itself. Start from a ring whose members are up, with stores whose chunks
  hash to their IDs. Let nodes die one after the other, each death answered by the callbacks and
  repair passes of all survivors, whose jobs are worked off in any interleaving before the
  next death, as long as a node survives. Then every chunk that all of its replica set held is at
  the end held, with the same bytes, by all of its replica set on the shrunken ring, which
  consists of nodes that are up; and the stores still hold only chunks that hash to their IDs.
\<close>

theorem cluster_self_healing:
  assumes "heals sha1 sha256 cl k (r, up, st) (r', up', st')"
    and "cl_wf cl" and "\<forall>b. sha256 b \<noteq> []" and "inj_on sha256 S" and "st_ok sha256 cl S st"
    and "ring_inv sha1 U r" and "ring_set r = up" and "up \<subseteq> set (cl_nodes cl)"
    and "\<forall>n \<in> set (GetN sha1 r c Factor). cl_stored cl st n c = Some d"
  shows "(\<forall>n \<in> set (GetN sha1 r' c Factor). cl_stored cl st' n c = Some d)
    \<and> set (GetN sha1 r' c Factor) \<subseteq> up'
    \<and> length (GetN sha1 r' c Factor) = min 3 (card up')
    \<and> (\<forall>n \<in> set (cl_nodes cl). verified sha256 (cl_stored cl st' n))"
proof -
  have "cluster_inv sha1 sha256 cl U S (r, up, st)" using assms(5-8) by (simp add: cluster_inv_def)
  note H = heals_spec [OF assms(1-4) this]
  then have inv: "ring_inv sha1 U r'" "ring_set r' = up'" "st_ok sha256 cl S st'" by (auto simp: cluster_inv_def)
  have "replicated sha1 cl (r', up', st') c d" using H assms(9) by (simp add: replicated_def)
  then show ?thesis
    using hr.getn_members [OF inv(1), of c Factor] hr.getn_length [OF inv(1), of c Factor] inv(2,3)
    by (simp add: replicated_def Factor_def verified_def st_ok_def)
qed

text \<open>A cluster of the four nodes of the sample ring, all stores empty but for one chunk on its replica set.\<close>

definition sample_cluster :: "(memory, bool) cluster" where
  "sample_cluster =
     \<lparr>cl_nodes = [''a'', ''b'', ''c'', ''d''], cl_addr = (\<lambda>n. n @ '':80''), cl_root = (\<lambda>n. sample_localfs),
      cl_srv = (\<lambda>n. sample_server), cl_up = {}\<rparr>"

lemma sample_cluster_wf: "cl_wf sample_cluster"
  by (simp add: cl_wf_def sample_cluster_def inj_on_def)

definition sample_stores :: stores where
  "sample_stores n =
     (if n \<in> set (GetN sample_sha1 sample_ring (ID sample_sha256 [7, 8]) Factor)
      then snd (LocalFS_Put sample_localfs (ID sample_sha256 [7, 8]) [7, 8] sample_fs) else sample_fs)"

lemma sample_stores_spec:
  "st_ok sample_sha256 sample_cluster UNIV sample_stores"
  "n \<in> set (GetN sample_sha1 sample_ring (ID sample_sha256 [7, 8]) Factor) \<Longrightarrow>
     cl_stored sample_cluster sample_stores n (ID sample_sha256 [7, 8]) = Some [7, 8]"
proof -
  let ?c = "ID sample_sha256 [7, 8]"
  have ok: "ok_id ?c" by (rule ok_id_ID) (simp add: sample_sha256_def)
  let ?s = "snd (LocalFS_Put sample_localfs ?c [7, 8] sample_fs)"
  have P: "localfs_inv sample_localfs ?s" "no_faults ?s" "localfs_stored sample_localfs ?s = [?c \<mapsto> [7, 8]]"
    using LocalFS_Put_spec [OF sample_fs_inv(1) ok prod.collapse [symmetric], of "[7, 8]"] sample_fs_inv(2)
    by (simp_all add: sample_store_empty)
  show "st_ok sample_sha256 sample_cluster UNIV sample_stores"
    using P sample_fs_inv
    by (auto simp: st_ok_def sample_cluster_def sample_stores_def cl_stored_def sample_store_empty Verify_def split: if_splits)
  show "n \<in> set (GetN sample_sha1 sample_ring ?c Factor) \<Longrightarrow> cl_stored sample_cluster sample_stores n ?c = Some [7, 8]"
    using P by (simp add: cl_stored_def sample_stores_def sample_cluster_def)
qed

lemma finite_repair_work: "finite up \<Longrightarrow> \<exists>work. repair_work sha1 cl x (r, up, st) work"
proof -
  assume "finite up"
  then have "finite (SIGMA y:up - {x}. set (fst (repair_of sha1 cl x r st y)))" by blast
  moreover have "(SIGMA y:up - {x}. set (fst (repair_of sha1 cl x r st y)))
      = {(y, j). y \<in> up - {x} \<and> j \<in> set (fst (repair_of sha1 cl x r st y))}" by blast
  ultimately have "finite {(y, j). y \<in> up - {x} \<and> j \<in> set (fst (repair_of sha1 cl x r st y))}" by (simp only:)
  from finite_list [OF this] show ?thesis by (auto simp: repair_work_def)
qed

lemma cluster_self_healing_witness:
  "\<exists>r' up' st'. heals sample_sha1 sample_sha256 sample_cluster 4
       (sample_ring, {''a'', ''b'', ''c'', ''d''}, sample_stores) (r', up', st')
     \<and> up' = {''b'', ''c'', ''d''} \<and> cl_stored sample_cluster st' ''b'' (ID sample_sha256 [7, 8]) = Some [7, 8]"
proof -
  let ?up = "{''a'', ''b'', ''c'', ''d''}" and ?c = "ID sample_sha256 [7, 8]"
  have "finite ?up" by simp
  from finite_repair_work [OF this] obtain work where
    w: "repair_work sample_sha1 sample_cluster ''a'' (sample_ring, ?up, sample_stores) work" by blast
  have two: "2 \<le> card ?up" by simp
  obtain r' up' st' where s': "death_and_repair sample_sha1 sample_sha256 sample_cluster 4 ''a'' work
      (sample_ring, ?up, sample_stores) = (r', up', st')" by (metis prod.exhaust)
  have h: "heals sample_sha1 sample_sha256 sample_cluster 4 (sample_ring, ?up, sample_stores) (r', up', st')"
    using heals.death [OF heals.none two w] s' by metis
  have up': "up' = {''b'', ''c'', ''d''}" and r': "r' = RemoveNode ''a'' sample_ring"
    using s' by (auto simp: death_and_repair_def HandleNodeDead_def Let_def)
  have nodes: "?up \<subseteq> set (cl_nodes sample_cluster)" by (simp add: sample_cluster_def)
  have held: "\<forall>n \<in> set (GetN sample_sha1 sample_ring ?c Factor). cl_stored sample_cluster sample_stores n ?c = Some [7, 8]"
    using sample_stores_spec(2) by blast
  have nonempty: "\<forall>b. sample_sha256 b \<noteq> []" by (simp add: sample_sha256_def)
  have T: "(\<forall>n \<in> set (GetN sample_sha1 r' ?c Factor). cl_stored sample_cluster st' n ?c = Some [7, 8])"
    using cluster_self_healing [OF h sample_cluster_wf nonempty sample_sha256_inj sample_stores_spec(1) sample_ring_inv
        sample_ring_set nodes held] by blast
  have inv': "ring_inv sample_sha1 letter_nodes r'" unfolding r' by (rule hr.inv_remove [OF sample_ring_inv])
  have mem: "ring_set r' = {''b'', ''c'', ''d''}"
    unfolding r' using hr.members_remove [OF sample_ring_inv] sample_ring_set by auto
  have "card (set (GetN sample_sha1 r' ?c Factor)) = card (ring_set r')"
    by (rule hr.getn_all_members [OF inv']) (simp add: mem Factor_def)
  then have "set (GetN sample_sha1 r' ?c Factor) = {''b'', ''c'', ''d''}"
    using hr.getn_members [OF inv', of ?c Factor] mem by (metis List.finite_set card_subset_eq finite.emptyI finite.insertI)
  with T h up' show ?thesis by blast
qed

lemma repair_loop_skips:
  "repair_loop h B (\<lambda>i. T) i ids s = (jobs, s') \<Longrightarrow> j \<in> set jobs \<Longrightarrow> h \<in> set (T (ChunkID j))"
proof (induction ids arbitrary: i s s' jobs)
  case (Cons c ids)
  show ?case
  proof (cases "h \<in> set (T c)")
    case True
    obtain res s1 where g: "b_Get B c s = (res, s1)" by fastforce
    obtain js s2 where l: "repair_loop h B (\<lambda>i. T) (Suc i) ids s1 = (js, s2)" by fastforce
    from Cons.prems True g l Cons.IH [OF l] show ?thesis by (cases res) auto
  next
    case False
    with Cons show ?thesis by simp
  qed
qed simp

lemma repair_pass_skips:
  assumes "repairLocalChunks sha1 B (\<lambda>i. r) dead (m\<lparr>man_selfID := h\<rparr>, s) = (jobs, m', s')"
    and "h \<notin> set (GetN sha1 r c Factor)"
  shows "c \<notin> ChunkID ` set jobs"
proof (cases "fst (b_List B s)")
  case (Inl e)
  then obtain s1 where "b_List B s = (Inl e, s1)" by (metis prod.collapse)
  then show ?thesis using assms(1) by (simp add: repairLocalChunks_def)
next
  case (Inr ids)
  then obtain s1 where "b_List B s = (Inr ids, s1)" by (metis prod.collapse)
  then obtain s2 where "repair_loop h B (\<lambda>i c. GetN sha1 r c Factor) 0 ids s1 = (jobs, s2)"
    using assms(1) by (auto simp: repairLocalChunks_def repair_start_def split: prod.splits)
  from repair_loop_skips [OF this] assms(2) show ?thesis by blast
qed

text \<open>
  C40. Revived nodes can strand a chunk. The first three nodes of a key's order were away when the
  chunk was written, so the next three hold it; when those that were away are re-admitted,
  HandleNodeAlive adds them to the ring and nothing else happens. The chunk's replica set is then
  disjoint from its holders: reads that go by the ring ask none of the holders, and the repair
  pass of a holder skips the chunk.
\<close>

theorem revived_nodes_strand_chunk:
  fixes ap aq as :: string
  assumes inv: "ring_inv sha1 U r" and six: "6 \<le> card (ring_set r)" and "GetN sha1 r c 6 = [p, q, s, x, y, z]"
    and "ring_set r \<subseteq> U"
  defines "away \<equiv> RemoveNode s (RemoveNode q (RemoveNode p r))"
  defines "back \<equiv> HandleNodeAlive sha1 s as (HandleNodeAlive sha1 q aq (HandleNodeAlive sha1 p ap away))"
  shows "GetN sha1 away c Factor = [x, y, z] \<and> GetN sha1 back c Factor = [p, q, s]
    \<and> (\<forall>h \<in> {x, y, z}. \<forall>local dead m s0 jobs m' s1.
         repairLocalChunks sha1 local (\<lambda>i. back) dead (m\<lparr>man_selfID := h\<rparr>, s0) = (jobs, m', s1) \<longrightarrow>
           c \<notin> ChunkID ` set jobs)"
proof -
  have dist: "distinct [p, q, s, x, y, z]" using hr.getn_distinct [OF inv, of c 6] assms(3) by simp
  have six_mem: "{p, q, s} \<subseteq> ring_set r" using hr.getn_members [OF inv, of c 6] assms(3) by auto
  note i1 = hr.inv_remove [OF inv, of p]
  note i2 = hr.inv_remove [OF i1, of q]
  note i3 = hr.inv_remove [OF i2, of s]
  have g1: "GetN sha1 (RemoveNode p r) c 5 = [q, s, x, y, z]"
    using hr.getn_remove [OF inv, of 5 p c] assms(3) dist by (simp add: eq_commute [of _ p])
  have g2: "GetN sha1 (RemoveNode q (RemoveNode p r)) c 4 = [s, x, y, z]"
    using hr.getn_remove [OF i1, of 4 q c] g1 dist by (simp add: eq_commute [of _ q])
  have away: "GetN sha1 away c Factor = [x, y, z]"
    using hr.getn_remove [OF i2, of 3 s c] g2 dist by (simp add: away_def Factor_def eq_commute [of _ s])
  have U: "p \<in> U" "q \<in> U" "s \<in> U" using six_mem assms(4) by auto
  have inv_away: "ring_inv sha1 U away" using i3 by (simp add: away_def)
  note b1 = hr.inv_add [OF inv_away U(1)]
  note b2 = hr.inv_add [OF b1 U(2)]
  note b3 = hr.inv_add [OF b2 U(3)]
  have inv_back: "ring_inv sha1 U back" using b3 by (simp add: back_def HandleNodeAlive_def)
  have "ring_set back = insert s (insert q (insert p (ring_set away)))"
    using hr.members_add [OF b2 U(3)] hr.members_add [OF b1 U(2)] hr.members_add [OF inv_away U(1)]
    by (simp add: back_def HandleNodeAlive_def)
  also have "\<dots> = ring_set r"
    using six_mem hr.members_remove [OF inv, of p] hr.members_remove [OF i1, of q] hr.members_remove [OF i2, of s]
    by (auto simp: away_def)
  finally have "GetN sha1 back c Factor = GetN sha1 r c Factor" by (rule hr.getn_cong [OF inv_back inv])
  also have "\<dots> = take 3 (GetN sha1 r c 6)" using hr.getn_take [OF inv, of Factor 6 c] by (simp add: Factor_def)
  finally have restored: "GetN sha1 back c Factor = [p, q, s]" using assms(3) by (simp add: numeral_3_eq_3)
  have "h \<notin> set (GetN sha1 back c Factor)" if "h \<in> {x, y, z}" for h
    using that dist unfolding restored by auto
  then show ?thesis
    by (intro conjI ballI allI impI away restored) (rule repair_pass_skips)
qed

definition six_ring :: ring where
  "six_ring = AddNode sample_sha1 ''f'' (AddNode sample_sha1 ''e'' sample_ring)"

lemma six_ring_inv:
  "ring_inv sample_sha1 letter_nodes six_ring" "card (ring_set six_ring) = 6" "ring_set six_ring \<subseteq> letter_nodes"
proof -
  have l: "''e'' \<in> letter_nodes" "''f'' \<in> letter_nodes" by (simp_all add: letter_nodes_def)
  note e = hr.inv_add [OF sample_ring_inv l(1)]
  show "ring_inv sample_sha1 letter_nodes six_ring" unfolding six_ring_def by (rule hr.inv_add [OF e l(2)])
  show "card (ring_set six_ring) = 6"
    unfolding six_ring_def hr.members_add [OF e l(2)] hr.members_add [OF sample_ring_inv l(1)] sample_ring_set by simp
  show "ring_set six_ring \<subseteq> letter_nodes"
    unfolding six_ring_def hr.members_add [OF e l(2)] hr.members_add [OF sample_ring_inv l(1)] sample_ring_set
    by (simp add: letter_nodes_def)
qed

lemma revived_nodes_strand_chunk_witness:
  "\<exists>p q s x. GetN sample_sha1 (RemoveNode s (RemoveNode q (RemoveNode p six_ring))) ''key'' Factor ! 0 = x
     \<and> x \<notin> set (GetN sample_sha1 (HandleNodeAlive sample_sha1 s '''' (HandleNodeAlive sample_sha1 q ''''
         (HandleNodeAlive sample_sha1 p '''' (RemoveNode s (RemoveNode q (RemoveNode p six_ring)))))) ''key'' Factor)"
proof -
  have l: "length (GetN sample_sha1 six_ring ''key'' 6) = 6"
    using hr.getn_length [OF six_ring_inv(1), of "''key''" 6] six_ring_inv(2) by simp
  then obtain p q s x y z where g: "GetN sample_sha1 six_ring ''key'' 6 = [p, q, s, x, y, z]"
    by (auto simp: length_Suc_conv eval_nat_numeral)
  then have "x \<notin> {p, q, s}" using hr.getn_distinct [OF six_ring_inv(1), of "''key''" 6] by auto
  moreover have "6 \<le> card (ring_set six_ring)" by (simp add: six_ring_inv(2))
  moreover note T = revived_nodes_strand_chunk [OF six_ring_inv(1) calculation(2) g six_ring_inv(3), of "''''" "''''" "''''"]
  ultimately have "GetN sample_sha1 (RemoveNode s (RemoveNode q (RemoveNode p six_ring))) ''key'' Factor ! 0 = x
     \<and> x \<notin> set (GetN sample_sha1 (HandleNodeAlive sample_sha1 s '''' (HandleNodeAlive sample_sha1 q ''''
         (HandleNodeAlive sample_sha1 p '''' (RemoveNode s (RemoveNode q (RemoveNode p six_ring)))))) ''key'' Factor)"
    unfolding conjunct1 [OF T] conjunct1 [OF conjunct2 [OF T]] by simp
  then show ?thesis by blast
qed

end
