(* ===== verification/Availability.thy ===== *)
theory Availability
  imports Healing
begin

text \<open>
  The life of a blob in a cluster, from its upload over the deaths of nodes to a download: the
  handlers, the queue, the ring, the recovery and the stores composed into the availability the
  repository claims.
\<close>

section \<open>Reads over the network\<close>

text \<open>\<^verbatim>\<open>http.Get\<close> of a chunk URL, answered by the chunk endpoint of the node at the address, if it is up.\<close>

definition cluster_Get :: "('c, 'cb) cluster \<Rightarrow> string \<Rightarrow> stores \<Rightarrow> get_reply \<times> stores" where
  "cluster_Get cl url st =
     (case locate (cl_addr cl) (cl_nodes cl) url of
        None \<Rightarrow> (Inl (Failure ''no such host''), st)
      | Some (n, seg) \<Rightarrow>
          if n \<notin> cl_up cl then (Inl (Failure ''connection refused''), st)
          else case Routes ''GET'' [''internal'', ''chunks'', seg] of
                 RGetChunk cid \<Rightarrow>
                   (let (resp, s') = handleGetChunk cid (new_response []) (cl_srv cl n) (st n)
                    in (Inr (final_status resp, Inr (rs_body resp)), st(n := s')))
               | _ \<Rightarrow> (Inr (404, Inr []), st))"

text \<open>
  What a reader at node \<open>z\<close> has: its own store, and the stores of the cluster, with contents \<open>cs\<close>.
\<close>

definition read_ok ::
  "(bytes \<Rightarrow> bytes) \<Rightarrow> ('c, 'cb) cluster \<Rightarrow> bytes set \<Rightarrow> (string \<Rightarrow> string \<rightharpoonup> bytes) \<Rightarrow> string \<Rightarrow> (fsys, 'c, stores) io \<Rightarrow> bool" where
  "read_ok sha256 cl S cs z w \<longleftrightarrow> localfs_inv (cl_root cl z) (io_local w) \<and> no_faults (io_local w)
     \<and> localfs_stored (cl_root cl z) (io_local w) = cs z
     \<and> st_ok sha256 cl S (io_net w) \<and> cl_stored cl (io_net w) = cs"

text \<open>The peer table of a node knows the addresses, and all other nodes that are up as alive.\<close>

definition peers_right :: "('c, 'cb) cluster \<Rightarrow> string \<Rightarrow> 'cb membership \<Rightarrow> bool" where
  "peers_right cl z m \<longleftrightarrow> table_ok m
     \<and> (\<forall>n \<in> cl_up cl - {z}. \<exists>p. gm_get (peers m) n = Some p \<and> Addr p = cl_addr cl n \<and> peer_State p = StateAlive)"

lemma ok_id_nonempty: "ok_id c \<Longrightarrow> c \<noteq> ''''"
  by (auto simp: ok_id_def)

lemma net_get_up:
  assumes wf: "cl_wf cl" and ok: "st_ok sha256 cl S st" and n: "n \<in> set (cl_nodes cl)" "n \<in> cl_up cl"
    and c: "ok_id c" "cl_stored cl st n c = Some d"
  shows "\<exists>st'. net_get (cluster_Get cl) (chunk_url (cl_addr cl n) c) st = (Inr d, st')
    \<and> st_ok sha256 cl S st' \<and> cl_stored cl st' = cl_stored cl st"
proof -
  have loc: "locate (cl_addr cl) (cl_nodes cl) (chunk_url (cl_addr cl n) c) = Some (n, c)"
    using wf n(1) by (intro locate_node) (auto simp: cl_wf_def)
  have inv: "localfs_inv (cl_root cl n) (st n)" "no_faults (st n)" using ok n(1) by (auto simp: st_ok_def)
  have srv: "Local (cl_srv cl n) = LocalFS (cl_root cl n)" using wf n(1) by (auto simp: cl_wf_def)
  have route: "Routes ''GET'' [''internal'', ''chunks'', c] = RGetChunk c"
    using ok_id_nonempty [OF c(1)] by (simp add: Routes_def is_get_def numeral_2_eq_2 numeral_3_eq_3)
  obtain x s' where g: "b_Get (LocalFS (cl_root cl n)) c (st n) = (x, s')" by fastforce
  have x: "x = Inr d" "no_faults s'" using lfs.get_reliable [OF inv(1) c(1) inv(2) g] c(2) by (simp_all add: cl_stored_def)
  have s': "localfs_inv (cl_root cl n) s'" "localfs_stored (cl_root cl n) s' = localfs_stored (cl_root cl n) (st n)"
    using lfs.get_inv [OF inv(1) c(1) g] by simp_all
  have same: "cl_stored cl (st(n := s')) = cl_stored cl st" using s'(2) by (auto simp: cl_stored_def fun_eq_iff)
  moreover have "st_ok sha256 cl S (st(n := s'))"
    unfolding st_ok_def same using ok s'(1) x(2) by (simp add: st_ok_def)
  moreover have "handleGetChunk c (new_response []) (cl_srv cl n) (st n)
      = (\<lparr>rs_header = [], rs_status = Some 200, rs_body = d, rs_writes = []\<rparr>, s')"
    using g x srv by (simp add: handleGetChunk_def rs_Write_def WriteHeader_def new_response_def)
  ultimately show ?thesis
    using loc route n(2) by (simp add: net_get_def cluster_Get_def final_status_def)
qed

text \<open>Any node reads a replicated chunk, and its reading changes no content.\<close>

lemma fetch_replicated:
  assumes wf: "cl_wf cl" and inj: "inj_on sha256 S" and ne: "\<forall>b. sha256 b \<noteq> []"
    and z: "SelfID srv = z" "Local srv = LocalFS (cl_root cl z)" "z \<in> set (cl_nodes cl)"
    and tbl: "peers_right cl z (srv_Membership srv)" "range_order ord"
    and up: "set (GetN sha1 (Ring srv) (ID sha256 d) Factor) \<subseteq> cl_up cl" "cl_up cl \<subseteq> set (cl_nodes cl)"
    and held: "GetN sha1 (Ring srv) (ID sha256 d) Factor \<noteq> []"
      "\<forall>n \<in> set (GetN sha1 (Ring srv) (ID sha256 d) Factor). cs n (ID sha256 d) = Some d"
    and w: "read_ok sha256 cl S cs z w" and d: "d \<in> S"
  shows "\<exists>w'. fetchChunk sha1 ord (cluster_Get cl) srv (ID sha256 d) w = (Inr d, w') \<and> read_ok sha256 cl S cs z w'
    \<and> io_resp w' = io_resp w"
proof -
  let ?c = "ID sha256 d" and ?ts = "GetN sha1 (Ring srv) (ID sha256 d) Factor"
  have c: "ok_id ?c" using ne by (intro ok_id_ID) simp
  have L: "localfs_inv (cl_root cl z) (io_local w)" "no_faults (io_local w)"
    "localfs_stored (cl_root cl z) (io_local w) = cs z"
    and N: "st_ok sha256 cl S (io_net w)" "cl_stored cl (io_net w) = cs" using w by (simp_all add: read_ok_def)
  obtain x s1 where g: "b_Get (LocalFS (cl_root cl z)) ?c (io_local w) = (x, s1)" by fastforce
  have x: "x = (case cs z ?c of None \<Rightarrow> Inl ErrNotFound | Some d \<Rightarrow> Inr d)" and s1: "no_faults s1"
    using lfs.get_reliable [OF L(1) c L(2) g] L(3) by simp_all
  have s1': "localfs_inv (cl_root cl z) s1" "localfs_stored (cl_root cl z) s1 = cs z"
    using lfs.get_inv [OF L(1) c g] L(3) by simp_all
  have verified: "cs z ?c = Some d' \<Longrightarrow> d' = d" for d'
  proof -
    assume "cs z ?c = Some d'"
    then have v: "Verify sha256 ?c d'" "d' \<in> S" using N z(3) by (auto simp: st_ok_def)
    then have "EncodeToString (sha256 d') = EncodeToString (sha256 d)" by (simp add: Verify_def ID_def)
    then have "sha256 d' = sha256 d" by (simp add: EncodeToString_inj)
    then show "d' = d" using inj v(2) d by (auto dest: inj_onD)
  qed
  show ?thesis
  proof (cases "cs z ?c")
    case (Some d')
    with verified x have "x = Inr d" by simp
    from fetchChunk_local [of srv ?c w d s1] this g z(2)
    have "fetchChunk sha1 ord (cluster_Get cl) srv ?c w = (Inr d, w\<lparr>io_local := s1\<rparr>)" by simp
    moreover have "read_ok sha256 cl S cs z (w\<lparr>io_local := s1\<rparr>)" using s1 s1' N by (simp add: read_ok_def)
    ultimately show ?thesis by simp
  next
    case None
    with x have xe: "x = Inl ErrNotFound" by simp
    from held(1) obtain n ns where ts: "?ts = n # ns" by (cases ?ts) auto
    have n: "n \<in> cl_up cl" "n \<in> set (cl_nodes cl)" "cs n ?c = Some d" "n \<noteq> z" using up held(2) ts None by auto
    with tbl(1) obtain p where p: "gm_get (peers (srv_Membership srv)) n = Some p" "Addr p = cl_addr cl n" "peer_State p = StateAlive"
      by (auto simp: peers_right_def)
    have "table_ok (srv_Membership srv)" using tbl(1) by (simp add: peers_right_def)
    from addrForNode_table [OF this tbl(2), of n] p
    have a: "addrForNode ord (srv_Membership srv) n = (cl_addr cl n, True)" by simp
    have "cl_stored cl (io_net w) n ?c = Some d" using N(2) n(3) by simp
    from net_get_up [OF wf N(1) n(2,1) c this] obtain st' where
      st': "net_get (cluster_Get cl) (chunk_url (cl_addr cl n) ?c) (io_net w) = (Inr d, st')"
      "st_ok sha256 cl S st'" "cl_stored cl st' = cs" using N(2) by auto
    have "fetch_peers (SelfID srv) (addrForNode ord (srv_Membership srv)) (cluster_Get cl) ?c ?ts (io_net w) = (Some d, st')"
      using st'(1) a n(4) z(1) unfolding ts by (simp add: fetch_peers_Cons)
    then have "fetchChunk sha1 ord (cluster_Get cl) srv ?c w = (Inr d, w\<lparr>io_local := s1, io_net := st'\<rparr>)"
      using g xe z(2) by (simp add: fetchChunk_def)
    moreover have "read_ok sha256 cl S cs z (w\<lparr>io_local := s1, io_net := st'\<rparr>)" using s1 s1' st' by (simp add: read_ok_def)
    ultimately show ?thesis by simp
  qed
qed

lemma reassemble_replicated:
  assumes fetch: "\<And>d w. d \<in> set ds \<Longrightarrow> read_ok sha256 cl S cs z w \<Longrightarrow>
      \<exists>w'. get (ID sha256 d) w = (Inr d, w') \<and> read_ok sha256 cl S cs z w' \<and> io_resp w' = io_resp w"
    and w: "read_ok sha256 cl S cs z w" and resp: "rs_writes (io_resp w) = []" "final_status (io_resp w) = 200"
  shows "\<exists>w'. reassemble_loop sha256 io_Write get (map (ID sha256) ds) w = (None, w')
    \<and> rs_body (io_resp w') = rs_body (io_resp w) @ concat ds \<and> final_status (io_resp w') = 200"
  using assms
proof (induction ds arbitrary: w)
  case (Cons d ds)
  from Cons.prems(1) [OF _ Cons.prems(2), of d] obtain w1 where
    g: "get (ID sha256 d) w = (Inr d, w1)" "read_ok sha256 cl S cs z w1" "io_resp w1 = io_resp w" by auto
  let ?w2 = "w1\<lparr>io_resp := snd (rs_Write d (io_resp w1))\<rparr>"
  have wr: "io_Write d w1 = (None, ?w2)"
    using Cons.prems(3) g(3) by (simp add: io_Write_def rs_Write_def WriteHeader_def Let_def split: prod.split)
  have resp: "rs_writes (io_resp ?w2) = []" "final_status (io_resp ?w2) = 200"
    "rs_body (io_resp ?w2) = rs_body (io_resp w) @ d"
    using Cons.prems(3,4) g(3) by (auto simp: rs_Write_def WriteHeader_def final_status_def Let_def)
  have "read_ok sha256 cl S cs z ?w2" using g(2) by (simp add: read_ok_def)
  from Cons.IH [OF Cons.prems(1) this resp(1,2)] obtain w' where
    w': "reassemble_loop sha256 io_Write get (map (ID sha256) ds) ?w2 = (None, w')"
    "rs_body (io_resp w') = rs_body (io_resp ?w2) @ concat ds" "final_status (io_resp w') = 200" by auto
  have "reassemble_loop sha256 io_Write get (map (ID sha256) (d # ds)) w = (None, w')"
    using g(1) wr w'(1) by (simp add: Verify_def)
  with w' resp(3) show ?case by simp
qed simp

section \<open>Uploads into the cluster\<close>

text \<open>
  An upload at node \<open>y\<close> whose jobs its workers have finished, in any order: every chunk of the blob is
  replicated, and the server holds the manifest.
\<close>

lemma upload_replicates:
  assumes wf: "cl_wf cl" and ne: "\<forall>b. sha256 b \<noteq> []" and inj: "inj_on sha256 S"
    and inv: "cluster_inv sha1 sha256 cl U S (r, up, st)" and y: "y \<in> up" "SelfID (cl_srv cl y) = y"
    and body: "ending body = EOF" "set (pieces (nat DefaultSize) (content body)) \<subseteq> S" "blobID \<noteq> ''''"
    and w: "rs_status w = None"
    and run: "handleUploadBlob sha1 sha256 (\<lambda>i. r) (''/blobs/'' @ blobID) body w (cl_srv cl y) (st y) = Some (w1, jobs, srv1, s1)"
    and work: "set work = Pair y ` set jobs"
    and st2: "st2 = run_jobs sha1 sha256 (cl\<lparr>cl_up := up\<rparr>) k r work (st(y := s1))"
  shows "final_status w1 = 200 \<and> cluster_inv sha1 sha256 cl U S (r, up, st2)
    \<and> (\<exists>m. gm_get (manifests srv1) blobID = Some m \<and> ChunkIDs m = map (ID sha256) (pieces (nat DefaultSize) (content body)))
    \<and> SelfID srv1 = y \<and> Local srv1 = LocalFS (cl_root cl y)
    \<and> (\<forall>d \<in> set (pieces (nat DefaultSize) (content body)). replicated sha1 cl (r, up, st2) (ID sha256 d) d)"
proof -
  let ?ds = "pieces (nat DefaultSize) (content body)" and ?B = "LocalFS (cl_root cl y)"
  have I: "ring_inv sha1 U r" "ring_set r = up" "up \<subseteq> set (cl_nodes cl)" "st_ok sha256 cl S st"
    using inv by (simp_all add: cluster_inv_def)
  have yn: "y \<in> set (cl_nodes cl)" using y(1) I(3) by blast
  have srv: "Local (cl_srv cl y) = ?B" using wf yn by (simp add: cl_wf_def)
  have base: "localfs_inv (cl_root cl y) (st y)" "no_faults (st y)" using I(4) yn by (simp_all add: st_ok_def)
  obtain chunks m where sp: "Split sha256 blobID body DefaultSize = Some (Inr (chunks, m))"
    using body(1) by (simp add: Split_spec accepted_end_def Let_def)
  note C = Split_chunks [OF sp, unfolded effective_size_default]
  have ids: "\<forall>ch \<in> set chunks. chunkID ch = ID sha256 (chunkData ch)" using C by blast
  have data: "chunkData ` set chunks = set ?ds" using C by (metis list.set_map)
  have ok: "\<forall>ch \<in> set chunks. ok_id (chunkID ch)" using ids ok_id_ID ne by simp
  have same: "same_data chunks"
    unfolding same_data_def
  proof (intro ballI impI)
    fix c c' assume c: "c \<in> set chunks" "c' \<in> set chunks" "chunkID c = chunkID c'"
    then have "EncodeToString (sha256 (chunkData c)) = EncodeToString (sha256 (chunkData c'))" using ids by (simp add: ID_def)
    then have "sha256 (chunkData c) = sha256 (chunkData c')" by (simp add: EncodeToString_inj)
    moreover have "chunkData c \<in> S" "chunkData c' \<in> S" using c(1,2) data body(2) by blast+
    ultimately show "chunkData c = chunkData c'" using inj by (auto dest: inj_onD)
  qed
  obtain res js s' where u: "upload_loop (SelfID (cl_srv cl y)) (Local (cl_srv cl y)) (\<lambda>i c. GetN sha1 r c Factor) 0 chunks (st y) = (res, js, s')"
    by (metis prod.exhaust)
  note U = lfs.upload_loop_spec [OF base(1) ok same u [unfolded srv]]
  have res: "res = None" using U base(2) by simp
  from trans [OF run [symmetric] upload_outcome(3) [OF body(3) sp u [unfolded res]]]
  have w1: "w1 = snd (rs_Write (bytes_of (json_manifest m)) (Header_Set ''Content-Type'' ''application/json'' w))"
    and srv1: "srv1 = (cl_srv cl y)\<lparr>manifests := gm_set (manifests (cl_srv cl y)) blobID m\<rparr>" and s1: "s1 = s'" and js: "jobs = js"
    by simp_all
  have status: "final_status w1 = 200" unfolding w1 by (rule upload_ok_status [OF w])
  have jobs: "jobs = map job_of chunks" using U res js by simp
  have s': "localfs_inv (cl_root cl y) s'" "no_faults s'" using U base(2) by simp_all
  have new: "localfs_stored (cl_root cl y) s' x = cl_stored cl st y x
      \<or> (\<exists>d \<in> set ?ds. x = ID sha256 d \<and> localfs_stored (cl_root cl y) s' x = Some d)" for x
  proof -
    from U consider "localfs_stored (cl_root cl y) s' x = localfs_stored (cl_root cl y) (st y) x"
      | k where "k < length chunks" "chunkID (chunks ! k) = x" "localfs_stored (cl_root cl y) s' x = Some (chunkData (chunks ! k))"
      by blast
    then show ?thesis
    proof cases
      case 2
      then have "chunks ! k \<in> set chunks" by simp
      with 2 ids data show ?thesis by (metis imageI)
    qed (simp add: cl_stored_def)
  qed
  let ?st1 = "st(y := s')"
  have keep1: "cl_stored cl ?st1 n = (if n = y then localfs_stored (cl_root cl y) s' else cl_stored cl st n)" for n
    by (simp add: cl_stored_def)
  have ok1: "st_ok sha256 cl S ?st1"
    unfolding st_ok_def
  proof (intro ballI conjI allI impI)
    fix n assume n: "n \<in> set (cl_nodes cl)"
    show "localfs_inv (cl_root cl n) (?st1 n)" "no_faults (?st1 n)" using I(4) n s' by (auto simp: st_ok_def)
    fix c d assume c: "cl_stored cl ?st1 n c = Some d"
    have old: "cl_stored cl st n c = Some d \<Longrightarrow> Verify sha256 c d \<and> d \<in> S" using I(4) n by (simp add: st_ok_def)
    show "Verify sha256 c d" "d \<in> S"
      using c old new [of c] body(2) by (auto simp: keep1 Verify_def split: if_splits)
  qed
  have good: "Verify sha256 (ChunkID j) (Data j) \<and> Data j \<in> S" if "(y', j) \<in> set work" for y' j
  proof -
    from that work jobs obtain c where "c \<in> set chunks" "j = job_of c" by auto
    with ids data body(2) show ?thesis by (auto simp: job_of_def Verify_def)
  qed
  have "set (GetN sha1 r c Factor) \<subseteq> set (cl_nodes (cl\<lparr>cl_up := up\<rparr>))" for c
    using hr.getn_members [OF I(1), of c Factor] I(2,3) by simp
  note J = run_jobs_spec [where cl = "cl\<lparr>cl_up := up\<rparr>" and k = k, unfolded cl_up_irrelevant, OF wf ne this inj ok1 good]
  have "cluster_inv sha1 sha256 cl U S (r, up, st2)"
    using J I(1-3) by (simp add: cluster_inv_def st2 s1)
  moreover have "replicated sha1 cl (r, up, st2) (ID sha256 d) d" if d: "d \<in> set ?ds" for d
    unfolding replicated_def prod.case
  proof
    fix n assume n: "n \<in> set (GetN sha1 r (ID sha256 d) Factor)"
    then have up: "n \<in> up" using hr.getn_members [OF I(1)] I(2) by blast
    from d data obtain i where i: "i < length chunks" "chunkData (chunks ! i) = d" by (metis imageE in_set_conv_nth)
    then have cid: "chunkID (chunks ! i) = ID sha256 d" using ids by simp
    have j: "(y, \<lparr>ChunkID = ID sha256 d, Data = d\<rparr>) \<in> set work"
      using i cid unfolding work jobs by (auto simp: job_of_def intro!: image_eqI [of _ _ "chunks ! i"])
    show "cl_stored cl st2 n (ID sha256 d) = Some d"
    proof (cases "n = y")
      case True
      have "local_target y (GetN sha1 r (ID sha256 d) Factor)" using n True by (auto simp: local_target_def)
      then have "localfs_stored (cl_root cl y) s' (ID sha256 d) = Some d" using U res i cid y(2) by auto
      then have "cl_stored cl ?st1 n (ID sha256 d) = Some d" using True by (simp add: keep1)
      with J yn True show ?thesis by (simp add: st2 s1)
    next
      case False
      with J j n up show ?thesis by (fastforce simp: st2 s1)
    qed
  qed
  moreover have "gm_get (manifests srv1) blobID = Some m" "SelfID srv1 = y" "Local srv1 = ?B"
    using y(2) srv by (simp_all add: srv1 gomap_simps)
  ultimately show ?thesis using C status by blast
qed

section \<open>Properties\<close>

text \<open>
  C1. An uploaded blob survives the deaths of nodes. A body that ends properly is uploaded at a node of a
  cluster whose ring holds the nodes that are up, and the workers finish its jobs in any order; then
  nodes die one after the other, each death repaired by the survivors before the next. As long as the
  uploading node survives and knows which of its peers are up, the upload was answered 200 and a download
  there is answered 200 with exactly the uploaded bytes - whichever nodes have died in the meantime.
\<close>

theorem blob_survives_deaths:
  fixes cl :: "('c, 'cb) cluster" and cold :: 'c
  assumes "cl_wf cl" and "\<forall>b. sha256 b \<noteq> []" and "inj_on sha256 S"
    and "ring_inv sha1 U r" and "ring_set r = up" and "up \<subseteq> set (cl_nodes cl)" and "st_ok sha256 cl S st"
    and "y \<in> up" and "SelfID (cl_srv cl y) = y"
    and "ending body = EOF" and "set (pieces (nat DefaultSize) (content body)) \<subseteq> S" and "blobID \<noteq> ''''"
    and "handleUploadBlob sha1 sha256 (\<lambda>i. r) (''/blobs/'' @ blobID) body (new_response []) (cl_srv cl y) (st y)
           = Some (w1, jobs, srv1, s1)"
    and "set work = Pair y ` set jobs"
    and "heals sha1 sha256 cl k (r, up, run_jobs sha1 sha256 (cl\<lparr>cl_up := up\<rparr>) k r work (st(y := s1))) (r', up', st')"
    and "y \<in> up'" and "peers_right (cl\<lparr>cl_up := up'\<rparr>) y ms" and "range_order ord"
  defines "w \<equiv> \<lparr>io_resp = new_response [], io_local = st' y, io_cold = cold, io_net = st'\<rparr>"
  shows "final_status w1 = 200
    \<and> (\<exists>w'. handleDownloadBlob sha1 sha256 ord (cluster_Get (cl\<lparr>cl_up := up'\<rparr>)) (srv1\<lparr>Ring := r', srv_Membership := ms\<rparr>)
             (''/blobs/'' @ blobID) w = (w', None)
         \<and> final_status (io_resp w') = 200 \<and> rs_body (io_resp w') = content body)"
proof -
  let ?ds = "pieces (nat DefaultSize) (content body)" and ?cl = "cl\<lparr>cl_up := up'\<rparr>"
  let ?srv = "srv1\<lparr>Ring := r', srv_Membership := ms\<rparr>"
  let ?get = "fetchChunk sha1 ord (cluster_Get ?cl) ?srv"
  have inv: "cluster_inv sha1 sha256 cl U S (r, up, st)" using assms(4-7) by (simp add: cluster_inv_def)
  have "rs_status (new_response []) = None" by (simp add: new_response_def)
  note P = upload_replicates [OF assms(1-3) inv assms(8-12) this assms(13,14) refl, of k]
  then obtain m where m: "gm_get (manifests srv1) blobID = Some m" "ChunkIDs m = map (ID sha256) ?ds" by blast
  note H = heals_spec [OF assms(15,1-3), of U]
  have inv': "ring_inv sha1 U r'" "ring_set r' = up'" "up' \<subseteq> set (cl_nodes cl)" "st_ok sha256 cl S st'"
    using H P by (auto simp: cluster_inv_def)
  have held: "\<forall>n \<in> set (GetN sha1 r' (ID sha256 d) Factor). cl_stored cl st' n (ID sha256 d) = Some d" if "d \<in> set ?ds" for d
    using H P that by (auto simp: replicated_def)
  have up': "set (GetN sha1 r' c Factor) \<subseteq> up'" for c using hr.getn_members [OF inv'(1)] inv'(2) by simp
  have "0 < card up'" using assms(16) inv'(3) by (metis card_gt_0_iff empty_iff finite_subset List.finite_set)
  then have nonempty: "GetN sha1 r' c Factor \<noteq> []" for c
    using hr.getn_length [OF inv'(1), of c Factor] inv'(2) by (auto simp: Factor_def)
  have z: "y \<in> set (cl_nodes cl)" using assms(16) inv'(3) by blast
  have w: "read_ok sha256 ?cl S (cl_stored cl st') y w"
    using inv'(4) z by (simp add: read_ok_def w_def st_ok_def cl_stored_def)
  have fetch: "\<exists>v'. ?get (ID sha256 d) v = (Inr d, v') \<and> read_ok sha256 ?cl S (cl_stored cl st') y v' \<and> io_resp v' = io_resp v"
    if d: "d \<in> set ?ds" and v: "read_ok sha256 ?cl S (cl_stored cl st') y v" for d and v :: "(fsys, 'c, stores) io"
  proof (rule fetch_replicated [OF _ assms(3,2) _ _ _ _ assms(18) _ _ _ _ v])
    show "cl_wf ?cl" using assms(1) by simp
    show "SelfID ?srv = y" "Local ?srv = LocalFS (cl_root ?cl y)" using P by simp_all
    show "d \<in> S" using d assms(11) by blast
    show "peers_right ?cl y (srv_Membership ?srv)" using assms(17) by simp
  qed (use z up' inv'(3) nonempty held [OF d] in simp_all)
  have "rs_writes (io_resp w) = []" "final_status (io_resp w) = 200" "rs_body (io_resp w) = []"
    by (simp_all add: w_def new_response_def final_status_def)
  with reassemble_replicated [OF fetch w] obtain w' where
    w': "reassemble_loop sha256 io_Write ?get (map (ID sha256) ?ds) w = (None, w')"
    "rs_body (io_resp w') = concat ?ds" "final_status (io_resp w') = 200" by auto
  have "concat ?ds = content body" by (rule concat_pieces) (simp add: DefaultSize_def)
  moreover have "handleDownloadBlob sha1 sha256 ord (cluster_Get ?cl) ?srv (''/blobs/'' @ blobID) w = (w', None)"
    using download_known [of ?srv blobID m sha1 sha256 ord "cluster_Get ?cl" w] m w'(1) by (simp add: Reassemble_def)
  ultimately show ?thesis using P w'(2,3) by auto
qed

text \<open>Four nodes with empty stores: an upload at the first, then the death of the second.\<close>

definition serving_cluster :: "(memory, bool) cluster" where
  "serving_cluster =
     \<lparr>cl_nodes = [''a'', ''b'', ''c'', ''d''], cl_addr = (\<lambda>n. n @ '':80''), cl_root = (\<lambda>n. sample_localfs),
      cl_srv = (\<lambda>n. NewServer n sample_ring (LocalFS sample_localfs) None four_peers), cl_up = {}\<rparr>"

lemma serving_cluster_wf: "cl_wf serving_cluster"
  by (simp add: cl_wf_def serving_cluster_def NewServer_def inj_on_def)

lemma serving_stores: "st_ok sample_sha256 serving_cluster UNIV (\<lambda>n. sample_fs)"
  using sample_fs_inv by (simp add: st_ok_def serving_cluster_def cl_stored_def sample_store_empty)

lemma serving_peers: "up \<subseteq> {''a'', ''b'', ''c'', ''d''} \<Longrightarrow> peers_right (serving_cluster\<lparr>cl_up := up\<rparr>) ''a'' four_peers"
  by (auto simp: peers_right_def table_ok_def four_peers_table gm_ok_def gm_get_def serving_cluster_def split: if_splits)

lemma blob_survives_deaths_witness:
  "\<exists>(srv :: (fsys, memory, bool) server) w w'. handleDownloadBlob sample_sha1 sample_sha256 rev (cluster_Get (serving_cluster\<lparr>cl_up := {''a'', ''c'', ''d''}\<rparr>))
       srv ''/blobs/x'' w = (w', None)
     \<and> final_status (io_resp w') = 200 \<and> rs_body (io_resp w') = [7, 8]"
proof -
  let ?up = "{''a'', ''b'', ''c'', ''d''}" and ?body = "[RData [7, 8]]" and ?srv = "cl_srv serving_cluster ''a''"
  obtain w1 jobs srv1 s1 where run: "handleUploadBlob sample_sha1 sample_sha256 (\<lambda>i. sample_ring) (''/blobs/'' @ ''x'') ?body
      (new_response []) ?srv sample_fs = Some (w1, jobs, srv1, s1)"
    using handleUploadBlob_total [of sample_sha1 sample_sha256 "\<lambda>i. sample_ring" "''/blobs/'' @ ''x''" ?body "new_response []"
        ?srv sample_fs] by blast
  let ?st = "run_jobs sample_sha1 sample_sha256 (serving_cluster\<lparr>cl_up := ?up\<rparr>) 4 sample_ring (map (Pair ''a'') jobs)
      ((\<lambda>n. sample_fs)(''a'' := s1))"
  have "finite ?up" by simp
  from finite_repair_work [OF this] obtain work where
    work: "repair_work sample_sha1 serving_cluster ''b'' (sample_ring, ?up, ?st) work" by blast
  have two: "2 \<le> card ?up" by simp
  obtain r' up' st' where s': "death_and_repair sample_sha1 sample_sha256 serving_cluster 4 ''b'' work (sample_ring, ?up, ?st) = (r', up', st')"
    by (metis prod.exhaust)
  have h: "heals sample_sha1 sample_sha256 serving_cluster 4 (sample_ring, ?up, ?st) (r', up', st')"
    using heals.death [OF heals.none two work] s' by metis
  have up': "up' = {''a'', ''c'', ''d''}" using s' by (auto simp: death_and_repair_def Let_def)
  have nonempty: "\<forall>b. sample_sha256 b \<noteq> []" by (simp add: sample_sha256_def)
  have nodes: "?up \<subseteq> set (cl_nodes serving_cluster)" by (simp add: serving_cluster_def)
  have self: "SelfID ?srv = ''a''" by (simp add: serving_cluster_def NewServer_def)
  have "''a'' \<in> ?up" "ending ?body = EOF" "''x'' \<noteq> ''''" "set (map (Pair ''a'') jobs) = Pair ''a'' ` set jobs" "''a'' \<in> up'"
    by (simp_all add: up')
  have "up' \<subseteq> ?up" by (auto simp: up')
  note T = blob_survives_deaths [where cold = NewMemory, OF serving_cluster_wf nonempty sample_sha256_inj sample_ring_inv sample_ring_set nodes
      serving_stores \<open>''a'' \<in> ?up\<close> self \<open>ending ?body = EOF\<close> subset_UNIV
      \<open>''x'' \<noteq> ''''\<close> run \<open>set (map (Pair ''a'') jobs) = Pair ''a'' ` set jobs\<close> h \<open>''a'' \<in> up'\<close> serving_peers [OF this] range_order_rev, THEN conjunct2]
  let ?w = "\<lparr>io_resp = new_response [], io_local = st' ''a'', io_cold = NewMemory, io_net = st'\<rparr>"
  from T obtain w' where D: "handleDownloadBlob sample_sha1 sample_sha256 rev (cluster_Get (serving_cluster\<lparr>cl_up := up'\<rparr>))
      (srv1\<lparr>Ring := r', srv_Membership := four_peers\<rparr>) (''/blobs/'' @ ''x'') ?w = (w', None)"
      "final_status (io_resp w') = 200" "rs_body (io_resp w') = content ?body" by blast
  have "''/blobs/'' @ ''x'' = ''/blobs/x''" "content ?body = [7, 8]" by simp_all
  with D have "handleDownloadBlob sample_sha1 sample_sha256 rev (cluster_Get (serving_cluster\<lparr>cl_up := {''a'', ''c'', ''d''}\<rparr>))
      (srv1\<lparr>Ring := r', srv_Membership := four_peers\<rparr>) ''/blobs/x'' ?w = (w', None)
      \<and> final_status (io_resp w') = 200 \<and> rs_body (io_resp w') = [7, 8]" unfolding up' by simp
  then show ?thesis by blast
qed

end
