(* ===== verification/Node.thy ===== *)
theory Node
  imports ApiProperties S3 Heartbeat
begin

text \<open>
  The node command, \<^verbatim>\<open>cmd/node/main.go\<close>: its configuration, the list of peers,
  the wiring of the components, and the running node as a step relation over the ring it shares
  between them, the membership table, the callbacks and repair passes in flight, the replication
  queue and the phases of the shutdown.
\<close>

section \<open>Configuration\<close>

text \<open>
  \<open>getenv\<close> is the environment, with the empty string for an unset variable; the flags given
  on the command line replace the defaults.
\<close>

definition envOr :: "(string \<Rightarrow> string) \<Rightarrow> string \<Rightarrow> string \<Rightarrow> string" where
  "envOr getenv key fallback = (let v = getenv key in if v \<noteq> '''' then v else fallback)"

definition flag_String :: "(string \<Rightarrow> string option) \<Rightarrow> string \<Rightarrow> string \<Rightarrow> string" where
  "flag_String given name deflt = (case given name of None \<Rightarrow> deflt | Some v \<Rightarrow> v)"

record config =
  nodeID :: string
  listenAddr :: string
  advertise :: string
  peersFlag :: string
  dataDir :: string
  s3Bucket :: string
  s3Region :: string
  heartbeat :: duration
  repWorkers :: int

definition parse_config ::
  "(string \<Rightarrow> string) \<Rightarrow> (string \<Rightarrow> string option) \<Rightarrow> duration option \<Rightarrow> int option \<Rightarrow> config" where
  "parse_config getenv given hb workers =
     \<lparr>nodeID = flag_String given ''node-id'' (envOr getenv ''NODE_ID'' ''node-1''),
      listenAddr = flag_String given ''listen'' (envOr getenv ''LISTEN_ADDR'' '':8080''),
      advertise = flag_String given ''advertise'' (envOr getenv ''ADVERTISE_ADDR'' ''localhost:8080''),
      peersFlag = flag_String given ''peers'' (envOr getenv ''PEERS'' ''''),
      dataDir = flag_String given ''data-dir'' (envOr getenv ''DATA_DIR'' ''/var/lib/p2pcd/data''),
      s3Bucket = flag_String given ''s3-bucket'' (envOr getenv ''S3_BUCKET'' ''''),
      s3Region = flag_String given ''s3-region'' (envOr getenv ''AWS_REGION'' ''us-east-1''),
      heartbeat = (case hb of None \<Rightarrow> 1 * Second | Some d \<Rightarrow> d),
      repWorkers = (case workers of None \<Rightarrow> 4 | Some k \<Rightarrow> k)\<rparr>"

section \<open>Peers and addresses\<close>

text \<open>
  The loop over the entries of the peer list; \<open>clock i\<close> is the time of the i-th entry. An
  entry without an equals sign is skipped.
\<close>

fun peers_loop ::
  "(bytes \<Rightarrow> bytes) \<Rightarrow> (nat \<Rightarrow> instant) \<Rightarrow> nat \<Rightarrow> string list \<Rightarrow> 'cb membership \<times> ring \<Rightarrow> 'cb membership \<times> ring" where
  "peers_loop sha1 clock i [] st = st"
| "peers_loop sha1 clock i (entry0 # es) (m, r) =
     (let entry = TrimSpace entry0
      in if entry = '''' then peers_loop sha1 clock (Suc i) es (m, r)
         else
           (let parts = SplitN2 (CHR ''='') entry
            in if length parts \<noteq> 2 then peers_loop sha1 clock (Suc i) es (m, r)
               else peers_loop sha1 clock (Suc i) es
                 (AddPeer (parts ! 0) (parts ! 1) (clock i) m, AddNode sha1 (parts ! 0) r)))"

definition AddrFor ::
  "((string \<times> Peer) list \<Rightarrow> (string \<times> Peer) list) \<Rightarrow> 'cb membership \<Rightarrow> string \<Rightarrow> string \<times> bool" where
  "AddrFor ord m nid =
     (case filter (\<lambda>p. peer_ID p = nid) (Peers ord m) of [] \<Rightarrow> ('''', False) | p # ps \<Rightarrow> (Addr p, True))"

section \<open>Wiring\<close>

text \<open>
  The two callbacks \<^verbatim>\<open>main\<close> registers, the phases of its shutdown, a repair pass that
  is under way, with the job of its call of Enqueue that has not gone through, an upload that is being served,
  with its remaining chunks and the job it sends, and the node.
  The ring is shared by the recovery manager, the engine and the server, so it is one field;
  \<open>n_calls\<close> are the callback goroutines and \<open>n_repairs\<close> the repair goroutines that have been
  started and have not run yet, oldest first.
\<close>

datatype callback = CbDead | CbAlive

datatype phase = Running | ServerDown | MembershipStopped | ContextCancelled | EngineStopped

record pass =
  ps_ids :: "string list"
  ps_send :: "job option"

record upload =
  up_id :: string
  up_manifest :: manifest
  up_chunks :: "chunk list"
  up_send :: "job option"

record node =
  n_ring :: ring
  n_local :: localfs
  n_cold :: "s3 option"
  n_ms :: "callback membership"
  n_loops :: "beater list"
  n_stopped :: bool
  n_engine :: engine
  n_rec :: manager
  n_pool :: pool
  n_log :: "effect list"
  n_manifests :: "(string, manifest) gomap"
  n_calls :: "(callback \<times> string) list"
  n_repairs :: "string list"
  n_passes :: "pass list"
  n_uploads :: "upload list"
  n_clock :: instant
  n_phase :: phase

definition main_cold :: "(string \<Rightarrow> string) \<Rightarrow> config \<Rightarrow> s3 option" where
  "main_cold getenv cfg =
     (if s3Bucket cfg \<noteq> ''''
      then Some (NewS3 (s3Bucket cfg) (s3Region cfg) (getenv ''AWS_ACCESS_KEY_ID'') (getenv ''AWS_SECRET_ACCESS_KEY'')
                   (getenv ''AWS_SESSION_TOKEN''))
      else None)"

text \<open>
  The start of the node up to its listening: an error is fatal. \<open>now\<close> is the time at which the
  membership is made, \<open>clock\<close> those of the peer entries and, last, of the start of the heartbeat.
\<close>

definition node_main ::
  "(bytes \<Rightarrow> bytes) \<Rightarrow> (string \<Rightarrow> string) \<Rightarrow> config \<Rightarrow> instant \<Rightarrow> (nat \<Rightarrow> instant) \<Rightarrow> fsys \<Rightarrow> (go_error + node) \<times> fsys" where
  "node_main sha1 getenv cfg now clock fs =
     (let ring = AddNode sha1 (nodeID cfg) ring_New
      in case NewLocalFS (dataDir cfg) fs of
           (Inl err, fs1) \<Rightarrow> (Inl err, fs1)
         | (Inr local, fs1) \<Rightarrow>
             (let cold = main_cold getenv cfg;
                  entries = strings_Split (CHR '','') (peersFlag cfg);
                  (m, r) = peers_loop sha1 clock 0 entries (membership_New (nodeID cfg) (advertise cfg) now, ring);
                  eng = NewEngine (nodeID cfg) (repWorkers cfg);
                  rec = manager_New (nodeID cfg);
                  m' = OnNodeAlive CbAlive (OnNodeDead CbDead m);
                  h = membership_Start \<lparr>h_ms = m', h_loops = [], h_stopped = False, h_clock = clock (length entries)\<rparr>
              in (Inr \<lparr>n_ring = r, n_local = local, n_cold = cold, n_ms = h_ms h, n_loops = h_loops h, n_stopped = h_stopped h,
                       n_engine = eng, n_rec = rec, n_pool = pool_Start eng, n_log = [], n_manifests = [], n_calls = [], n_repairs = [],
                       n_passes = [], n_uploads = [], n_clock = h_clock h, n_phase = Running\<rparr>, fs1)))"

text \<open>The server the handlers run on, and the part of the node that is the membership's heartbeat.\<close>

definition node_server ::
  "((string \<times> Peer) list \<Rightarrow> (string \<times> Peer) list) \<Rightarrow> (bytes \<Rightarrow> bytes) \<Rightarrow> 'n s3_env \<Rightarrow> node \<Rightarrow> (fsys, 'n, callback) server" where
  "node_server ord sha256 env n =
     (NewServer (man_selfID (n_rec n)) (n_ring n) (LocalFS (n_local n)) (map_option (S3 sha256 env) (n_cold n)) (n_ms n))
       \<lparr>manifests := n_manifests n\<rparr>"

definition node_heart :: "node \<Rightarrow> callback heart" where
  "node_heart n = \<lparr>h_ms = n_ms n, h_loops = n_loops n, h_stopped = n_stopped n, h_clock = n_clock n\<rparr>"

definition put_heart :: "callback heart \<Rightarrow> node \<Rightarrow> node" where
  "put_heart h n = n\<lparr>n_ms := h_ms h, n_loops := h_loops h, n_stopped := h_stopped h, n_clock := h_clock h\<rparr>"

section \<open>The running node\<close>

text \<open>
  The steps of a node whose process has not panicked. A tick, and a step of the heartbeat loop with the
  callbacks it starts. A callback goroutine runs; with \<open>strict\<close> the callbacks of one peer run in the
  order in which they were started. A repair pass lists the store, handles one chunk after the
  other, each with the ring of that moment, waits in Enqueue until its job goes through - or
  panics when the channel has been closed - and ends. An upload, once its body is split, goes on in the same way:
  it stores a chunk this node owns, or ends with an error, waits in Enqueue, and records the manifest and answers after its
  last chunk. Its panic on the closed channel ends the upload only: the HTTP server recovers the panics of
  handlers. The queue moves; callers of Enqueue come from passes
  and uploads only. A worker makes the pushes of its job, each of which the scripts \<open>results\<close> and
  \<open>cancels\<close> let succeed, fail or be cancelled, and \<open>n_log\<close> records them. Any other request is served as one step; those
  still under way when the server is shut down, whose wait for them has a timeout, may end later. The shutdown goes on.
\<close>

definition handler_run :: "(bytes \<Rightarrow> bytes) \<Rightarrow> callback \<Rightarrow> string \<Rightarrow> string \<Rightarrow> ring \<Rightarrow> ring \<times> string list" where
  "handler_run sha1 cb x addr r =
     (case cb of CbDead \<Rightarrow> HandleNodeDead x r | CbAlive \<Rightarrow> (HandleNodeAlive sha1 x addr r, []))"

definition node_targets :: "(bytes \<Rightarrow> bytes) \<Rightarrow> node \<Rightarrow> nat \<Rightarrow> string \<Rightarrow> string list" where
  "node_targets sha1 n i c = GetN sha1 (n_ring n) c Factor"

inductive node_step ::
  "(bytes \<Rightarrow> bytes) \<Rightarrow> (bytes \<Rightarrow> bytes) \<Rightarrow> 'n s3_env \<Rightarrow> bool \<Rightarrow> node \<times> fsys \<Rightarrow> node \<times> fsys \<Rightarrow> bool"
  for sha1 sha256 env strict where
  tick: "\<not> p_panicked (n_pool n) \<Longrightarrow> ticker_step (node_heart n) h \<Longrightarrow>
     node_step sha1 sha256 env strict (n, fs) (put_heart h n, fs)"
| heart: "\<not> p_panicked (n_pool n) \<Longrightarrow> loop_step (node_heart n) calls h \<Longrightarrow>
     node_step sha1 sha256 env strict (n, fs) ((put_heart h n)\<lparr>n_calls := n_calls n @ calls\<rparr>, fs)"
| callback: "\<not> p_panicked (n_pool n) \<Longrightarrow> n_calls n = xs @ (cb, x) # ys \<Longrightarrow> strict \<longrightarrow> x \<notin> snd ` set xs \<Longrightarrow> range_order ord \<Longrightarrow>
     handler_run sha1 cb x (fst (AddrFor ord (n_ms n) x)) (n_ring n) = (r', repairs) \<Longrightarrow>
     node_step sha1 sha256 env strict (n, fs) (n\<lparr>n_ring := r', n_calls := xs @ ys, n_repairs := n_repairs n @ repairs\<rparr>, fs)"
| pass_list: "\<not> p_panicked (n_pool n) \<Longrightarrow> n_repairs n = xs @ x # ys \<Longrightarrow> b_List (LocalFS (n_local n)) fs = (Inr ids, fs') \<Longrightarrow>
     node_step sha1 sha256 env strict (n, fs)
       (n\<lparr>n_repairs := xs @ ys, n_rec := repair_start (n_rec n), n_passes := n_passes n @ [\<lparr>ps_ids = ids, ps_send = None\<rparr>]\<rparr>, fs')"
| pass_fails: "\<not> p_panicked (n_pool n) \<Longrightarrow> n_repairs n = xs @ x # ys \<Longrightarrow> b_List (LocalFS (n_local n)) fs = (Inl err, fs') \<Longrightarrow>
     node_step sha1 sha256 env strict (n, fs)
       (n\<lparr>n_repairs := xs @ ys, n_rec := repair_end (repair_start (n_rec n))\<rparr>, fs')"
| pass_chunk: "\<not> p_panicked (n_pool n) \<Longrightarrow> n_passes n = xs @ \<lparr>ps_ids = c # ids, ps_send = None\<rparr> # ys \<Longrightarrow>
     repair_loop (man_selfID (n_rec n)) (LocalFS (n_local n)) (node_targets sha1 n) 0 [c] fs = (jobs, fs') \<Longrightarrow>
     node_step sha1 sha256 env strict (n, fs)
       (n\<lparr>n_passes := xs @ \<lparr>ps_ids = ids, ps_send = (case jobs of [] \<Rightarrow> None | j # js \<Rightarrow> Some j)\<rparr> # ys\<rparr>, fs')"
| pass_send: "\<not> p_panicked (n_pool n) \<Longrightarrow> n_passes n = xs @ \<lparr>ps_ids = ids, ps_send = Some j\<rparr> # ys \<Longrightarrow>
     \<not> p_closed (n_pool n) \<Longrightarrow> length (p_queue (n_pool n)) < queue_cap \<Longrightarrow>
     node_step sha1 sha256 env strict (n, fs)
       (n\<lparr>n_passes := xs @ \<lparr>ps_ids = ids, ps_send = None\<rparr> # ys,
          n_pool := (n_pool n)\<lparr>p_queue := p_queue (n_pool n) @ [j], accepted := accepted (n_pool n) @ [j]\<rparr>\<rparr>, fs)"
| pass_panics: "\<not> p_panicked (n_pool n) \<Longrightarrow> n_passes n = xs @ \<lparr>ps_ids = ids, ps_send = Some j\<rparr> # ys \<Longrightarrow> p_closed (n_pool n) \<Longrightarrow>
     node_step sha1 sha256 env strict (n, fs) (n\<lparr>n_pool := (n_pool n)\<lparr>p_panicked := True\<rparr>\<rparr>, fs)"
| pass_end: "\<not> p_panicked (n_pool n) \<Longrightarrow> n_passes n = xs @ \<lparr>ps_ids = [], ps_send = None\<rparr> # ys \<Longrightarrow>
     node_step sha1 sha256 env strict (n, fs) (n\<lparr>n_passes := xs @ ys, n_rec := repair_end (n_rec n)\<rparr>, fs)"
| queue: "pool_step (n_pool n) p' \<Longrightarrow> p_closed p' = p_closed (n_pool n) \<Longrightarrow> p_senders p' = [] \<Longrightarrow>
     finished p' = finished (n_pool n) \<Longrightarrow>
     node_step sha1 sha256 env strict (n, fs) (n\<lparr>n_pool := p'\<rparr>, fs)"
| work: "\<not> p_panicked (n_pool n) \<Longrightarrow> i < length (p_workers (n_pool n)) \<Longrightarrow> p_workers (n_pool n) ! i = Busy j \<Longrightarrow> range_order ord \<Longrightarrow>
     replicate_job sha1 (n_engine n) (script_env results cancels) (AddrFor ord (n_ms n)) (n_ring n) j (n_log n) = (outs, log) \<Longrightarrow>
     node_step sha1 sha256 env strict (n, fs)
       (n\<lparr>n_log := log, n_pool := (n_pool n)\<lparr>p_workers := (p_workers (n_pool n))[i := Idle], finished := finished (n_pool n) @ [j]\<rparr>\<rparr>, fs)"
| request: "\<not> p_panicked (n_pool n) \<Longrightarrow> \<forall>path. Routes (req_Method rq) (req_segs rq) \<noteq> RUpload path \<Longrightarrow>
     ServeHTTP sha1 sha256 rings ord ord' (http :: string \<Rightarrow> nat \<Rightarrow> get_reply \<times> nat) fmt_time (n_pool n) (n_rec n) rq
       (node_server ord' sha256 env n)
       \<lparr>io_resp = new_response ws, io_local = fs, io_cold = c, io_net = k\<rparr> = Some (io, jobs, srv) \<Longrightarrow>
     node_step sha1 sha256 env strict (n, fs) (n, io_local io)"
| upload_start: "\<not> p_panicked (n_pool n) \<Longrightarrow> Routes (req_Method (rq :: request)) (req_segs rq) = RUpload path \<Longrightarrow>
     TrimPrefix path ''/blobs/'' \<noteq> '''' \<Longrightarrow>
     Split sha256 (TrimPrefix path ''/blobs/'') (req_Body rq) DefaultSize = Some (Inr (chunks, mf)) \<Longrightarrow>
     node_step sha1 sha256 env strict (n, fs)
       (n\<lparr>n_uploads := n_uploads n
           @ [\<lparr>up_id = TrimPrefix path ''/blobs/'', up_manifest = mf, up_chunks = chunks, up_send = None\<rparr>]\<rparr>, fs)"
| upload_chunk: "\<not> p_panicked (n_pool n) \<Longrightarrow>
     n_uploads n = xs @ \<lparr>up_id = b, up_manifest = mf, up_chunks = ch # cs, up_send = None\<rparr> # ys \<Longrightarrow>
     upload_loop (man_selfID (n_rec n)) (LocalFS (n_local n)) (node_targets sha1 n) 0 [ch] fs = (None, [j], fs') \<Longrightarrow>
     node_step sha1 sha256 env strict (n, fs)
       (n\<lparr>n_uploads := xs @ \<lparr>up_id = b, up_manifest = mf, up_chunks = cs, up_send = Some j\<rparr> # ys\<rparr>, fs')"
| upload_fails: "\<not> p_panicked (n_pool n) \<Longrightarrow>
     n_uploads n = xs @ \<lparr>up_id = b, up_manifest = mf, up_chunks = ch # cs, up_send = None\<rparr> # ys \<Longrightarrow>
     upload_loop (man_selfID (n_rec n)) (LocalFS (n_local n)) (node_targets sha1 n) 0 [ch] fs = (Some err, jobs, fs') \<Longrightarrow>
     node_step sha1 sha256 env strict (n, fs) (n\<lparr>n_uploads := xs @ ys\<rparr>, fs')"
| upload_send: "\<not> p_panicked (n_pool n) \<Longrightarrow>
     n_uploads n = xs @ \<lparr>up_id = b, up_manifest = mf, up_chunks = cs, up_send = Some j\<rparr> # ys \<Longrightarrow>
     \<not> p_closed (n_pool n) \<Longrightarrow> length (p_queue (n_pool n)) < queue_cap \<Longrightarrow>
     node_step sha1 sha256 env strict (n, fs)
       (n\<lparr>n_uploads := xs @ \<lparr>up_id = b, up_manifest = mf, up_chunks = cs, up_send = None\<rparr> # ys,
          n_pool := (n_pool n)\<lparr>p_queue := p_queue (n_pool n) @ [j], accepted := accepted (n_pool n) @ [j]\<rparr>\<rparr>, fs)"
| upload_aborts: "\<not> p_panicked (n_pool n) \<Longrightarrow>
     n_uploads n = xs @ \<lparr>up_id = b, up_manifest = mf, up_chunks = cs, up_send = Some j\<rparr> # ys \<Longrightarrow> p_closed (n_pool n) \<Longrightarrow>
     node_step sha1 sha256 env strict (n, fs) (n\<lparr>n_uploads := xs @ ys\<rparr>, fs)"
| upload_end: "\<not> p_panicked (n_pool n) \<Longrightarrow>
     n_uploads n = xs @ \<lparr>up_id = b, up_manifest = mf, up_chunks = [], up_send = None\<rparr> # ys \<Longrightarrow>
     node_step sha1 sha256 env strict (n, fs) (n\<lparr>n_manifests := gm_set (n_manifests n) b mf, n_uploads := xs @ ys\<rparr>, fs)"
| http_shutdown: "\<not> p_panicked (n_pool n) \<Longrightarrow> n_phase n = Running \<Longrightarrow>
     node_step sha1 sha256 env strict (n, fs) (n\<lparr>n_phase := ServerDown\<rparr>, fs)"
| membership_stop: "\<not> p_panicked (n_pool n) \<Longrightarrow> n_phase n = ServerDown \<Longrightarrow> membership_Stop (node_heart n) = Some h \<Longrightarrow>
     node_step sha1 sha256 env strict (n, fs) ((put_heart h n)\<lparr>n_phase := MembershipStopped\<rparr>, fs)"
| cancel: "\<not> p_panicked (n_pool n) \<Longrightarrow> n_phase n = MembershipStopped \<Longrightarrow>
     node_step sha1 sha256 env strict (n, fs) (n\<lparr>n_phase := ContextCancelled\<rparr>, fs)"
| engine_stop: "n_phase n = ContextCancelled \<Longrightarrow> pool_step (n_pool n) p' \<Longrightarrow> p_closed p' \<Longrightarrow> \<not> p_closed (n_pool n) \<Longrightarrow>
     node_step sha1 sha256 env strict (n, fs) (n\<lparr>n_pool := p', n_phase := EngineStopped\<rparr>, fs)"

end
