(* ===== verification/NodeProperties.thy ===== *)
theory NodeProperties
  imports Node
begin

text \<open>
  What the wiring of a node guarantees: the peers of its configuration are tracked and on the
  ring, and while the callbacks of each peer run in order the ring follows the membership table.
  The callbacks are separate goroutines, though, and out of order they lose a node.
\<close>

section \<open>The peer list\<close>

text \<open>The well-formed entries of a peer list, as pairs of ID and address.\<close>

definition flag_entry :: "string \<Rightarrow> (string \<times> string) list" where
  "flag_entry e = (let parts = SplitN2 (CHR ''='') (TrimSpace e)
     in if length parts = 2 then [(parts ! 0, parts ! 1)] else [])"

definition flag_peers :: "string list \<Rightarrow> (string \<times> string) list" where
  "flag_peers es = concat (map flag_entry es)"

lemma flag_peers_simps [simp]:
  "flag_peers [] = []" "flag_peers (e # es) = flag_entry e @ flag_peers es"
  by (simp_all add: flag_peers_def)

lemma peers_loop_Cons:
  "peers_loop sha1 clock i (e # es) (m, r) =
     (case flag_entry e of
        [] \<Rightarrow> peers_loop sha1 clock (Suc i) es (m, r)
      | (cid, addr) # ps \<Rightarrow> peers_loop sha1 clock (Suc i) es (AddPeer cid addr (clock i) m, AddNode sha1 cid r))"
proof -
  have "TrimSpace e = '''' \<Longrightarrow> flag_entry e = []" by (simp add: flag_entry_def SplitN2_free)
  then show ?thesis by (auto simp: flag_entry_def Let_def)
qed

declare peers_loop.simps(2) [simp del]

lemma AddPeer_event: "AddPeer cid addr t m = fst (m_step (EvAdd cid addr t) m)"
  by simp

text \<open>What the table holds afterwards: an ID keeps its first entry, and this node has none.\<close>

lemma peers_loop_spec:
  assumes "m_sim now H m" and "now \<le> clock i" and "mono clock" and "ring_inv sha1 U r"
    and "fst ` set (flag_peers es) \<subseteq> U" and "peers_loop sha1 clock i es (m, r) = (m', r')"
  shows "(\<exists>H'. m_sim (clock (i + length es)) H' m') \<and> self m' = self m \<and> onDead m' = onDead m \<and> onAlive m' = onAlive m
    \<and> ring_inv sha1 U r' \<and> ring_set r' = ring_set r \<union> fst ` set (flag_peers es)
    \<and> (\<forall>x. x \<noteq> peer_ID (self m) \<longrightarrow>
        (gm_get (peers m) x \<noteq> None \<longrightarrow> gm_get (peers m') x = gm_get (peers m) x)
        \<and> (gm_get (peers m) x = None \<longrightarrow>
            map_option (\<lambda>p. (Addr p, peer_State p)) (gm_get (peers m') x)
              = map_option (\<lambda>a. (a, StateAlive)) (map_of (flag_peers es) x)))"
  using assms
proof (induction es arbitrary: now H i m r)
  case Nil
  then have "m_sim (clock i) H m" using h_before_mono unfolding m_sim_def by blast
  with Nil show ?case by auto
next
  case (Cons e es)
  have mono: "clock i \<le> clock (Suc i)" using Cons.prems(3) by (simp add: mono_def)
  show ?case
  proof (cases "flag_entry e")
    case fe: Nil
    then have run: "peers_loop sha1 clock (Suc i) es (m, r) = (m', r')"
      using Cons.prems(6) by (simp add: peers_loop_Cons)
    have now: "now \<le> clock (Suc i)" using Cons.prems(2) mono by simp
    have U: "fst ` set (flag_peers es) \<subseteq> U" using Cons.prems(5) by auto
    from Cons.IH [OF Cons.prems(1) now Cons.prems(3,4) U run] show ?thesis using fe by simp
  next
    case fe: (Cons p ps)
    then obtain cid addr where p: "p = (cid, addr)" "ps = []"
      by (auto simp: flag_entry_def Let_def split: if_splits)
    let ?m = "AddPeer cid addr (clock i) m" and ?r = "AddNode sha1 cid r"
    have run: "peers_loop sha1 clock (Suc i) es (?m, ?r) = (m', r')"
      using Cons.prems(6) fe p by (simp add: peers_loop_Cons)
    have cid: "cid \<in> U" and U: "fst ` set (flag_peers es) \<subseteq> U" using Cons.prems(5) fe p by auto
    have sim: "m_sim (clock i) (\<lambda>c. hist_step c (EvAdd cid addr (clock i)) (H c)) ?m" and self: "self ?m = self m"
      using m_sim_step [OF Cons.prems(1), of "EvAdd cid addr (clock i)"] Cons.prems(2) by simp_all
    have cb: "onDead ?m = onDead m" "onAlive ?m = onAlive m" by (simp_all add: AddPeer_def)
    have get: "gm_get (peers ?m) x = (if x = cid \<and> x \<noteq> peer_ID (self m) \<and> gm_get (peers m) x = None
        then Some \<lparr>peer_ID = cid, Addr = addr, peer_State = StateAlive, LastHeartbeat = clock i\<rparr> else gm_get (peers m) x)" for x
      by (cases "cid = peer_ID (self m)"; cases "gm_get (peers m) cid") (auto simp: AddPeer_def gomap_simps)
    note IH = Cons.IH [OF sim mono Cons.prems(3) hr.inv_add [OF Cons.prems(4) cid] U run, unfolded self cb]
    have rs: "ring_set r' = ring_set r \<union> fst ` set (flag_peers (e # es))"
      using IH hr.members_add [OF Cons.prems(4) cid] fe p by auto
    show ?thesis
    proof (intro conjI allI impI)
      fix x assume x: "x \<noteq> peer_ID (self m)"
      from IH x have I: "gm_get (peers ?m) x \<noteq> None \<longrightarrow> gm_get (peers m') x = gm_get (peers ?m) x"
        "gm_get (peers ?m) x = None \<longrightarrow> map_option (\<lambda>p. (Addr p, peer_State p)) (gm_get (peers m') x)
              = map_option (\<lambda>a. (a, StateAlive)) (map_of (flag_peers es) x)" by blast+
      show "gm_get (peers m') x = gm_get (peers m) x" if "gm_get (peers m) x \<noteq> None"
        using that I(1) by (auto simp: get)
      show "map_option (\<lambda>p. (Addr p, peer_State p)) (gm_get (peers m') x)
              = map_option (\<lambda>a. (a, StateAlive)) (map_of (flag_peers (e # es)) x)" if "gm_get (peers m) x = None"
        using that I fe p x by (cases "x = cid") (simp_all add: get)
    qed (use IH rs in simp_all)
  qed
qed

text \<open>Peer lists as an operator writes them.\<close>

definition render_peers :: "(string \<times> string) list \<Rightarrow> string" where
  "render_peers ps = strings_Join '','' (map (\<lambda>(i, a). i @ ''='' @ a) ps)"

definition plain_entry :: "string \<times> string \<Rightarrow> bool" where
  "plain_entry p \<longleftrightarrow> (case p of (i, a) \<Rightarrow> CHR '','' \<notin> set i \<and> CHR ''='' \<notin> set i \<and> CHR '','' \<notin> set a
     \<and> (i = [] \<or> \<not> is_space (hd i)) \<and> (a = [] \<or> \<not> is_space (last a)))"

lemma flag_entry_plain: "plain_entry (i, a) \<Longrightarrow> flag_entry (i @ ''='' @ a) = [(i, a)]"
proof -
  assume p: "plain_entry (i, a)"
  have "TrimSpace (i @ ''='' @ a) = i @ ''='' @ a"
    using p by (intro TrimSpace_id) (auto simp: plain_entry_def is_space_def hd_append)
  moreover have "SplitN2 (CHR ''='') (i @ ''='' @ a) = [i, a]"
    using p SplitN2_append [of "CHR ''=''" i a] by (simp add: plain_entry_def)
  ultimately show ?thesis by (simp add: flag_entry_def)
qed

lemma flag_peers_render: "list_all plain_entry ps \<Longrightarrow> flag_peers (strings_Split (CHR '','') (render_peers ps)) = ps"
proof (cases "ps = []")
  case True
  then show ?thesis by (simp add: render_peers_def flag_entry_def TrimSpace_def SplitN2_def)
next
  case False
  assume ok: "list_all plain_entry ps"
  have "strings_Split (CHR '','') (render_peers ps) = map (\<lambda>(i, a). i @ ''='' @ a) ps"
    unfolding render_peers_def using False ok
    by (intro strings_Split_Join) (auto simp: list_all_iff plain_entry_def)
  moreover have "flag_peers (map (\<lambda>(i, a). i @ ''='' @ a) ps) = ps"
    using ok flag_entry_plain by (induction ps) auto
  ultimately show ?thesis by simp
qed

lemma AddrFor_table:
  assumes "table_ok m" and "range_order ord"
  shows "AddrFor ord m x = (case gm_get (peers m) x of None \<Rightarrow> ('''', False) | Some p \<Rightarrow> (Addr p, True))"
proof (cases "filter (\<lambda>p. peer_ID p = x) (Peers ord m)")
  case Nil
  then have "p \<notin> set (Peers ord m)" if "peer_ID p = x" for p using that by (auto simp: filter_empty_conv)
  then have "gm_get (peers m) x = Some p \<Longrightarrow> False" for p
    using Peers_table [OF assms, of p] assms(1) by (auto simp: table_ok_def)
  with Nil show ?thesis by (cases "gm_get (peers m) x") (auto simp: AddrFor_def)
next
  case (Cons p ps)
  then have "p \<in> set (filter (\<lambda>p. peer_ID p = x) (Peers ord m))" by (metis list.set_intros(1))
  then have "gm_get (peers m) x = Some p" using Peers_table [OF assms, of p] by auto
  with Cons show ?thesis by (simp add: AddrFor_def)
qed

lemma m_sim_table: "m_sim now H m \<Longrightarrow> table_ok m"
  unfolding table_ok_def
proof (intro conjI allI impI)
  fix k p assume sim: "m_sim now H m" and p: "gm_get (peers m) k = Some p"
  then have "k \<noteq> peer_ID (self m)" by (auto simp: m_sim_def)
  with sim have "gm_get (peers m) k = map_option (entry_of_history k) (H k)" by (simp add: m_sim_def)
  with p show "peer_ID p = k" by (cases "H k") (auto simp: entry_of_history_def)
qed (simp add: m_sim_def)

section \<open>The wired node\<close>

definition cfg_peers :: "config \<Rightarrow> (string \<times> string) list" where
  "cfg_peers cfg = flag_peers (strings_Split (CHR '','') (peersFlag cfg))"

definition clock_ok :: "instant \<Rightarrow> (nat \<Rightarrow> instant) \<Rightarrow> bool" where
  "clock_ok now clock \<longleftrightarrow> now \<le> clock 0 \<and> mono clock"

lemma node_main_spec:
  assumes run: "node_main sha1 getenv cfg now clock fs = (Inr n, fs')" and clk: "clock_ok now clock"
    and U: "collision_free sha1 U" "nodeID cfg \<in> U" "fst ` set (cfg_peers cfg) \<subseteq> U"
  shows "ring_inv sha1 U (n_ring n)" "ring_set (n_ring n) = insert (nodeID cfg) (fst ` set (cfg_peers cfg))"
    and "\<exists>H. m_sim (n_clock n) H (n_ms n)" "peer_ID (self (n_ms n)) = nodeID cfg"
    and "onDead (n_ms n) = [CbDead]" "onAlive (n_ms n) = [CbAlive]" "n_calls n = []" "n_repairs n = []" "n_phase n = Running"
    and "x \<noteq> nodeID cfg \<Longrightarrow> map_option (\<lambda>p. (Addr p, peer_State p)) (gm_get (peers (n_ms n)) x)
           = map_option (\<lambda>a. (a, StateAlive)) (map_of (cfg_peers cfg) x)"
    and "gm_get (peers (n_ms n)) (nodeID cfg) = None"
    and "n_rec n = manager_New (nodeID cfg)" "n_engine n = NewEngine (nodeID cfg) (repWorkers cfg)"
    and "n_pool n = pool_Start (n_engine n)" "root (n_local n) = dataDir cfg" "(n_cold n = None) = (s3Bucket cfg = '''')"
    and "n_passes n = []" "n_manifests n = []" "n_loops n = [\<lparr>act = Waiting, ticked = False\<rparr>]" "\<not> n_stopped n" "n_log n = []"
    and "n_uploads n = []"
proof -
  let ?es = "strings_Split (CHR '','') (peersFlag cfg)"
  let ?m0 = "membership_New (nodeID cfg) (advertise cfg) now :: callback membership"
  let ?r0 = "AddNode sha1 (nodeID cfg) ring_New"
  obtain m r where pl: "peers_loop sha1 clock 0 ?es (?m0, ?r0) = (m, r)" by fastforce
  have sim0: "m_sim now (\<lambda>cid. None) ?m0"
    using registered_sim [of now "nodeID cfg" "advertise cfg" "[]" "[]"] by (simp add: registered_def)
  have r0: "ring_inv sha1 U ?r0" "ring_set ?r0 = {nodeID cfg}"
    using hr.inv_add [OF ring_New_inv [OF U(1)] U(2)] hr.members_add [OF ring_New_inv [OF U(1)] U(2)]
    by (simp_all add: ring_set_New)
  have c0: "now \<le> clock 0" "mono clock" using clk by (simp_all add: clock_ok_def)
  note P = peers_loop_spec [OF sim0 c0 r0(1) U(3) [unfolded cfg_peers_def] pl]
  obtain res fs1 where nl: "NewLocalFS (dataDir cfg) fs = (res, fs1)" by fastforce
  with run obtain l where res: "res = Inr l" by (cases res) (auto simp: node_main_def)
  with nl have l: "root l = dataDir cfg" by (auto simp: NewLocalFS_def split: prod.splits option.splits)
  have n: "n = \<lparr>n_ring = r, n_local = l, n_cold = main_cold getenv cfg, n_ms = OnNodeAlive CbAlive (OnNodeDead CbDead m),
          n_loops = [\<lparr>act = Waiting, ticked = False\<rparr>], n_stopped = False,
          n_engine = NewEngine (nodeID cfg) (repWorkers cfg), n_rec = manager_New (nodeID cfg),
          n_pool = pool_Start (NewEngine (nodeID cfg) (repWorkers cfg)), n_log = [], n_manifests = [], n_calls = [], n_repairs = [],
          n_passes = [], n_uploads = [], n_clock = clock (length ?es), n_phase = Running\<rparr>"
    using run pl nl res by (simp add: node_main_def Let_def membership_Start_def)
  have new: "peers ?m0 = []" "peer_ID (self ?m0) = nodeID cfg" "onDead ?m0 = []" "onAlive ?m0 = []"
    by (simp_all add: membership_New_def)
  have reg: "m_sim t H (OnNodeAlive CbAlive (OnNodeDead CbDead m)) = m_sim t H m" for t H
    by (simp add: m_sim_def OnNodeAlive_def OnNodeDead_def)
  show "ring_inv sha1 U (n_ring n)" "ring_set (n_ring n) = insert (nodeID cfg) (fst ` set (cfg_peers cfg))"
    using P r0(2) by (simp_all add: n cfg_peers_def)
  show sim: "\<exists>H. m_sim (n_clock n) H (n_ms n)" using P by (simp add: n reg)
  show self: "peer_ID (self (n_ms n)) = nodeID cfg" using P new by (simp add: n OnNodeAlive_def OnNodeDead_def)
  show "onDead (n_ms n) = [CbDead]" "onAlive (n_ms n) = [CbAlive]"
    using P new by (simp_all add: n OnNodeAlive_def OnNodeDead_def)
  show "x \<noteq> nodeID cfg \<Longrightarrow> map_option (\<lambda>p. (Addr p, peer_State p)) (gm_get (peers (n_ms n)) x)
           = map_option (\<lambda>a. (a, StateAlive)) (map_of (cfg_peers cfg) x)"
    using P new by (simp add: n OnNodeAlive_def OnNodeDead_def gomap_simps cfg_peers_def)
  show "gm_get (peers (n_ms n)) (nodeID cfg) = None" using sim self by (auto simp: m_sim_def)
  show "root (n_local n) = dataDir cfg" "(n_cold n = None) = (s3Bucket cfg = '''')"
    by (simp_all add: n l main_cold_def)
qed (use run in \<open>auto simp: node_main_def membership_Start_def Let_def split: prod.splits sum.splits\<close>)

section \<open>The ring and the membership table\<close>

text \<open>The ring membership of a peer once its callbacks in flight have run in order.\<close>

definition settled :: "(callback \<times> string) list \<Rightarrow> bool \<Rightarrow> bool" where
  "settled cs b = (if cs = [] then b else fst (last cs) = CbAlive)"

definition up_in :: "callback membership \<Rightarrow> string \<Rightarrow> bool" where
  "up_in m x \<longleftrightarrow> (case state_of m x of None \<Rightarrow> False | Some s \<Rightarrow> s \<noteq> StateDead)"

definition node_inv :: "(bytes \<Rightarrow> bytes) \<Rightarrow> string set \<Rightarrow> string \<Rightarrow> node \<Rightarrow> bool" where
  "node_inv sha1 U selfID n \<longleftrightarrow> ring_inv sha1 U (n_ring n) \<and> selfID \<in> U \<and> peer_ID (self (n_ms n)) = selfID
     \<and> (\<exists>H. m_sim (n_clock n) H (n_ms n)) \<and> onDead (n_ms n) = [CbDead] \<and> onAlive (n_ms n) = [CbAlive]
     \<and> (\<forall>x. state_of (n_ms n) x \<noteq> None \<longrightarrow> x \<in> U)
     \<and> (\<forall>c \<in> set (n_calls n). state_of (n_ms n) (snd c) \<noteq> None)
     \<and> selfID \<in> ring_set (n_ring n) \<and> (\<forall>x \<in> ring_set (n_ring n). x = selfID \<or> state_of (n_ms n) x \<noteq> None)"

definition ring_follows :: "string \<Rightarrow> node \<Rightarrow> bool" where
  "ring_follows selfID n \<longleftrightarrow>
     (\<forall>x. settled (calls_for x (n_calls n)) (x \<in> ring_set (n_ring n)) \<longleftrightarrow> x = selfID \<or> up_in (n_ms n) x)"

lemma ping_state_None: "state_of (fst (ping_update k resp t m)) x = None \<longleftrightarrow> state_of m x = None"
  by (cases "x = k") (simp_all add: state_of_def ping_simps)

lemma ping_inv:
  assumes inv: "node_inv sha1 U selfID n" and run: "ping_update k resp t (n_ms n) = (m', calls)" and t: "n_clock n \<le> t"
  shows "node_inv sha1 U selfID (n\<lparr>n_ms := m', n_calls := n_calls n @ calls, n_clock := t\<rparr>)"
    and "ring_follows selfID n \<Longrightarrow> ring_follows selfID (n\<lparr>n_ms := m', n_calls := n_calls n @ calls, n_clock := t\<rparr>)"
proof -
  let ?e = "EvPing k resp t"
  from inv obtain H where sim: "m_sim (n_clock n) H (n_ms n)" by (auto simp: node_inv_def)
  have step: "m_step ?e (n_ms n) = (m', calls)" and noMark: "\<forall>x. ?e \<noteq> EvMark x t" "n_clock n \<le> ev_time ?e"
    using run t by simp_all
  have none: "state_of m' x = None \<longleftrightarrow> state_of (n_ms n) x = None" for x
    using ping_state_None [of k resp t "n_ms n" x] run by simp
  have sim': "m_sim t (\<lambda>c. hist_step c ?e (H c)) m'" "self m' = self (n_ms n)"
    using m_sim_step [OF sim noMark(2)] step by simp_all
  have cb: "onDead m' = onDead (n_ms n)" "onAlive m' = onAlive (n_ms n)"
    using m_step_callbacks [of ?e "n_ms n"] step by simp_all
  have calls: "calls_for x calls = (case (state_of (n_ms n) x, state_of m' x) of
      (Some s, Some s') \<Rightarrow> transition_calls (n_ms n) s s' x | _ \<Rightarrow> [])" for x
  proof -
    have "\<forall>t'. ?e \<noteq> EvMark x t'" by simp
    from m_step_calls [OF this, of "n_ms n", unfolded step fst_conv snd_conv] show ?thesis by blast
  qed
  have revive: "state_of (n_ms n) x = Some StateDead \<Longrightarrow> state_of m' x \<in> {Some StateDead, Some StateAlive}" for x
    using dead_not_suspect [OF sim noMark(2), of x] step by simp
  have known: "state_of m' (snd c) \<noteq> None" if "c \<in> set calls" for c
  proof
    assume "state_of m' (snd c) = None"
    then have "calls_for (snd c) calls = []" using calls [of "snd c"] by (auto split: option.splits)
    with that show False by (auto simp: calls_for_def filter_empty_conv)
  qed
  show "node_inv sha1 U selfID (n\<lparr>n_ms := m', n_calls := n_calls n @ calls, n_clock := t\<rparr>)"
    using inv sim' cb known by (auto simp: node_inv_def none)
  show "ring_follows selfID (n\<lparr>n_ms := m', n_calls := n_calls n @ calls, n_clock := t\<rparr>)" if rf: "ring_follows selfID n"
    unfolding ring_follows_def
  proof
    fix x
    have old: "settled (calls_for x (n_calls n)) (x \<in> ring_set (n_ring n)) \<longleftrightarrow> x = selfID \<or> up_in (n_ms n) x"
      using rf by (simp add: ring_follows_def)
    have self: "x = selfID \<Longrightarrow> state_of (n_ms n) x = None"
      using sim inv by (auto simp: m_sim_def state_of_def node_inv_def)
    have "settled (calls_for x (n_calls n) @ calls_for x calls) (x \<in> ring_set (n_ring n)) \<longleftrightarrow> x = selfID \<or> up_in m' x"
    proof (cases "state_of (n_ms n) x")
      case None
      then show ?thesis using old none [of x] calls [of x] by (simp add: up_in_def)
    next
      case (Some s)
      then obtain s' where s': "state_of m' x = Some s'" using none [of x] by auto
      have c: "calls_for x calls = (if s \<noteq> StateDead \<and> s' = StateDead then [(CbDead, x)]
          else if s = StateDead \<and> s' = StateAlive then [(CbAlive, x)] else [])"
        using calls [of x] Some s' inv by (simp add: transition_calls_def node_inv_def)
      have ns: "x \<noteq> selfID" using self Some by auto
      have "s = StateDead \<Longrightarrow> s' = StateDead \<or> s' = StateAlive" using revive [of x] Some s' by auto
      with old c ns Some s' show ?thesis by (auto simp: settled_def up_in_def)
    qed
    then show "settled (calls_for x (n_calls (n\<lparr>n_ms := m', n_calls := n_calls n @ calls, n_clock := t\<rparr>)))
        (x \<in> ring_set (n_ring (n\<lparr>n_ms := m', n_calls := n_calls n @ calls, n_clock := t\<rparr>)))
      \<longleftrightarrow> x = selfID \<or> up_in (n_ms (n\<lparr>n_ms := m', n_calls := n_calls n @ calls, n_clock := t\<rparr>)) x"
      by simp
  qed
qed

lemma callback_inv:
  assumes inv: "node_inv sha1 U selfID n" and calls: "n_calls n = xs @ (cb, x) # ys"
    and run: "handler_run sha1 cb x addr (n_ring n) = (r', repairs)"
  shows "node_inv sha1 U selfID (n\<lparr>n_ring := r', n_calls := xs @ ys, n_repairs := n_repairs n @ repairs\<rparr>)"
    and "ring_set r' = (if cb = CbAlive then insert x (ring_set (n_ring n)) else ring_set (n_ring n) - {x})"
    and "x \<notin> snd ` set xs \<Longrightarrow> ring_follows selfID n \<Longrightarrow>
      ring_follows selfID (n\<lparr>n_ring := r', n_calls := xs @ ys, n_repairs := n_repairs n @ repairs\<rparr>)"
proof -
  have xU: "x \<in> U" and rinv: "ring_inv sha1 U (n_ring n)" using inv calls by (auto simp: node_inv_def)
  have r': "ring_inv sha1 U r'"
    and rs: "ring_set r' = (if cb = CbAlive then insert x (ring_set (n_ring n)) else ring_set (n_ring n) - {x})"
    using run hr.inv_add [OF rinv xU] hr.inv_remove [OF rinv, of x] hr.members_add [OF rinv xU] hr.members_remove [OF rinv, of x]
    by (cases cb; auto simp: handler_run_def HandleNodeDead_def HandleNodeAlive_def)+
  have self: "x \<noteq> selfID" and known: "state_of (n_ms n) x \<noteq> None"
    using inv calls by (auto simp: node_inv_def m_sim_def state_of_def)
  show "node_inv sha1 U selfID (n\<lparr>n_ring := r', n_calls := xs @ ys, n_repairs := n_repairs n @ repairs\<rparr>)"
    using inv r' calls self known by (auto simp: node_inv_def rs)
  show "ring_set r' = (if cb = CbAlive then insert x (ring_set (n_ring n)) else ring_set (n_ring n) - {x})" by (rule rs)
  assume first: "x \<notin> snd ` set xs" and rf: "ring_follows selfID n"
  show "ring_follows selfID (n\<lparr>n_ring := r', n_calls := xs @ ys, n_repairs := n_repairs n @ repairs\<rparr>)"
    unfolding ring_follows_def
  proof
    fix y
    have old: "settled (calls_for y (n_calls n)) (y \<in> ring_set (n_ring n)) \<longleftrightarrow> y = selfID \<or> up_in (n_ms n) y"
      using rf by (simp add: ring_follows_def)
    have "settled (calls_for y (xs @ ys)) (y \<in> ring_set r') = settled (calls_for y (n_calls n)) (y \<in> ring_set (n_ring n))"
    proof (cases "y = x")
      case True
      have "calls_for x xs = []" using first by (auto simp: calls_for_def filter_empty_conv)
      then show ?thesis using True calls rs by (cases cb) (auto simp: settled_def calls_for_def)
    next
      case False
      then show ?thesis using calls rs by (auto simp: calls_for_def)
    qed
    with old show "settled (calls_for y (n_calls (n\<lparr>n_ring := r', n_calls := xs @ ys, n_repairs := n_repairs n @ repairs\<rparr>)))
        (y \<in> ring_set (n_ring (n\<lparr>n_ring := r', n_calls := xs @ ys, n_repairs := n_repairs n @ repairs\<rparr>)))
      \<longleftrightarrow> y = selfID \<or> up_in (n_ms (n\<lparr>n_ring := r', n_calls := xs @ ys, n_repairs := n_repairs n @ repairs\<rparr>)) y"
      by simp
  qed
qed

lemma node_inv_frame:
  assumes "n_ring n' = n_ring n" and "n_ms n' = n_ms n" and "n_clock n' = n_clock n" and "n_calls n' = n_calls n"
  shows "node_inv sha1 U selfID n' \<longleftrightarrow> node_inv sha1 U selfID n" and "ring_follows selfID n' \<longleftrightarrow> ring_follows selfID n"
  using assms by (simp_all add: node_inv_def ring_follows_def)

lemma heart_inv_node:
  assumes inv: "node_inv sha1 U selfID n" and step: "loop_step (node_heart n) calls h"
  shows "node_inv sha1 U selfID ((put_heart h n)\<lparr>n_calls := n_calls n @ calls\<rparr>)"
    and "ring_follows selfID n \<Longrightarrow> ring_follows selfID ((put_heart h n)\<lparr>n_calls := n_calls n @ calls\<rparr>)"
proof -
  let ?n' = "(put_heart h n)\<lparr>n_calls := n_calls n @ calls\<rparr>"
  from loop_step_effect [OF step] consider "h_ms h = n_ms n" "h_clock h = n_clock n" "calls = []"
    | x r where "n_clock n \<le> h_clock h" "ping_update x r (h_clock h) (n_ms n) = (h_ms h, calls)"
    by (auto simp: node_heart_def)
  then have "node_inv sha1 U selfID ?n' \<and> (ring_follows selfID n \<longrightarrow> ring_follows selfID ?n')"
  proof cases
    case 1
    with inv show ?thesis using node_inv_frame [of ?n' n] by (simp add: put_heart_def)
  next
    case 2
    from ping_inv [OF inv 2(2,1)]
      node_inv_frame [of ?n' "n\<lparr>n_ms := h_ms h, n_calls := n_calls n @ calls, n_clock := h_clock h\<rparr>"]
    show ?thesis by (simp add: put_heart_def)
  qed
  then show "node_inv sha1 U selfID ?n'" "ring_follows selfID n \<Longrightarrow> ring_follows selfID ?n'" by simp_all
qed

lemma node_step_inv:
  assumes "node_step sha1 sha256 env strict s s'" and "node_inv sha1 U selfID (fst s)"
  shows "node_inv sha1 U selfID (fst s') \<and> (strict \<and> ring_follows selfID (fst s) \<longrightarrow> ring_follows selfID (fst s'))"
  using assms
proof (cases rule: node_step.cases)
  case (tick n h fs)
  then have "h_ms h = n_ms n" "h_clock h = n_clock n" by (auto simp: node_heart_def elim: ticker_step.cases)
  with tick assms(2) node_inv_frame [of "put_heart h n" n] show ?thesis by (simp add: put_heart_def)
next
  case (heart n calls h fs)
  with heart_inv_node [OF _ heart(4)] assms(2) show ?thesis by simp
next
  case (callback n xs cb x ys ord r' repairs fs)
  with callback_inv [OF _ callback(4,7)] assms(2) show ?thesis by simp
next
  case (membership_stop n h fs)
  then have "h_ms h = n_ms n" "h_clock h = n_clock n" by (auto simp: node_heart_def membership_Stop_def split: if_splits)
  with membership_stop assms(2) node_inv_frame [of "(put_heart h n)\<lparr>n_phase := MembershipStopped\<rparr>" n]
  show ?thesis by (simp add: put_heart_def)
qed (use assms(2) in \<open>simp_all add: node_inv_def ring_follows_def\<close>)

lemma node_reach_inv:
  assumes "(node_step sha1 sha256 env strict)\<^sup>*\<^sup>* s s'" and "node_inv sha1 U selfID (fst s)"
  shows "node_inv sha1 U selfID (fst s') \<and> (strict \<and> ring_follows selfID (fst s) \<longrightarrow> ring_follows selfID (fst s'))"
  using assms by (induction rule: rtranclp_induct) (use node_step_inv in blast)+

lemma node_main_inv:
  assumes "node_main sha1 getenv cfg now clock fs = (Inr n, fs')" and "clock_ok now clock"
    and "collision_free sha1 U" and "nodeID cfg \<in> U" and "fst ` set (cfg_peers cfg) \<subseteq> U"
  shows "node_inv sha1 U (nodeID cfg) n" and "ring_follows (nodeID cfg) n"
    and "x \<noteq> nodeID cfg \<Longrightarrow> x \<in> fst ` set (cfg_peers cfg) \<Longrightarrow> state_of (n_ms n) x = Some StateAlive"
proof -
  note M = node_main_spec [OF assms]
  have st: "state_of (n_ms n) x = (if x \<noteq> nodeID cfg \<and> x \<in> fst ` set (cfg_peers cfg) then Some StateAlive else None)" for x
  proof (cases "x = nodeID cfg")
    case True
    with M(11) show ?thesis by (simp add: state_of_def)
  next
    case False
    have "state_of (n_ms n) x = map_option snd (map_option (\<lambda>p. (Addr p, peer_State p)) (gm_get (peers (n_ms n)) x))"
      by (simp add: state_of_def option.map_comp comp_def)
    also have "\<dots> = map_option (\<lambda>a. StateAlive) (map_of (cfg_peers cfg) x)"
      using M(10) [OF False] by (simp add: option.map_comp comp_def)
    moreover have "x \<in> fst ` set (cfg_peers cfg) \<longleftrightarrow> map_of (cfg_peers cfg) x \<noteq> None" by (simp add: map_of_eq_None_iff)
    ultimately show ?thesis using False by (cases "map_of (cfg_peers cfg) x") simp_all
  qed
  show "node_inv sha1 U (nodeID cfg) n"
    using M assms(4,5) by (auto simp: node_inv_def st split: if_splits)
  show "ring_follows (nodeID cfg) n"
    using M(2,7) by (auto simp: ring_follows_def settled_def calls_for_def up_in_def st)
  show "x \<noteq> nodeID cfg \<Longrightarrow> x \<in> fst ` set (cfg_peers cfg) \<Longrightarrow> state_of (n_ms n) x = Some StateAlive"
    by (simp add: st)
qed

section \<open>Properties\<close>

text \<open>
  C4. The ring follows the membership table. Start a node with any configuration and let it run,
  with pings, callbacks, repairs and the queue interleaved in any way in which the callbacks of
  one peer run in the order in which they were started. Whenever no callback is in flight, the
  nodes on the ring are this node and exactly the peers that are not dead in the table.
\<close>

theorem ring_follows_membership:
  assumes "node_main sha1 getenv cfg now clock fs = (Inr n0, fs0)" and "clock_ok now clock"
    and "collision_free sha1 U" and "nodeID cfg \<in> U" and "fst ` set (cfg_peers cfg) \<subseteq> U"
    and "(node_step sha1 sha256 env True)\<^sup>*\<^sup>* (n0, fs0) (n, fs')" and "n_calls n = []"
  shows "ring_inv sha1 U (n_ring n)
    \<and> ring_set (n_ring n) = insert (nodeID cfg) {x. \<exists>p. gm_get (peers (n_ms n)) x = Some p \<and> peer_State p \<noteq> StateDead}"
proof -
  note M = node_main_inv [OF assms(1-5)]
  have "node_inv sha1 U (nodeID cfg) n \<and> ring_follows (nodeID cfg) n"
    using node_reach_inv [OF assms(6)] M by auto
  then have "ring_inv sha1 U (n_ring n)" "x \<in> ring_set (n_ring n) \<longleftrightarrow> x = nodeID cfg \<or> up_in (n_ms n) x" for x
    using assms(7) by (auto simp: node_inv_def ring_follows_def settled_def calls_for_def)
  moreover have "up_in (n_ms n) x \<longleftrightarrow> (\<exists>p. gm_get (peers (n_ms n)) x = Some p \<and> peer_State p \<noteq> StateDead)" for x
    by (auto simp: up_in_def state_of_def split: option.splits)
  ultimately show ?thesis by blast
qed

text \<open>A node with two peers, and the letters as names.\<close>

definition sample_config :: config where
  "sample_config = parse_config (\<lambda>k. if k = ''PEERS'' then ''b=b:80, c=c:80,junk,''
       else if k = ''DATA_DIR'' then ''/data'' else '''')
     (\<lambda>k. if k = ''node-id'' then Some ''a'' else None) None None"

lemma sample_config_peers:
  "nodeID sample_config = ''a''" "dataDir sample_config = ''/data''"
  "cfg_peers sample_config = [(''b'', ''b:80''), (''c'', ''c:80'')]"
  by code_simp+

lemma sample_clock: "clock_ok 0 int"
  by (simp add: clock_ok_def mono_def)

lemma sample_letters: "nodeID sample_config \<in> letter_nodes" "fst ` set (cfg_peers sample_config) \<subseteq> letter_nodes"
  unfolding sample_config_peers by (auto simp: letter_nodes_def)

lemma node_main_ok: "NewLocalFS (dataDir cfg) fs = (Inr l, fs1) \<Longrightarrow> \<exists>n. node_main sha1 getenv cfg now clock fs = (Inr n, fs1)"
  by (auto simp: node_main_def Let_def split: prod.splits)

lemma sample_start: "\<exists>n fs'. node_main sample_sha1 (\<lambda>k. '''') sample_config 0 int sample_fs = (Inr n, fs')"
proof -
  have "fst (NewLocalFS ''/data'' sample_fs) = Inr \<lparr>root = ''/data''\<rparr>" by code_simp
  then have "NewLocalFS (dataDir sample_config) sample_fs = (Inr \<lparr>root = ''/data''\<rparr>, snd (NewLocalFS ''/data'' sample_fs))"
    by (metis prod.collapse sample_config_peers(2))
  from node_main_ok [OF this] show ?thesis by blast
qed

lemma ring_follows_membership_witness:
  "\<exists>n fs'. node_main sample_sha1 (\<lambda>k. '''') sample_config 0 int sample_fs = (Inr n, fs')
     \<and> ring_set (n_ring n) = insert ''a'' {x. \<exists>p. gm_get (peers (n_ms n)) x = Some p \<and> peer_State p \<noteq> StateDead}"
proof -
  obtain n fs' where m: "node_main sample_sha1 (\<lambda>k. '''') sample_config 0 int sample_fs = (Inr n, fs')"
    using sample_start by blast
  have "n_calls n = []" by (rule node_main_spec(7) [OF m sample_clock sample_collision_free sample_letters])
  from ring_follows_membership [OF m sample_clock sample_collision_free sample_letters rtranclp.rtrancl_refl this]
  show ?thesis using m sample_config_peers(1) by auto
qed

text \<open>Rounds of the heartbeat inside the node.\<close>

lemma node_run:
  assumes "loop_run h0 calls h" and "h0 = node_heart n" and "\<not> p_panicked (n_pool n)"
  shows "(node_step sha1 sha256 env strict)\<^sup>*\<^sup>* (n, fs) ((put_heart h n)\<lparr>n_calls := n_calls n @ calls\<rparr>, fs)"
  using assms
proof (induction rule: loop_run.induct)
  case (none h)
  then show ?case by (simp add: put_heart_def node_heart_def)
next
  case (more h0 calls h1 calls' h2)
  let ?n1 = "(put_heart h1 n)\<lparr>n_calls := n_calls n @ calls\<rparr>"
  have "node_heart ?n1 = h1" "put_heart h2 ?n1 = (put_heart h2 n)\<lparr>n_calls := n_calls n @ calls\<rparr>"
    by (simp_all add: node_heart_def put_heart_def)
  with node_step.heart [of ?n1 calls' h2 sha1 sha256 env strict fs] more.hyps(2) more.prems(2)
  have "node_step sha1 sha256 env strict (?n1, fs) ((put_heart h2 n)\<lparr>n_calls := n_calls n @ (calls @ calls')\<rparr>, fs)"
    by (simp add: put_heart_def)
  with more.IH [OF more.prems] show ?case by (rule rtranclp.rtrancl_into_rtrancl)
qed

lemma node_round:
  assumes "n_loops n = [\<lparr>act = Waiting, ticked = False\<rparr>]" and "\<not> p_panicked (n_pool n)" and "gm_ok (peers (n_ms n))"
    and "n_clock n \<le> t"
  shows "\<exists>m' calls t'. (node_step sha1 sha256 env strict)\<^sup>*\<^sup>* (n, fs) (n\<lparr>n_ms := m', n_clock := t', n_calls := n_calls n @ calls\<rparr>, fs)
    \<and> t' \<le> t \<and> n_clock n \<le> t' \<and> pinged_alone (n_ms n) resp (\<lambda>x. t) (dom (gm_get (peers (n_ms n)))) m' calls"
proof -
  let ?h1 = "(node_heart n)\<lparr>h_loops := [\<lparr>act = Waiting, ticked = True\<rparr>]\<rparr>" and ?n1 = "n\<lparr>n_loops := [\<lparr>act = Waiting, ticked = True\<rparr>]\<rparr>"
  have "ticker_step (node_heart n) ?h1"
    using ticker_step.tick [of 0 "node_heart n"] assms(1) by (simp add: node_heart_def)
  from node_step.tick [OF assms(2) this, of sha1 sha256 env strict fs]
  have s1: "node_step sha1 sha256 env strict (n, fs) (?n1, fs)" by (simp add: put_heart_def node_heart_def)
  from round_runs [of "node_heart ?n1" t resp] assms(3,4) obtain m' calls t' where
    r: "loop_run (node_heart ?n1) calls ((node_heart ?n1)\<lparr>h_ms := m', h_loops := [\<lparr>act = Waiting, ticked = False\<rparr>], h_clock := t'\<rparr>)"
      "t' \<le> t" "n_clock n \<le> t'" "pinged_alone (n_ms n) resp (\<lambda>x. t) (dom (gm_get (peers (n_ms n)))) m' calls"
    by (auto simp: node_heart_def)
  have eq: "(put_heart ((node_heart ?n1)\<lparr>h_ms := m', h_loops := [\<lparr>act = Waiting, ticked = False\<rparr>], h_clock := t'\<rparr>) ?n1)
      \<lparr>n_calls := n_calls ?n1 @ calls\<rparr> = n\<lparr>n_ms := m', n_clock := t', n_calls := n_calls n @ calls\<rparr>"
    using assms(1) by (cases n) (simp add: put_heart_def node_heart_def)
  have "\<not> p_panicked (n_pool ?n1)" using assms(2) by simp
  from node_run [OF r(1) refl this, of sha1 sha256 env strict fs]
  have "(node_step sha1 sha256 env strict)\<^sup>*\<^sup>* (?n1, fs) (n\<lparr>n_ms := m', n_clock := t', n_calls := n_calls n @ calls\<rparr>, fs)"
    unfolding eq .
  with s1 have "(node_step sha1 sha256 env strict)\<^sup>*\<^sup>* (n, fs) (n\<lparr>n_ms := m', n_clock := t', n_calls := n_calls n @ calls\<rparr>, fs)"
    by (rule converse_rtranclp_into_rtranclp)
  with r(2-) show ?thesis by blast
qed

lemma single_call:
  assumes "pinged_alone m resp time (dom (gm_get (peers m))) m' calls" and "gm_get (peers m) x = Some p"
    and "snd (ping_update x (resp x) (time x) m) = [c]"
    and "\<And>y q. y \<noteq> x \<Longrightarrow> gm_get (peers m) y = Some q \<Longrightarrow> snd (ping_update y (resp y) (time y) m) = []"
  shows "calls = [c] \<and> gm_get (peers m') x = Some (ping_entry m (resp x) (time x) p)
    \<and> (\<forall>y q. gm_get (peers m) y = Some q \<longrightarrow> gm_get (peers m') y = Some (ping_entry m (resp y) (time y) q))"
proof -
  have "(\<Sum>y \<in> dom (gm_get (peers m)). mset (snd (ping_update y (resp y) (time y) m)))
      = (\<Sum>y \<in> dom (gm_get (peers m)). if y = x then {#c#} else {#})"
    by (intro sum.cong) (use assms(3,4) in auto)
  also have "\<dots> = {#c#}"
  proof -
    have "finite (dom (gm_get (peers m)))" by (metis gm_keys_dom List.finite_set)
    moreover have "x \<in> dom (gm_get (peers m))" using assms(2) by blast
    ultimately show ?thesis by (simp add: sum.delta)
  qed
  finally have "mset calls = {#c#}" using assms(1) by (simp add: pinged_alone_def)
  then show ?thesis using assms(1,2) by (auto simp: pinged_alone_def)
qed

lemma m_sim_contact: "m_sim now H m \<Longrightarrow> gm_get (peers m) x = Some p \<Longrightarrow> LastHeartbeat p \<le> now"
proof -
  assume sim: "m_sim now H m" and p: "gm_get (peers m) x = Some p"
  then have "x \<noteq> peer_ID (self m)" by (auto simp: m_sim_def)
  with sim have "gm_get (peers m) x = map_option (entry_of_history x) (H x)" "h_before now (H x)" by (simp_all add: m_sim_def)
  with p show ?thesis by (cases "H x") (auto simp: entry_of_history_def h_before_def)
qed

text \<open>Two rounds of a node whose peers are all alive: one in which a peer does not answer, one in which all do.\<close>

lemma initially_alive:
  assumes "node_main sha1 getenv cfg now clock fs = (Inr n, fs')" and "clock_ok now clock"
    and "collision_free sha1 U" and "nodeID cfg \<in> U" and "fst ` set (cfg_peers cfg) \<subseteq> U"
  shows "gm_get (peers (n_ms n)) y = Some q \<Longrightarrow> peer_State q = StateAlive"
proof -
  note M = node_main_spec [OF assms]
  assume q: "gm_get (peers (n_ms n)) y = Some q"
  then have "y \<noteq> nodeID cfg" using M(11) by auto
  from M(10) [OF this] q show ?thesis by (cases "map_of (cfg_peers cfg) y") auto
qed

lemma two_rounds:
  assumes inv: "node_inv sha1 U selfID n" and lo: "n_loops n = [\<lparr>act = Waiting, ticked = False\<rparr>]"
    and np: "\<not> p_panicked (n_pool n)" and nc: "n_calls n = []"
    and alive: "\<And>y q. gm_get (peers (n_ms n)) y = Some q \<Longrightarrow> peer_State q = StateAlive"
    and x: "state_of (n_ms n) x = Some StateAlive"
  shows "\<exists>m t p. (node_step sha1 sha256 env strict)\<^sup>*\<^sup>* (n, fs) (n\<lparr>n_ms := m, n_clock := t, n_calls := [(CbDead, x), (CbAlive, x)]\<rparr>, fs)
    \<and> gm_get (peers m) x = Some p \<and> peer_State p = StateAlive"
proof -
  let ?step = "node_step sha1 sha256 env strict"
  from inv obtain H where sim: "m_sim (n_clock n) H (n_ms n)" by (auto simp: node_inv_def)
  then have ok: "gm_ok (peers (n_ms n))" and da: "deadAfter (n_ms n) = 9 * Second" by (simp_all add: m_sim_def)
  have cb: "onDead (n_ms n) = [CbDead]" "onAlive (n_ms n) = [CbAlive]" using inv by (simp_all add: node_inv_def)
  from x obtain p where p: "gm_get (peers (n_ms n)) x = Some p" by (auto simp: state_of_def)
  let ?t = "n_clock n + 9 * Second" and ?r1 = "\<lambda>y. if y = x then Inl EOF else Inr 200 :: http_result"
  have "9 * Second \<le> time_sub ?t (LastHeartbeat p)"
    using time_sub_ge [of "LastHeartbeat p" ?t "9 * Second"] m_sim_contact [OF sim p] by (simp add: Second_def)
  then have e1: "ping_entry (n_ms n) (Inl EOF) ?t p = p\<lparr>peer_State := StateDead\<rparr>" by (simp add: ping_entry_def healthy_def da)
  have e2: "ping_entry m (Inr 200) t q = q\<lparr>LastHeartbeat := t, peer_State := StateAlive\<rparr>" for m :: "callback membership" and t q
    by (simp add: ping_entry_def healthy_def)
  have "n_clock n \<le> ?t" by (simp add: Second_def)
  from node_round [OF lo np ok this, of sha1 sha256 env strict fs ?r1] obtain m1 c1 t1 where
    r1: "?step\<^sup>*\<^sup>* (n, fs) (n\<lparr>n_ms := m1, n_clock := t1, n_calls := c1\<rparr>, fs)" "t1 \<le> ?t"
      "pinged_alone (n_ms n) ?r1 (\<lambda>x. ?t) (dom (gm_get (peers (n_ms n)))) m1 c1" unfolding nc append_Nil by blast
  have c1: "c1 = [(CbDead, x)]" "gm_get (peers m1) x = Some (p\<lparr>peer_State := StateDead\<rparr>)"
    "gm_get (peers (n_ms n)) y = Some q \<Longrightarrow> y \<noteq> x \<Longrightarrow> gm_get (peers m1) y = Some (q\<lparr>LastHeartbeat := ?t, peer_State := StateAlive\<rparr>)" for y q
    using single_call [OF r1(3) p, of "(CbDead, x)"] alive p cb
    by (simp_all add: ping_update_known e1 e2 transition_calls_def)
  let ?n1 = "n\<lparr>n_ms := m1, n_clock := t1, n_calls := c1\<rparr>"
  have cb1: "onDead m1 = [CbDead]" "onAlive m1 = [CbAlive]" using r1(3) cb by (simp_all add: pinged_alone_def)
  have alive1: "peer_State q = StateAlive" if q: "gm_get (peers m1) y = Some q" "y \<noteq> x" for y q
  proof (cases "gm_get (peers (n_ms n)) y")
    case None
    then have "gm_get (peers m1) y = None" using r1(3) unfolding pinged_alone_def by (simp add: domIff)
    with q show ?thesis by simp
  next
    case (Some q')
    with c1(3) [OF this q(2)] q show ?thesis by auto
  qed
  have "node_inv sha1 U selfID ?n1" using node_reach_inv [OF r1(1)] inv by simp
  then have ok1: "gm_ok (peers (n_ms ?n1))" by (auto simp: node_inv_def m_sim_def)
  have "n_loops ?n1 = [\<lparr>act = Waiting, ticked = False\<rparr>]" "\<not> p_panicked (n_pool ?n1)" "n_clock ?n1 \<le> ?t" using lo np r1(2) by simp_all
  from node_round [OF this(1,2) ok1 this(3), of sha1 sha256 env strict fs "\<lambda>y. Inr 200"] obtain m2 c2 t2 where
    r2: "?step\<^sup>*\<^sup>* (?n1, fs) (?n1\<lparr>n_ms := m2, n_clock := t2, n_calls := c1 @ c2\<rparr>, fs)"
      "pinged_alone m1 (\<lambda>y. Inr 200) (\<lambda>x. ?t) (dom (gm_get (peers m1))) m2 c2" by auto
  have "c2 = [(CbAlive, x)]" "gm_get (peers m2) x = Some (p\<lparr>peer_State := StateDead\<rparr>\<lparr>LastHeartbeat := ?t, peer_State := StateAlive\<rparr>)"
    using single_call [OF r2(2) c1(2), of "(CbAlive, x)"] alive1 cb1 c1(2)
    by (simp_all add: ping_update_known e2 transition_calls_def)
  moreover have "?step\<^sup>*\<^sup>* (n, fs) (n\<lparr>n_ms := m2, n_clock := t2, n_calls := c1 @ c2\<rparr>, fs)"
    using r1(1) r2(1) by simp
  ultimately show ?thesis unfolding c1(1) by fastforce
qed



text \<open>
  C24. The node stays well formed. In every state a node reaches from its start, with the callbacks in
  any order: the ring is well formed and holds this node and otherwise only peers of the
  table; each table entry is under its own ID, and this node has none; and callbacks in flight are for
  peers of the table.
\<close>

theorem node_well_formed:
  assumes "node_main sha1 getenv cfg now clock fs = (Inr n0, fs0)" and "clock_ok now clock"
    and "collision_free sha1 U" and "nodeID cfg \<in> U" and "fst ` set (cfg_peers cfg) \<subseteq> U"
    and "(node_step sha1 sha256 env strict)\<^sup>*\<^sup>* (n0, fs0) (n, fs')"
  shows "ring_inv sha1 U (n_ring n) \<and> nodeID cfg \<in> ring_set (n_ring n)
    \<and> ring_set (n_ring n) \<subseteq> insert (nodeID cfg) (dom (gm_get (peers (n_ms n))))
    \<and> table_ok (n_ms n) \<and> gm_get (peers (n_ms n)) (nodeID cfg) = None
    \<and> snd ` set (n_calls n) \<subseteq> dom (gm_get (peers (n_ms n)))"
proof -
  have inv: "node_inv sha1 U (nodeID cfg) n"
    using node_reach_inv [OF assms(6)] node_main_inv(1) [OF assms(1-5)] by simp
  then obtain H where sim: "m_sim (n_clock n) H (n_ms n)" "peer_ID (self (n_ms n)) = nodeID cfg" by (auto simp: node_inv_def)
  then have "table_ok (n_ms n)" "gm_get (peers (n_ms n)) (nodeID cfg) = None" by (simp_all add: m_sim_table) (simp add: m_sim_def)
  with inv show ?thesis by (auto simp: node_inv_def state_of_def)
qed

lemma node_well_formed_witness:
  "\<exists>n fs'. node_main sample_sha1 (\<lambda>k. '''') sample_config 0 int sample_fs = (Inr n, fs') \<and> table_ok (n_ms n)
     \<and> ''a'' \<in> ring_set (n_ring n)"
proof -
  obtain n fs' where m: "node_main sample_sha1 (\<lambda>k. '''') sample_config 0 int sample_fs = (Inr n, fs')"
    using sample_start by blast
  from node_well_formed [OF m sample_clock sample_collision_free sample_letters rtranclp.rtrancl_refl]
  show ?thesis using m sample_config_peers(1) by auto
qed

text \<open>
  The peer list is read back. For a peer list rendered from pairs of IDs and addresses without
  separators in them, the node starts with exactly these peers and itself on the ring, and the
  resolver of the replication engine gives for each ID its first address, for this node and for
  unknown IDs none.
\<close>

lemma peer_list_roundtrip:
  assumes "node_main sha1 getenv cfg now clock fs = (Inr n, fs')" and "clock_ok now clock"
    and "collision_free sha1 U" and "nodeID cfg \<in> U" and "fst ` set ps \<subseteq> U"
    and "peersFlag cfg = render_peers ps" and "list_all plain_entry ps" and "range_order ord"
  shows "ring_set (n_ring n) = insert (nodeID cfg) (fst ` set ps)
    \<and> AddrFor ord (n_ms n) x =
        (if x = nodeID cfg then ('''', False)
         else case map_of ps x of None \<Rightarrow> ('''', False) | Some a \<Rightarrow> (a, True))"
proof -
  have ps: "cfg_peers cfg = ps" using assms(6,7) by (simp add: cfg_peers_def flag_peers_render)
  have U: "fst ` set (cfg_peers cfg) \<subseteq> U" using assms(5) ps by simp
  note M = node_main_spec [OF assms(1-4) U]
  from M(3) have tbl: "table_ok (n_ms n)" using m_sim_table by blast
  have "AddrFor ord (n_ms n) x = (case gm_get (peers (n_ms n)) x of None \<Rightarrow> ('''', False) | Some p \<Rightarrow> (Addr p, True))"
    by (rule AddrFor_table [OF tbl assms(8)])
  also have "\<dots> = (if x = nodeID cfg then ('''', False)
         else case map_of ps x of None \<Rightarrow> ('''', False) | Some a \<Rightarrow> (a, True))"
  proof (cases "x = nodeID cfg")
    case True
    with M(11) show ?thesis by simp
  next
    case False
    from M(10) [OF this] show ?thesis
      using False unfolding ps by (cases "gm_get (peers (n_ms n)) x"; cases "map_of ps x") simp_all
  qed
  finally show ?thesis using M(2) ps by simp
qed

lemma peer_list_roundtrip_witness:
  "\<exists>n fs'. node_main sample_sha1 (\<lambda>k. '''') (sample_config\<lparr>peersFlag := ''b=b:80,c=c:80''\<rparr>) 0 int sample_fs = (Inr n, fs')
     \<and> AddrFor rev (n_ms n) ''c'' = (''c:80'', True)"
proof -
  let ?cfg = "sample_config\<lparr>peersFlag := ''b=b:80,c=c:80''\<rparr>"
  have d: "dataDir ?cfg = ''/data''" "nodeID ?cfg = ''a''" using sample_config_peers by simp_all
  have "fst (NewLocalFS ''/data'' sample_fs) = Inr \<lparr>root = ''/data''\<rparr>" by code_simp
  then have "NewLocalFS (dataDir ?cfg) sample_fs = (Inr \<lparr>root = ''/data''\<rparr>, snd (NewLocalFS ''/data'' sample_fs))"
    unfolding d(1) by (metis prod.collapse)
  from node_main_ok [OF this] obtain n fs' where
    m: "node_main sample_sha1 (\<lambda>k. '''') ?cfg 0 int sample_fs = (Inr n, fs')" by blast
  have U: "nodeID ?cfg \<in> letter_nodes" "fst ` set [(''b'', ''b:80''), (''c'', ''c:80'')] \<subseteq> letter_nodes"
    unfolding d by (auto simp: letter_nodes_def)
  have "render_peers [(''b'', ''b:80''), (''c'', ''c:80'')] = ''b=b:80,c=c:80''" by code_simp
  then have r: "peersFlag ?cfg = render_peers [(''b'', ''b:80''), (''c'', ''c:80'')]" by simp
  have pe: "list_all plain_entry [(''b'', ''b:80''), (''c'', ''c:80'')]" by code_simp
  from conjunct2 [OF peer_list_roundtrip [OF m sample_clock sample_collision_free U r pe range_order_rev, of "''c''"]]
  have "AddrFor rev (n_ms n) ''c'' = (''c:80'', True)" unfolding d by simp
  with m show ?thesis by blast
qed

end
