(* ===== verification/NodeStore.thy ===== *)
theory NodeStore
  imports NodeProperties
begin

text \<open>
  What a running node of \<^verbatim>\<open>cmd/node/main.go\<close> keeps on disk and in its queue, and what its
  shutdown does to a repair pass.
\<close>

section \<open>Reads leave the tree alone\<close>

lemma LocalFS_Get_tree:
  assumes "LocalFS_Get l c fs = (x, fs')"
  shows "tree fs' = tree fs"
proof -
  obtain f fs1 where f: "next_fault fs = (f, fs1)" by (cases "next_fault fs") auto
  have "tree fs1 = tree fs" using next_fault_spec [OF f] by simp
  with assms f show ?thesis
    by (auto simp: LocalFS_Get_def os_ReadFile_def Let_def split: option.splits sum.splits fnode.splits if_splits)
qed

lemma reassemble_loop_keeps:
  assumes "\<And>d s. P (snd (wr d s)) = P s" and "\<And>c s. P (snd (get c s)) = P s"
  shows "P (snd (reassemble_loop sha256 wr get ids s)) = P s"
proof (induction ids arbitrary: s)
  case (Cons c ids)
  have "P s1 = P s" if "get c s = (x, s1)" for x s1 using assms(2) [of c s] that by simp
  moreover have "P s2 = P s1" if "wr d s1 = (e, s2)" for d s1 e s2 using assms(1) [of d s1] that by simp
  ultimately show ?case using Cons.IH by (auto split: prod.splits sum.splits option.splits)
qed simp

lemma fetchChunk_tree:
  assumes "Local srv = LocalFS l"
  shows "tree (io_local (snd (fetchChunk sha1 ord http_Get srv c w))) = tree (io_local w)"
proof -
  obtain x fs1 where g: "LocalFS_Get l c (io_local w) = (x, fs1)" by fastforce
  with LocalFS_Get_tree [OF g] show ?thesis
    by (auto simp: fetchChunk_def assms split: prod.splits sum.splits option.splits)
qed

lemma download_tree:
  fixes srv :: "(fsys, 'c, 'cb) server" and w :: "(fsys, 'c, 'n) io"
  assumes "Local srv = LocalFS l" and "handleDownloadBlob sha1 sha256 ord http_Get srv urlPath w = (w', err)"
  shows "tree (io_local w') = tree (io_local w)"
proof -
  have "tree (io_local (snd (io_Write d s))) = tree (io_local s)" for d and s :: "(fsys, 'c, 'n) io"
    by (simp add: io_Write_def split: prod.split)
  note K = reassemble_loop_keeps [of "\<lambda>w. tree (io_local w)" io_Write "fetchChunk sha1 ord http_Get srv", OF this
      fetchChunk_tree [OF assms(1)]]
  have D: "tree (io_local w1) = tree (io_local w)"
    if "reassemble_loop sha256 io_Write (fetchChunk sha1 ord http_Get srv) ids w = (e, w1)" for ids e w1
    using K [of sha256 ids w] that by simp
  show ?thesis
    using assms(2) by (auto simp: handleDownloadBlob_def Reassemble_def Let_def dest: D split: option.splits prod.splits)
qed

lemma get_chunk_tree:
  assumes "Local srv = LocalFS l" and "handleGetChunk cid w srv fs = (w', fs')"
  shows "tree fs' = tree fs"
  using assms by (auto simp: handleGetChunk_def dest: LocalFS_Get_tree split: prod.splits sum.splits)

section \<open>What an upload and a repair step store and queue\<close>

context backend_spec
begin

lemma upload_loop_stores:
  assumes "inv s" and "\<forall>c \<in> set cs. ok_id (chunkID c)" and "upload_loop selfID B targets i cs s = (res, jobs, s')"
  shows "inv s' \<and> set jobs \<subseteq> job_of ` set cs
    \<and> (\<forall>x. stored s' x = stored s x \<or> (\<exists>c \<in> set cs. chunkID c = x \<and> stored s' x = Some (chunkData c)))"
  using assms
proof (induction cs arbitrary: s i res jobs)
  case (Cons c cs)
  let ?put = "if local_target selfID (targets i (chunkID c)) then b_Put B (chunkID c) (chunkData c) s else (None, s)"
  obtain e s1 where p: "?put = (e, s1)" by fastforce
  have ok: "ok_id (chunkID c)" using Cons.prems(2) by simp
  have put: "inv s1" "\<forall>x. stored s1 x = stored s x \<or> chunkID c = x \<and> stored s1 x = Some (chunkData c)"
    using p Cons.prems(1) put_inv [OF Cons.prems(1) ok] put_ok [OF Cons.prems(1) ok] put_err [OF Cons.prems(1) ok]
    by (cases e; auto split: if_splits)+
  show ?case
  proof (cases e)
    case None
    obtain res' jobs' where r: "upload_loop selfID B targets (Suc i) cs s1 = (res', jobs', s')"
      and res: "jobs = job_of c # jobs'"
      using Cons.prems(3) None p by (auto simp: upload_loop_Cons split: prod.splits)
    have "\<forall>c \<in> set cs. ok_id (chunkID c)" using Cons.prems(2) by simp
    note IH = Cons.IH [OF put(1) this r]
    have "stored s' x = stored s x \<or> (\<exists>c \<in> set (c # cs). chunkID c = x \<and> stored s' x = Some (chunkData c))" for x
    proof (cases "stored s' x = stored s1 x")
      case True
      with put(2) show ?thesis by (metis list.set_intros(1))
    next
      case False
      with IH show ?thesis by (metis list.set_intros(2))
    qed
    with IH show ?thesis unfolding res by auto
  next
    case (Some err)
    with Cons.prems(3) p have "jobs = []" "s' = s1" by (simp_all add: upload_loop_Cons)
    with put show ?thesis by (metis empty_subsetI list.set(1) list.set_intros(1))
  qed
qed (auto simp: upload_loop.simps(1))

lemma repair_chunk:
  assumes "inv s" and "stored s c \<noteq> None" and "repair_loop selfID B targets i [c] s = (jobs, s')"
  shows "inv s' \<and> stored s' = stored s \<and> (\<forall>j \<in> set jobs. stored s (ChunkID j) = Some (Data j))
    \<and> (reliable s \<longrightarrow> reliable s' \<and> (selfID \<in> set (targets i c) \<longrightarrow> jobs \<noteq> []))"
proof -
  have "\<And>x. x \<in> set [c] \<Longrightarrow> stored s x \<noteq> None" using assms(2) by simp
  from repair_loop_spec [OF assms(1) this assms(3)] show ?thesis by auto
qed

end

section \<open>Verified data only\<close>

definition intact :: "(bytes \<Rightarrow> bytes) \<Rightarrow> job \<Rightarrow> bool" where
  "intact sha256 j \<longleftrightarrow> Verify sha256 (ChunkID j) (Data j)"

text \<open>The jobs that are on their way to the replicas: before the channel, in it, or with a worker.\<close>

definition pool_jobs :: "pool \<Rightarrow> job set" where
  "pool_jobs p = set (p_senders p) \<union> set (p_queue p) \<union> {j. Busy j \<in> set (p_workers p)}"

lemma pool_step_jobs:
  assumes "pool_step p p'" and "length (p_senders p') \<le> length (p_senders p)"
  shows "pool_jobs p' \<subseteq> pool_jobs p"
proof -
  have upd: "Busy j \<in> set (ws[i := w]) \<Longrightarrow> Busy j = w \<or> Busy j \<in> set ws" for j ws i and w :: worker
    using set_update_subset_insert [of ws i w] by blast
  show ?thesis using assms by (cases rule: pool_step.cases) (auto simp: pool_jobs_def dest: upd)
qed

definition pass_ok :: "(bytes \<Rightarrow> bytes) \<Rightarrow> (string \<rightharpoonup> bytes) \<Rightarrow> pass \<Rightarrow> bool" where
  "pass_ok sha256 st p \<longleftrightarrow> (\<forall>c \<in> set (ps_ids p). st c \<noteq> None) \<and> (\<forall>j. ps_send p = Some j \<longrightarrow> intact sha256 j)"

definition up_ok :: "(bytes \<Rightarrow> bytes) \<Rightarrow> upload \<Rightarrow> bool" where
  "up_ok sha256 u \<longleftrightarrow> (\<forall>c \<in> set (up_chunks u). chunkID c = ID sha256 (chunkData c)) \<and> (\<forall>j. up_send u = Some j \<longrightarrow> intact sha256 j)"

text \<open>All jobs of a node: with the queue and its workers, or in a call of Enqueue.\<close>

definition node_jobs :: "node \<Rightarrow> job set" where
  "node_jobs n = pool_jobs (n_pool n) \<union> {j. \<exists>p \<in> set (n_passes n). ps_send p = Some j} \<union> {j. \<exists>u \<in> set (n_uploads n). up_send u = Some j}"

definition store_ok :: "(bytes \<Rightarrow> bytes) \<Rightarrow> node \<times> fsys \<Rightarrow> bool" where
  "store_ok sha256 s \<longleftrightarrow> (case s of (n, fs) \<Rightarrow>
     localfs_inv (n_local n) fs \<and> verified sha256 (localfs_stored (n_local n) fs)
     \<and> (\<forall>j \<in> pool_jobs (n_pool n). intact sha256 j)
     \<and> (\<forall>p \<in> set (n_passes n). pass_ok sha256 (localfs_stored (n_local n) fs) p)
     \<and> (\<forall>u \<in> set (n_uploads n). up_ok sha256 u))"

text \<open>A change of the store that only adds verified chunks.\<close>

definition extends :: "(bytes \<Rightarrow> bytes) \<Rightarrow> (string \<rightharpoonup> bytes) \<Rightarrow> (string \<rightharpoonup> bytes) \<Rightarrow> bool" where
  "extends sha256 st st' \<longleftrightarrow> (\<forall>x. st' x = st x \<or> (\<exists>d. st' x = Some d \<and> Verify sha256 x d))"

lemma extends_refl [simp]: "extends sha256 st st"
  by (simp add: extends_def)

lemma extends_verified: "extends sha256 st st' \<Longrightarrow> verified sha256 st \<Longrightarrow> verified sha256 st'"
  unfolding extends_def verified_def by (metis option.inject)

lemma extends_pass: "extends sha256 st st' \<Longrightarrow> pass_ok sha256 st p \<Longrightarrow> pass_ok sha256 st' p"
  unfolding extends_def pass_ok_def by (metis option.distinct(1))

lemma extends_dom: "extends sha256 st st' \<Longrightarrow> dom st \<subseteq> dom st'"
  unfolding extends_def by (metis domIff option.distinct(1) subsetI)

lemma store_ok_step:
  assumes "store_ok sha256 (n, fs)" and "localfs_inv (n_local n) fs'" and "n_local n' = n_local n"
    and "extends sha256 (localfs_stored (n_local n) fs) (localfs_stored (n_local n) fs')"
    and "\<And>j. j \<in> pool_jobs (n_pool n') \<Longrightarrow> j \<in> pool_jobs (n_pool n) \<or> intact sha256 j"
    and "\<And>p. p \<in> set (n_passes n') \<Longrightarrow> p \<in> set (n_passes n) \<or> pass_ok sha256 (localfs_stored (n_local n) fs') p"
    and "\<And>u. u \<in> set (n_uploads n') \<Longrightarrow> u \<in> set (n_uploads n) \<or> up_ok sha256 u"
  shows "store_ok sha256 (n', fs') \<and> n_local n' = n_local n
    \<and> extends sha256 (localfs_stored (n_local n) fs) (localfs_stored (n_local n) fs')"
  using assms extends_verified [OF assms(4)] extends_pass [OF assms(4)] unfolding store_ok_def by fastforce

lemma node_server_fields [simp]:
  "SelfID (node_server ord sha256 env n) = man_selfID (n_rec n)"
  "Local (node_server ord sha256 env n) = LocalFS (n_local n)"
  "Ring (node_server ord sha256 env n) = n_ring n" "manifests (node_server ord sha256 env n) = n_manifests n"
  by (simp_all add: node_server_def NewServer_def)

lemma upload_stores:
  assumes "localfs_inv l fs" and "Local srv = LocalFS l" and "\<forall>b. sha256 b \<noteq> []"
    and "handleUploadBlob sha1 sha256 rings urlPath body w srv fs = Some (w', jobs, srv', fs')"
  shows "localfs_inv l fs' \<and> extends sha256 (localfs_stored l fs) (localfs_stored l fs') \<and> (\<forall>j \<in> set jobs. intact sha256 j)"
proof (cases "fs' = fs \<and> jobs = []")
  case False
  obtain chunks m where sp: "Split sha256 (TrimPrefix urlPath ''/blobs/'') body DefaultSize = Some (Inr (chunks, m))"
    and ul: "\<exists>e. upload_loop (SelfID srv) (LocalFS l) (\<lambda>i c. GetN sha1 (rings i) c Factor) 0 chunks fs = (e, jobs, fs')"
    using assms(2,4) False by (auto simp: handleUploadBlob_def Let_def split: if_splits option.splits sum.splits prod.splits)
  have id: "chunkID ch = ID sha256 (chunkData ch)" if "ch \<in> set chunks" for ch using Split_chunks [OF sp] that by blast
  then have "\<forall>ch \<in> set chunks. ok_id (chunkID ch)" using ok_id_ID assms(3) by metis
  with ul lfs.upload_loop_stores [OF assms(1)] have
    U: "localfs_inv l fs'" "set jobs \<subseteq> job_of ` set chunks"
      "\<forall>x. localfs_stored l fs' x = localfs_stored l fs x
        \<or> (\<exists>c \<in> set chunks. chunkID c = x \<and> localfs_stored l fs' x = Some (chunkData c))" by blast+
  with id show ?thesis by (fastforce simp: extends_def intact_def job_of_def Verify_def)
qed (use assms(1) in simp)

lemma put_stores:
  assumes "localfs_inv l fs" and "Local srv = LocalFS l" and "\<forall>b. sha256 b \<noteq> []"
    and "handlePutChunk sha256 cid body (new_response ws) srv fs = (w', fs')"
  shows "localfs_inv l fs' \<and> extends sha256 (localfs_stored l fs) (localfs_stored l fs')"
proof -
  have "rs_status (new_response ws) = None" by (simp add: new_response_def)
  note P = handlePutChunk_spec [OF assms(1-3) this assms(4)]
  then show ?thesis by (cases "final_status w' = 200") (auto simp: extends_def)
qed

lemma same_tree_stores:
  "tree fs' = tree fs \<Longrightarrow> localfs_inv l fs \<Longrightarrow>
     localfs_inv l fs' \<and> extends sha256 (localfs_stored l fs) (localfs_stored l fs')"
  using localfs_same_tree [of fs' fs l] by simp

lemma request_stores:
  assumes "localfs_inv l (io_local io)" and "Local srv = LocalFS l" and "\<forall>b. sha256 b \<noteq> []"
    and "ServeHTTP sha1 sha256 rings ord ord' http_Get fmt_time q rec rq srv
           \<lparr>io_resp = new_response ws, io_local = io_local io, io_cold = io_cold io, io_net = io_net io\<rparr> = Some (io', jobs, srv')"
  shows "localfs_inv l (io_local io') \<and> extends sha256 (localfs_stored l (io_local io)) (localfs_stored l (io_local io'))
    \<and> (\<forall>j \<in> set jobs. intact sha256 j)"
proof -
  let ?io = "\<lparr>io_resp = new_response ws, io_local = io_local io, io_cold = io_cold io, io_net = io_net io\<rparr>"
  show ?thesis
  proof (cases "Routes (req_Method rq) (req_segs rq)")
    case (RUpload path)
    with assms(4) obtain w where "handleUploadBlob sha1 sha256 rings path (req_Body rq) (new_response ws) srv (io_local io)
        = Some (w, jobs, srv', io_local io')" by (auto simp: ServeHTTP_def Let_def split: option.splits)
    from upload_stores [OF assms(1-3) this] show ?thesis .
  next
    case (RDownload path)
    with assms(4) obtain err where d: "handleDownloadBlob sha1 sha256 ord' http_Get srv path ?io = (io', err)" "jobs = []"
      by (auto simp: ServeHTTP_def Let_def split: prod.splits)
    have "tree (io_local io') = tree (io_local io)" using download_tree [OF assms(2) d(1)] by simp
    from same_tree_stores [OF this assms(1)] d(2) show ?thesis by simp
  next
    case (RPutChunk cid)
    with assms(4) obtain w where d: "handlePutChunk sha256 cid (req_Body rq) (new_response ws) srv (io_local io) = (w, io_local io')" "jobs = []"
      by (auto simp: ServeHTTP_def Let_def split: prod.splits)
    from put_stores [OF assms(1-3) d(1)] d(2) show ?thesis by simp
  next
    case (RGetChunk cid)
    with assms(4) obtain w where d: "handleGetChunk cid (new_response ws) srv (io_local io) = (w, io_local io')" "jobs = []"
      by (auto simp: ServeHTTP_def Let_def split: prod.splits)
    from same_tree_stores [OF get_chunk_tree [OF assms(2) d(1)] assms(1)] d(2) show ?thesis by simp
  qed (use assms in \<open>auto simp: ServeHTTP_def Let_def\<close>)
qed

lemma upload_chunk_stores:
  assumes "localfs_inv l fs" and "up_ok sha256 \<lparr>up_id = b, up_manifest = mf, up_chunks = ch # cs, up_send = None\<rparr>"
    and "\<forall>b. sha256 b \<noteq> []" and "upload_loop selfID (LocalFS l) targets i [ch] fs = (res, jobs, fs')"
  shows "localfs_inv l fs' \<and> extends sha256 (localfs_stored l fs) (localfs_stored l fs') \<and> (\<forall>j \<in> set jobs. intact sha256 j)"
proof -
  have id: "chunkID ch = ID sha256 (chunkData ch)" using assms(2) by (simp add: up_ok_def)
  then have "\<forall>c \<in> set [ch]. ok_id (chunkID c)" using ok_id_ID assms(3) by simp
  from lfs.upload_loop_stores [OF assms(1) this assms(4)] id show ?thesis
    by (fastforce simp: extends_def intact_def job_of_def Verify_def)
qed

lemma node_step_store:
  assumes "node_step sha1 sha256 env strict s s'" and "\<forall>b. sha256 b \<noteq> []" and "store_ok sha256 s"
  shows "store_ok sha256 s' \<and> n_local (fst s') = n_local (fst s)
    \<and> extends sha256 (localfs_stored (n_local (fst s)) (snd s)) (localfs_stored (n_local (fst s)) (snd s'))"
  using assms(1)
proof cases
  case (pass_list n xs x ys fs ids fs')
  have ok: "store_ok sha256 (n, fs)" using assms(3) pass_list by simp
  then have inv: "localfs_inv (n_local n) fs" by (simp add: store_ok_def)
  note L = lfs.list_inv [OF inv pass_list(5)] lfs.list_ok [OF inv pass_list(5)]
  show ?thesis unfolding pass_list(1,2) fst_conv snd_conv
    by (rule store_ok_step [OF ok]) (use L in \<open>auto simp: pass_ok_def\<close>)
next
  case (pass_fails n xs x ys fs err fs')
  have ok: "store_ok sha256 (n, fs)" using assms(3) pass_fails by simp
  then have inv: "localfs_inv (n_local n) fs" by (simp add: store_ok_def)
  show ?thesis unfolding pass_fails(1,2) fst_conv snd_conv
    by (rule store_ok_step [OF ok]) (use lfs.list_inv [OF inv pass_fails(5)] in auto)
next
  case (pass_chunk n xs c ids ys fs jobs fs')
  have ok: "store_ok sha256 (n, fs)" using assms(3) pass_chunk by simp
  then have inv: "localfs_inv (n_local n) fs" "verified sha256 (localfs_stored (n_local n) fs)" by (simp_all add: store_ok_def)
  have p: "pass_ok sha256 (localfs_stored (n_local n) fs) \<lparr>ps_ids = c # ids, ps_send = None\<rparr>"
    using ok pass_chunk(4) by (simp add: store_ok_def)
  then have "localfs_stored (n_local n) fs c \<noteq> None" by (simp add: pass_ok_def)
  note R = lfs.repair_chunk [OF inv(1) this pass_chunk(5)]
  have "intact sha256 j" if "j \<in> set jobs" for j using R inv(2) that by (auto simp: intact_def verified_def)
  with p R have "pass_ok sha256 (localfs_stored (n_local n) fs')
      \<lparr>ps_ids = ids, ps_send = (case jobs of [] \<Rightarrow> None | j # js \<Rightarrow> Some j)\<rparr>"
    by (auto simp: pass_ok_def split: list.splits)
  then show ?thesis unfolding pass_chunk(1,2) fst_conv snd_conv
    by (intro store_ok_step [OF ok]) (use R pass_chunk(4) in auto)
next
  case (pass_send n xs ids j ys fs)
  have ok: "store_ok sha256 (n, fs)" using assms(3) pass_send by simp
  then have p: "pass_ok sha256 (localfs_stored (n_local n) fs) \<lparr>ps_ids = ids, ps_send = Some j\<rparr>"
    using pass_send(4) by (simp add: store_ok_def)
  show ?thesis unfolding pass_send(1,2) fst_conv snd_conv
    by (rule store_ok_step [OF ok]) (use ok p pass_send(4) in \<open>auto simp: store_ok_def pool_jobs_def pass_ok_def\<close>)
next
  case (queue n p' fs)
  have ok: "store_ok sha256 (n, fs)" using assms(3) queue by simp
  have "pool_jobs p' \<subseteq> pool_jobs (n_pool n)" by (rule pool_step_jobs [OF queue(3)]) (simp add: queue(5))
  then show ?thesis unfolding queue(1,2) fst_conv snd_conv
    by (intro store_ok_step [OF ok]) (use ok in \<open>auto simp: store_ok_def\<close>)
next
  case (request n rq rings ord ord' http fmt_time ws fs c k io jobs srv)
  have ok: "store_ok sha256 (n, fs)" using assms(3) request by simp
  then have inv: "localfs_inv (n_local n) fs" by (simp add: store_ok_def)
  note R = request_stores [where io = "\<lparr>io_resp = new_response ws, io_local = fs, io_cold = c, io_net = k\<rparr>",
      unfolded io.select_convs, OF inv node_server_fields(2) assms(2) request(5)]
  show ?thesis unfolding request(1,2) fst_conv snd_conv
    by (rule store_ok_step [OF ok]) (use R in auto)
next
  case (upload_start n rq path chunks mf fs)
  have ok: "store_ok sha256 (n, fs)" using assms(3) upload_start by simp
  show ?thesis unfolding upload_start(1,2) fst_conv snd_conv
    by (rule store_ok_step [OF ok])
       (use ok Split_chunks [OF upload_start(6)] in \<open>auto simp: store_ok_def up_ok_def\<close>)
next
  case (upload_chunk n xs b mf ch cs ys fs j fs')
  have ok: "store_ok sha256 (n, fs)" using assms(3) upload_chunk by simp
  then have u: "up_ok sha256 \<lparr>up_id = b, up_manifest = mf, up_chunks = ch # cs, up_send = None\<rparr>"
    using upload_chunk(4) by (simp add: store_ok_def)
  have inv: "localfs_inv (n_local n) fs" using ok by (simp add: store_ok_def)
  note U = upload_chunk_stores [OF inv u assms(2) upload_chunk(5)]
  from u U have "up_ok sha256 \<lparr>up_id = b, up_manifest = mf, up_chunks = cs, up_send = Some j\<rparr>" by (simp add: up_ok_def)
  then show ?thesis unfolding upload_chunk(1,2) fst_conv snd_conv
    by (intro store_ok_step [OF ok]) (use U upload_chunk(4) in auto)
next
  case (upload_fails n xs b mf ch cs ys fs err jobs fs')
  have ok: "store_ok sha256 (n, fs)" using assms(3) upload_fails by simp
  then have u: "up_ok sha256 \<lparr>up_id = b, up_manifest = mf, up_chunks = ch # cs, up_send = None\<rparr>"
    using upload_fails(4) by (simp add: store_ok_def)
  have inv: "localfs_inv (n_local n) fs" using ok by (simp add: store_ok_def)
  note U = upload_chunk_stores [OF inv u assms(2) upload_fails(5)]
  then show ?thesis unfolding upload_fails(1,2) fst_conv snd_conv
    by (intro store_ok_step [OF ok]) (use U upload_fails(4) in auto)
next
  case (upload_send n xs b mf cs j ys fs)
  have ok: "store_ok sha256 (n, fs)" using assms(3) upload_send by simp
  then have u: "up_ok sha256 \<lparr>up_id = b, up_manifest = mf, up_chunks = cs, up_send = Some j\<rparr>"
    using upload_send(4) by (simp add: store_ok_def)
  show ?thesis unfolding upload_send(1,2) fst_conv snd_conv
    by (rule store_ok_step [OF ok]) (use ok u upload_send(4) in \<open>auto simp: store_ok_def pool_jobs_def up_ok_def\<close>)
next
  case (work n i j ord results cancels outs log fs)
  have ok: "store_ok sha256 (n, fs)" using assms(3) work by simp
  have "pool_step (n_pool n) ((n_pool n)\<lparr>p_workers := (p_workers (n_pool n))[i := Idle], finished := finished (n_pool n) @ [j]\<rparr>)"
    by (rule pool_step.finish [OF work(3-5)])
  from pool_step_jobs [OF this] have J: "pool_jobs ((n_pool n)\<lparr>p_workers := (p_workers (n_pool n))[i := Idle], finished := finished (n_pool n) @ [j]\<rparr>)
      \<subseteq> pool_jobs (n_pool n)" by simp
  show ?thesis unfolding work(1,2) fst_conv snd_conv
    by (rule store_ok_step [OF ok]) (use ok J in \<open>auto simp: store_ok_def\<close>)
next
  case (engine_stop n p' fs)
  have ok: "store_ok sha256 (n, fs)" using assms(3) engine_stop by simp
  have "p_senders p' = p_senders (n_pool n)" using engine_stop(4-6) by (cases rule: pool_step.cases) auto
  then have "pool_jobs p' \<subseteq> pool_jobs (n_pool n)" using pool_step_jobs [OF engine_stop(4)] by simp
  then show ?thesis unfolding engine_stop(1,2) fst_conv snd_conv
    by (intro store_ok_step [OF ok]) (use ok in \<open>auto simp: store_ok_def\<close>)
qed (use assms(3) in \<open>auto simp: store_ok_def put_heart_def pool_jobs_def\<close>)

lemma node_run_store:
  assumes "(node_step sha1 sha256 env strict)\<^sup>*\<^sup>* s s'" and "\<forall>b. sha256 b \<noteq> []" and "store_ok sha256 s"
  shows "store_ok sha256 s' \<and> n_local (fst s') = n_local (fst s)
    \<and> extends sha256 (localfs_stored (n_local (fst s)) (snd s)) (localfs_stored (n_local (fst s)) (snd s'))"
  using assms(1)
proof (induction rule: rtranclp_induct)
  case (step s1 s2)
  then have 1: "store_ok sha256 s1" "n_local (fst s1) = n_local (fst s)"
    "extends sha256 (localfs_stored (n_local (fst s)) (snd s)) (localfs_stored (n_local (fst s)) (snd s1))" by simp_all
  have "extends sha256 a b \<Longrightarrow> extends sha256 b c \<Longrightarrow> extends sha256 a c" for a b c
    unfolding extends_def by metis
  with 1 node_step_store [OF step.hyps(2) assms(2) 1(1)] show ?case by auto
qed (use assms(3) in simp)

section \<open>What the workers push\<close>

text \<open>The addresses the node knows its peers by; a step never changes them.\<close>

definition addr_book :: "node \<Rightarrow> string \<Rightarrow> string option" where
  "addr_book n x = map_option Addr (gm_get (peers (n_ms n)) x)"

definition push_ok :: "(bytes \<Rightarrow> bytes) \<Rightarrow> (string \<Rightarrow> string option) \<Rightarrow> effect \<Rightarrow> bool" where
  "push_ok sha256 book x \<longleftrightarrow> (case x of Push a c d \<Rightarrow> Verify sha256 c d \<and> (\<exists>y. book y = Some a) | Sleep t \<Rightarrow> True)"

lemma pushed_to_mem: "Push a c d \<in> set xs \<Longrightarrow> a \<in> set (pushed_to xs)"
  by (induction xs) (auto simp: pushed_to_def split: effect.splits)

lemma replicate_job_pushes:
  assumes "replicate_job sha1 e (script_env results cancels) af r j log = (out, log')" and "0 \<le> maxRetries e" and "x \<in> set log'"
  shows "x \<in> set log \<or> carries j x \<and> (\<forall>a c d. x = Push a c d \<longrightarrow> (\<exists>y. af y = (a, True)))"
proof -
  let ?ts = "GetN sha1 r (ChunkID j) Factor"
  obtain ds ns where D: "log' = log @ ds" "list_all (carries j) ds" "length ns = length (addressed e af ?ts)"
    "pushed_to ds = concat (map (\<lambda>(n, a). replicate (Suc n) a) (zip ns (addressed e af ?ts)))"
    using replicate_loop_spec [OF assms(2)] assms(1) unfolding replicate_job_def by blast
  have "\<exists>y. af y = (a, True)" if "Push a c d \<in> set ds" for a c d
  proof -
    have "a \<in> set (addressed e af ?ts)" using pushed_to_mem [OF that] unfolding D(4) set_repeated [OF D(3)] .
    then obtain y where "a = fst (af y)" "snd (af y)" by (auto simp: addressed_def)
    then have "af y = (a, True)" by (metis prod.collapse)
    then show ?thesis ..
  qed
  with assms(3) D(1,2) show ?thesis by (auto simp: list_all_iff)
qed

lemma loop_step_book:
  assumes "loop_step (node_heart n) calls h"
  shows "map_option Addr (gm_get (peers (h_ms h)) x) = addr_book n x"
proof -
  have "map_option Addr (gm_get (peers (fst (ping_update k r t m))) x) = map_option Addr (gm_get (peers m) x)" for k r t and m :: "callback membership"
    by (cases "x = k") (simp_all add: ping_simps option.map_comp comp_def)
  then have "\<And>k r t m calls. ping_update k r t (n_ms n) = (m, calls) \<Longrightarrow> map_option Addr (gm_get (peers m) x) = addr_book n x"
    unfolding addr_book_def by (metis fst_conv)
  with loop_step_effect [OF assms] show ?thesis by (auto simp: node_heart_def addr_book_def)
qed

text \<open>A step keeps the engine and the address book, and its pushes come from a worker's job.\<close>

lemma node_step_log:
  assumes "node_step sha1 sha256 env strict s s'" and "table_ok (n_ms (fst s))" and "0 \<le> maxRetries (n_engine (fst s))"
  shows "n_engine (fst s') = n_engine (fst s) \<and> addr_book (fst s') = addr_book (fst s)
    \<and> (\<forall>x \<in> set (n_log (fst s')). x \<in> set (n_log (fst s))
        \<or> (\<exists>j \<in> pool_jobs (n_pool (fst s)). carries j x) \<and> (\<forall>a c d. x = Push a c d \<longrightarrow> (\<exists>y. addr_book (fst s) y = Some a)))"
  using assms(1)
proof cases
  case (heart n calls h fs)
  then show ?thesis using loop_step_book [OF heart(4)] by (auto simp: addr_book_def put_heart_def)
next
  case (work n i j ord results cancels outs log fs)
  have tbl: "table_ok (n_ms n)" using assms(2) work(1) by simp
  have j: "j \<in> pool_jobs (n_pool n)" using nth_mem [OF work(4)] work(5) by (simp add: pool_jobs_def)
  have book: "\<exists>y. addr_book n y = Some a" if "AddrFor ord (n_ms n) x = (a, True)" for x a
    using that unfolding AddrFor_table [OF tbl work(6)] by (auto simp: addr_book_def split: option.splits)
  have "0 \<le> maxRetries (n_engine n)" using assms(3) work(1) by simp
  note R = replicate_job_pushes [OF work(7) this]
  have "x \<in> set (n_log n) \<or> (\<exists>j \<in> pool_jobs (n_pool n). carries j x) \<and> (\<forall>a c d. x = Push a c d \<longrightarrow> (\<exists>y. addr_book n y = Some a))"
    if "x \<in> set log" for x
    using R [OF that] j book by blast
  then show ?thesis unfolding work(1,2) by (simp add: addr_book_def fun_eq_iff)
qed (auto simp: addr_book_def put_heart_def node_heart_def elim!: ticker_step.cases simp: membership_Stop_def split: if_splits)

lemma node_run_log:
  assumes "(node_step sha1 sha256 env strict)\<^sup>*\<^sup>* s s'" and "\<forall>b. sha256 b \<noteq> []" and "store_ok sha256 s"
    and "node_inv sha1 U selfID (fst s)" and "0 \<le> maxRetries (n_engine (fst s))" and "n_log (fst s) = []"
  shows "n_engine (fst s') = n_engine (fst s) \<and> addr_book (fst s') = addr_book (fst s)
    \<and> (\<forall>x \<in> set (n_log (fst s')). push_ok sha256 (addr_book (fst s)) x)"
  using assms(1)
proof (induction rule: rtranclp_induct)
  case (step s1 s2)
  have "store_ok sha256 s1" using node_run_store [OF step.hyps(1) assms(2,3)] by simp
  then have J: "j \<in> pool_jobs (n_pool (fst s1)) \<Longrightarrow> intact sha256 j" for j by (auto simp: store_ok_def)
  have "node_inv sha1 U selfID (fst s1)" using node_reach_inv [OF step.hyps(1) assms(4)] by simp
  then have "table_ok (n_ms (fst s1))" using m_sim_table by (auto simp: node_inv_def)
  note L = node_step_log [OF step.hyps(2) this]
  have "push_ok sha256 (addr_book (fst s1)) x"
    if "\<exists>j \<in> pool_jobs (n_pool (fst s1)). carries j x" "\<forall>a c d. x = Push a c d \<longrightarrow> (\<exists>y. addr_book (fst s1) y = Some a)" for x
    using that J by (cases x) (auto simp: push_ok_def carries_def intact_def)
  with step.IH L assms(5) show ?case by metis
qed (use assms(6) in simp)

section \<open>Shutdown during a repair pass\<close>

text \<open>A pass under way when the queue is closed ends the process at the next chunk it owns.\<close>

lemma closed_pass_panics:
  assumes "localfs_inv (n_local n) fs" and "no_faults fs" and "\<not> p_panicked (n_pool n)" and "p_closed (n_pool n)"
    and "n_passes n = [\<lparr>ps_ids = ids, ps_send = None\<rparr>]"
    and "\<forall>c \<in> set ids. localfs_stored (n_local n) fs c \<noteq> None"
    and "\<exists>c \<in> set ids. man_selfID (n_rec n) \<in> set (node_targets sha1 n 0 c)"
  shows "\<exists>n' fs'. (node_step sha1 sha256 env strict)\<^sup>*\<^sup>* (n, fs) (n', fs') \<and> p_panicked (n_pool n') \<and> n_phase n' = n_phase n"
  using assms
proof (induction ids arbitrary: n fs)
  case (Cons c ids)
  let ?step = "node_step sha1 sha256 env strict"
  obtain jobs fs1 where r: "repair_loop (man_selfID (n_rec n)) (LocalFS (n_local n)) (node_targets sha1 n) 0 [c] fs = (jobs, fs1)"
    by fastforce
  have c: "localfs_stored (n_local n) fs c \<noteq> None" using Cons.prems(6) by simp
  note R = lfs.repair_chunk [OF Cons.prems(1) c r]
  let ?n1 = "n\<lparr>n_passes := [\<lparr>ps_ids = ids, ps_send = (case jobs of [] \<Rightarrow> None | j # js \<Rightarrow> Some j)\<rparr>]\<rparr>"
  have s1: "?step (n, fs) (?n1, fs1)"
    using node_step.pass_chunk [of n "[]" c ids "[]" sha1 fs jobs fs1] Cons.prems(3,5) r by simp
  show ?case
  proof (cases jobs)
    case Nil
    then have "man_selfID (n_rec n) \<notin> set (node_targets sha1 n 0 c)" using R Cons.prems(2) by auto
    with Cons.prems(7) have "\<exists>c \<in> set ids. man_selfID (n_rec n) \<in> set (node_targets sha1 n 0 c)" by auto
    moreover have "node_targets sha1 ?n1 = node_targets sha1 n" by (simp add: node_targets_def fun_eq_iff)
    ultimately have "\<exists>n' fs'. ?step\<^sup>*\<^sup>* (?n1, fs1) (n', fs') \<and> p_panicked (n_pool n') \<and> n_phase n' = n_phase ?n1"
      by (intro Cons.IH) (use Cons.prems R Nil in auto)
    with s1 show ?thesis by (auto intro: converse_rtranclp_into_rtranclp)
  next
    case (Cons j js)
    have "?step (?n1, fs1) (?n1\<lparr>n_pool := (n_pool ?n1)\<lparr>p_panicked := True\<rparr>\<rparr>, fs1)"
      by (rule node_step.pass_panics [where xs = "[]" and ids = ids and j = j and ys = "[]"])
         (use Cons.prems(3,4) Cons in simp_all)
    with s1 have "?step\<^sup>*\<^sup>* (n, fs) (?n1\<lparr>n_pool := (n_pool ?n1)\<lparr>p_panicked := True\<rparr>\<rparr>, fs1)"
      by (rule converse_rtranclp_into_rtranclp [OF _ r_into_rtranclp])
    then show ?thesis by (intro exI conjI, assumption) simp_all
  qed
qed simp

lemma shutdown_steps:
  assumes "n_phase n = Running" and "\<not> p_panicked (n_pool n)" and "\<not> p_closed (n_pool n)" and "\<not> n_stopped n"
  shows "(node_step sha1 sha256 env strict)\<^sup>*\<^sup>* (n, fs)
    (n\<lparr>n_stopped := True, n_pool := (n_pool n)\<lparr>p_closed := True\<rparr>, n_phase := EngineStopped\<rparr>, fs)"
proof -
  let ?step = "node_step sha1 sha256 env strict" and ?n1 = "n\<lparr>n_phase := ServerDown\<rparr>"
  let ?n2 = "n\<lparr>n_stopped := True, n_phase := MembershipStopped\<rparr>" and ?n3 = "n\<lparr>n_stopped := True, n_phase := ContextCancelled\<rparr>"
  have s1: "?step (n, fs) (?n1, fs)" by (rule node_step.http_shutdown) (use assms in simp_all)
  have "membership_Stop (node_heart ?n1) = Some ((node_heart ?n1)\<lparr>h_stopped := True\<rparr>)"
    using assms(4) by (simp add: membership_Stop_def node_heart_def)
  from node_step.membership_stop [OF _ _ this, of sha1 sha256 env strict fs] assms(2)
  have s2: "?step (?n1, fs) (?n2, fs)" by (cases n) (simp add: put_heart_def node_heart_def)
  have s3: "?step (?n2, fs) (?n3, fs)" using node_step.cancel [of ?n2 sha1 sha256 env strict fs] assms(2) by simp
  have "pool_step (n_pool ?n3) ((n_pool n)\<lparr>p_closed := True\<rparr>)" using pool_step.close [of "n_pool n"] assms(2,3) by simp
  from node_step.engine_stop [OF _ this, of sha1 sha256 env strict fs] assms(3)
  have s4: "?step (?n3, fs) (n\<lparr>n_stopped := True, n_pool := (n_pool n)\<lparr>p_closed := True\<rparr>, n_phase := EngineStopped\<rparr>, fs)"
    by (cases n) simp
  from s1 s2 s3 s4 show ?thesis by (meson converse_rtranclp_into_rtranclp r_into_rtranclp)
qed

lemma shutdown_during_pass:
  assumes inv: "localfs_inv (n_local n) fs" "no_faults fs" and run: "n_phase n = Running" "\<not> p_panicked (n_pool n)"
    "\<not> p_closed (n_pool n)" "\<not> n_stopped n" and rep: "n_repairs n = [x]" "n_passes n = []"
    and c: "localfs_stored (n_local n) fs c \<noteq> None" "man_selfID (n_rec n) \<in> set (GetN sha1 (n_ring n) c Factor)"
  shows "\<exists>n' fs'. (node_step sha1 sha256 env strict)\<^sup>*\<^sup>* (n, fs) (n', fs') \<and> n_phase n' = EngineStopped \<and> p_panicked (n_pool n')"
proof -
  let ?step = "node_step sha1 sha256 env strict"
  obtain ids fs1 where l: "b_List (LocalFS (n_local n)) fs = (Inr ids, fs1)"
    using lfs.list_reliable [OF inv] by (metis prod.exhaust)
  note L = lfs.list_inv [OF inv(1) l] lfs.list_ok [OF inv(1) l] lfs.list_reliable [OF inv l]
  let ?n1 = "n\<lparr>n_repairs := [], n_rec := repair_start (n_rec n), n_passes := [\<lparr>ps_ids = ids, ps_send = None\<rparr>]\<rparr>"
  let ?n2 = "?n1\<lparr>n_stopped := True, n_pool := (n_pool ?n1)\<lparr>p_closed := True\<rparr>, n_phase := EngineStopped\<rparr>"
  have s1: "?step (n, fs) (?n1, fs1)"
    using node_step.pass_list [of n "[]" x "[]" fs ids fs1 sha1 sha256 env strict] run rep l by simp
  have s2: "?step\<^sup>*\<^sup>* (?n1, fs1) (?n2, fs1)" using shutdown_steps [of ?n1 sha1 sha256 env strict fs1] run by simp
  have tg: "node_targets sha1 ?n2 i d = GetN sha1 (n_ring n) d Factor" for i d by (simp add: node_targets_def)
  have cin: "c \<in> set ids" using L c(1) by (simp add: domIff)
  have "\<exists>n' fs'. ?step\<^sup>*\<^sup>* (?n2, fs1) (n', fs') \<and> p_panicked (n_pool n') \<and> n_phase n' = n_phase ?n2"
    by (rule closed_pass_panics [where ids = ids])
       (use L c cin run tg in \<open>auto simp: repair_start_def domIff\<close>)
  then obtain n' fs' where s3: "?step\<^sup>*\<^sup>* (?n2, fs1) (n', fs')" "p_panicked (n_pool n')" "n_phase n' = n_phase ?n2"
    by (elim exE conjE)
  from converse_rtranclp_into_rtranclp [OF s1 rtranclp_trans [OF s2 s3(1)]] s3(2,3) show ?thesis by auto
qed

text \<open>A node started with a peer can see it die, with the callback run and its repair pass about to start.\<close>

lemma death_starts_repair:
  assumes "node_main sha1 getenv cfg now clock fs = (Inr n0, fs0)" and "clock_ok now clock"
    and "collision_free sha1 U" and "nodeID cfg \<in> U" and "fst ` set (cfg_peers cfg) \<subseteq> U"
    and "x \<noteq> nodeID cfg" and "x \<in> fst ` set (cfg_peers cfg)"
  shows "\<exists>m t. (node_step sha1 sha256 env True)\<^sup>*\<^sup>* (n0, fs0)
    (n0\<lparr>n_ms := m, n_clock := t, n_ring := RemoveNode x (n_ring n0), n_calls := [(CbAlive, x)], n_repairs := [x]\<rparr>, fs0)"
proof -
  note I = node_main_inv [OF assms(1-5)] and M = node_main_spec [OF assms(1-5)]
  let ?step = "node_step sha1 sha256 env True"
  have np: "\<not> p_panicked (n_pool n0)" using M(14) by (simp add: pool_Start_def)
  have alive: "gm_get (peers (n_ms n0)) y = Some q \<Longrightarrow> peer_State q = StateAlive" for y q
    by (rule initially_alive [OF assms(1-5)])
  from two_rounds [OF I(1) M(19) np M(7) _ I(3) [OF assms(6,7)], of sha256 env True fs0] alive obtain m t where
    r: "?step\<^sup>*\<^sup>* (n0, fs0) (n0\<lparr>n_ms := m, n_clock := t, n_calls := [(CbDead, x), (CbAlive, x)]\<rparr>, fs0)" by blast
  let ?n2 = "n0\<lparr>n_ms := m, n_clock := t, n_calls := [(CbDead, x), (CbAlive, x)]\<rparr>"
  have "?step (?n2, fs0)
      (n0\<lparr>n_ms := m, n_clock := t, n_ring := RemoveNode x (n_ring n0), n_calls := [(CbAlive, x)], n_repairs := [x]\<rparr>, fs0)"
    using node_step.callback [of ?n2 "[]" CbDead x "[(CbAlive, x)]" True "\<lambda>l. l" sha1 "RemoveNode x (n_ring n0)" "[x]" sha256 env fs0] M(8) np
    by (simp add: range_order_id handler_run_def HandleNodeDead_def)
  with r show ?thesis by (meson rtranclp.rtrancl_into_rtrancl)
qed

text \<open>A repair pass over one chunk can run through to the push at a replica.\<close>

lemma replicate_job_reaches:
  assumes "replicate_job sha1 e (script_env results cancels) af r j log = (out, log')" and "0 \<le> maxRetries e"
    and "y \<in> set (GetN sha1 r (ChunkID j) Factor)" and "y \<noteq> eng_selfID e" and "af y = (a, True)"
  shows "Push a (ChunkID j) (Data j) \<in> set log'"
proof -
  let ?ts = "GetN sha1 r (ChunkID j) Factor"
  obtain ds ns where D: "log' = log @ ds" "list_all (carries j) ds" "length ns = length (addressed e af ?ts)"
    "pushed_to ds = concat (map (\<lambda>(n, a). replicate (Suc n) a) (zip ns (addressed e af ?ts)))"
    using replicate_loop_spec [OF assms(2)] assms(1) unfolding replicate_job_def by blast
  have "a \<in> set (addressed e af ?ts)" using assms(3-5) by (force simp: addressed_def)
  then have "a \<in> set (pushed_to ds)" unfolding D(4) set_repeated [OF D(3)] .
  then obtain c d where p: "Push a c d \<in> set ds" by (auto simp: pushed_to_def split: effect.splits)
  with D(2) have "c = ChunkID j" "d = Data j" by (auto simp: list_all_iff carries_def)
  with p D(1) show ?thesis by simp
qed

lemma work_pushes:
  assumes "\<not> p_panicked (n_pool n)" and "p_workers (n_pool n) = Idle # ws" and "p_queue (n_pool n) = [j]" and "p_senders (n_pool n) = []"
    and "table_ok (n_ms n)" and "0 \<le> maxRetries (n_engine n)"
    and "y \<in> set (GetN sha1 (n_ring n) (ChunkID j) Factor)" and "y \<noteq> eng_selfID (n_engine n)" and "addr_book n y = Some a"
  shows "\<exists>n'. (node_step sha1 sha256 env strict)\<^sup>*\<^sup>* (n, fs) (n', fs) \<and> Push a (ChunkID j) (Data j) \<in> set (n_log n')"
proof -
  let ?step = "node_step sha1 sha256 env strict"
  let ?p1 = "(n_pool n)\<lparr>p_queue := [], p_workers := Busy j # ws\<rparr>"
  let ?n1 = "n\<lparr>n_pool := ?p1\<rparr>"
  have "pool_step (n_pool n) ?p1" using pool_step.receive [of "n_pool n" j "[]" 0] assms(1-3) by simp
  then have s1: "?step (n, fs) (?n1, fs)" by (rule node_step.queue) (use assms(4) in simp_all)
  obtain outs log where r: "replicate_job sha1 (n_engine ?n1) (script_env (\<lambda>i. None) (\<lambda>i. False)) (AddrFor (\<lambda>l. l) (n_ms ?n1)) (n_ring ?n1) j (n_log ?n1)
      = (outs, log)" by fastforce
  have "AddrFor (\<lambda>l. l) (n_ms n) y = (a, True)"
    using assms(9) unfolding AddrFor_table [OF assms(5) range_order_id] addr_book_def by (auto split: option.splits)
  with replicate_job_reaches [OF r] assms(6-8) have "Push a (ChunkID j) (Data j) \<in> set log" by simp
  moreover have "?step (?n1, fs)
      (?n1\<lparr>n_log := log, n_pool := (n_pool ?n1)\<lparr>p_workers := (p_workers (n_pool ?n1))[0 := Idle], finished := finished (n_pool ?n1) @ [j]\<rparr>\<rparr>, fs)"
    by (rule node_step.work [OF _ _ _ range_order_id r]) (use assms(1) in simp_all)
  ultimately show ?thesis using s1
    by (intro exI [where x = "?n1\<lparr>n_log := log, n_pool := (n_pool ?n1)\<lparr>p_workers := (p_workers (n_pool ?n1))[0 := Idle],
        finished := finished (n_pool ?n1) @ [j]\<rparr>\<rparr>"]) (auto intro: rtranclp.rtrancl_into_rtrancl)
qed

lemma repair_pushes:
  assumes inv: "localfs_inv (n_local n) fs" "no_faults fs" and rep: "n_repairs n = [x]" "n_passes n = []"
    and pool: "n_pool n = pool_Start (n_engine n)" "0 < eng_workers (n_engine n)" "0 \<le> maxRetries (n_engine n)"
    and c: "localfs_stored (n_local n) fs = [c \<mapsto> d]" "man_selfID (n_rec n) \<in> set (GetN sha1 (n_ring n) c Factor)"
    and y: "y \<in> set (GetN sha1 (n_ring n) c Factor)" "y \<noteq> eng_selfID (n_engine n)" "addr_book n y = Some a" "table_ok (n_ms n)"
  shows "\<exists>n' fs'. (node_step sha1 sha256 env strict)\<^sup>*\<^sup>* (n, fs) (n', fs') \<and> Push a c d \<in> set (n_log n')"
proof -
  let ?step = "node_step sha1 sha256 env strict"
  obtain ids fs1 where l: "b_List (LocalFS (n_local n)) fs = (Inr ids, fs1)"
    using lfs.list_reliable [OF inv] by (metis prod.exhaust)
  note L = lfs.list_inv [OF inv(1) l] lfs.list_ok [OF inv(1) l] lfs.list_reliable [OF inv l]
  have "set ids = {c}" using L c(1) by simp
  then obtain rest where ids: "ids = c # rest" by (cases ids) auto
  let ?n1 = "n\<lparr>n_repairs := [], n_rec := repair_start (n_rec n), n_passes := [\<lparr>ps_ids = ids, ps_send = None\<rparr>]\<rparr>"
  have np: "\<not> p_panicked (n_pool n)" using pool by (simp add: pool_Start_def)
  have s1: "?step (n, fs) (?n1, fs1)"
    using node_step.pass_list [of n "[]" x "[]" fs ids fs1 sha1 sha256 env strict] np rep l by simp
  obtain jobs fs2 where r: "repair_loop (man_selfID (n_rec ?n1)) (LocalFS (n_local ?n1)) (node_targets sha1 ?n1) 0 [c] fs1 = (jobs, fs2)"
    by fastforce
  have tg: "man_selfID (n_rec ?n1) \<in> set (node_targets sha1 ?n1 0 c)" using c(2) by (simp add: node_targets_def repair_start_def)
  have "localfs_stored (n_local ?n1) fs1 c \<noteq> None" "localfs_inv (n_local ?n1) fs1" using L c(1) by simp_all
  note R = lfs.repair_chunk [OF this(2,1) r]
  then obtain j js where jobs: "jobs = j # js" using L tg by (cases jobs) auto
  have "localfs_stored (n_local n) fs1 (ChunkID j) = Some (Data j)" using R jobs by simp
  then have j: "ChunkID j = c" "Data j = d" using L c(1) by (auto split: if_splits)
  let ?n2 = "?n1\<lparr>n_passes := [\<lparr>ps_ids = rest, ps_send = Some j\<rparr>]\<rparr>"
  have s2: "?step (?n1, fs1) (?n2, fs2)"
    using node_step.pass_chunk [of ?n1 "[]" c rest "[]" sha1 fs1 jobs fs2] r np jobs ids by simp
  let ?n3 = "?n2\<lparr>n_passes := [\<lparr>ps_ids = rest, ps_send = None\<rparr>], n_pool := (n_pool n)\<lparr>p_queue := [j], accepted := [j]\<rparr>\<rparr>"
  have s3: "?step (?n2, fs2) (?n3, fs2)"
    using node_step.pass_send [of ?n2 "[]" rest j "[]" sha1 sha256 env strict fs2] pool by (simp add: pool_Start_def queue_cap_def)
  have ns: "p_senders (n_pool n) = []" using pool(1) by (simp add: pool_Start_def)
  obtain ws where ws: "p_workers (n_pool n) = Idle # ws"
    using pool by (cases "nat (eng_workers (n_engine n))") (auto simp: pool_Start_def)
  have s4: "\<exists>n'. ?step\<^sup>*\<^sup>* (?n3, fs2) (n', fs2) \<and> Push a (ChunkID j) (Data j) \<in> set (n_log n')"
    by (rule work_pushes [where y = y and ws = ws]) (use np ws ns pool(3) y j in \<open>simp_all add: addr_book_def\<close>)
  have "?step\<^sup>*\<^sup>* (n, fs) (?n3, fs2)"
    by (rule converse_rtranclp_into_rtranclp [OF s1 converse_rtranclp_into_rtranclp [OF s2 r_into_rtranclp [of ?step, OF s3]]])
  from rtranclp_trans [OF this] s4 j show ?thesis by blast
qed

text \<open>A node that starts on a directory that holds a store finds its chunks.\<close>

lemma NewLocalFS_existing:
  assumes "localfs_inv l fs" and "no_faults fs"
  shows "\<exists>fs'. NewLocalFS (root l) fs = (Inr \<lparr>root = root l\<rparr>, fs') \<and> tree fs' = tree fs \<and> no_faults fs'"
proof -
  obtain f fs1 where f: "next_fault fs = (f, fs1)" by fastforce
  note F = next_fault_spec [OF f]
  have "\<forall>q \<in> set (prefixes (Join [root l])). gm_get (tree fs1) q = Some FDir"
    using assms(1) F by (simp add: localfs_inv_def tree_inv_def)
  from mkdirs_dirs [OF this, of "[]"] have "mkdirs (prefixes (Join [root l])) (tree fs1) = (None, tree fs1)" by simp
  moreover have "f = None" "no_faults fs1" "tree fs1 = tree fs" using F assms(2) by simp_all
  ultimately show ?thesis using f by (simp add: NewLocalFS_def os_MkdirAll_def)
qed

section \<open>Properties\<close>


text \<open>A start on a directory with one chunk.\<close>

definition stored_fs :: fsys where
  "stored_fs = snd (LocalFS_Put sample_localfs (ID sample_sha256 [7, 8]) [7, 8] sample_fs)"

lemma stored_fs_spec:
  "localfs_inv sample_localfs stored_fs" "no_faults stored_fs"
  "localfs_stored sample_localfs stored_fs = [ID sample_sha256 [7, 8] \<mapsto> [7, 8]]"
proof -
  have ok: "ok_id (ID sample_sha256 [7, 8])" by (rule ok_id_ID) (simp add: sample_sha256_def)
  obtain e where p: "LocalFS_Put sample_localfs (ID sample_sha256 [7, 8]) [7, 8] sample_fs = (e, stored_fs)"
    unfolding stored_fs_def by (metis prod.collapse)
  have b: "b_Put (LocalFS sample_localfs) (ID sample_sha256 [7, 8]) [7, 8] sample_fs = (e, stored_fs)" using p by simp
  note R = lfs.put_reliable [OF sample_fs_inv(1) ok sample_fs_inv(2) b]
  then show "localfs_inv sample_localfs stored_fs" "no_faults stored_fs"
    using lfs.put_inv [OF sample_fs_inv(1) ok b] by simp_all
  show "localfs_stored sample_localfs stored_fs = [ID sample_sha256 [7, 8] \<mapsto> [7, 8]]"
    using lfs.put_ok [OF sample_fs_inv(1) ok] b R by (simp add: sample_store_empty)
qed

lemma stored_start:
  "\<exists>n fs0. node_main sample_sha1 (\<lambda>k. '''') sample_config 0 int stored_fs = (Inr n, fs0)
     \<and> n_local n = sample_localfs \<and> localfs_inv sample_localfs fs0 \<and> no_faults fs0
     \<and> localfs_stored sample_localfs fs0 = [ID sample_sha256 [7, 8] \<mapsto> [7, 8]]"
proof -
  obtain fs0 where l: "NewLocalFS (root sample_localfs) stored_fs = (Inr \<lparr>root = root sample_localfs\<rparr>, fs0)"
    "tree fs0 = tree stored_fs" "no_faults fs0"
    using NewLocalFS_existing [OF stored_fs_spec(1,2)] by blast
  have d: "dataDir sample_config = root sample_localfs" by (simp add: sample_config_peers sample_localfs_def)
  from node_main_ok [of sample_config, unfolded d, OF l(1)] obtain n where
    n: "node_main sample_sha1 (\<lambda>k. '''') sample_config 0 int stored_fs = (Inr n, fs0)" by blast
  have "root (n_local n) = root sample_localfs"
    using node_main_spec(15) [OF n sample_clock sample_collision_free sample_letters] d by simp
  then have "n_local n = sample_localfs" by simp
  with n l stored_fs_spec localfs_same_tree [OF l(2), of sample_localfs] show ?thesis by auto
qed

text \<open>After the death of one of its two peers the sample node owns its chunk together with the other.\<close>

lemma sample_targets:
  assumes "node_main sample_sha1 (\<lambda>k. '''') sample_config 0 int stored_fs = (Inr n0, fs0)"
  shows "set (GetN sample_sha1 (RemoveNode ''b'' (n_ring n0)) (ID sample_sha256 [7, 8]) Factor) = {''a'', ''c''}"
proof -
  note M = node_main_spec [OF assms sample_clock sample_collision_free sample_letters]
  let ?r = "RemoveNode ''b'' (n_ring n0)"
  have inv: "ring_inv sample_sha1 letter_nodes ?r" by (rule hr.inv_remove [OF M(1)])
  have set: "ring_set ?r = {''a'', ''c''}"
    using hr.members_remove [OF M(1), of "''b''"] M(2) unfolding sample_config_peers by auto
  let ?ts = "GetN sample_sha1 ?r (ID sample_sha256 [7, 8]) Factor"
  have "length ?ts = card (ring_set ?r)"
    using hr.getn_length [OF inv, of _ Factor] set by (simp add: Factor_def)
  then have "card (set ?ts) = card (ring_set ?r)" using hr.getn_distinct [OF inv] by (simp add: distinct_card)
  then have "set ?ts = ring_set ?r" using hr.getn_members [OF inv] set by (intro card_subset_eq) simp_all
  with set show ?thesis by simp
qed

lemma sample_push:
  assumes n: "node_main sample_sha1 (\<lambda>k. '''') sample_config 0 int stored_fs = (Inr n0, fs0)"
    "n_local n0 = sample_localfs" "localfs_inv sample_localfs fs0" "no_faults fs0"
    "localfs_stored sample_localfs fs0 = [ID sample_sha256 [7, 8] \<mapsto> [7, 8]]"
  shows "\<exists>n fs'. (node_step sample_sha1 sample_sha256 env True)\<^sup>*\<^sup>* (n0, fs0) (n, fs')
    \<and> Push ''c:80'' (ID sample_sha256 [7, 8]) [7, 8] \<in> set (n_log n)"
proof -
  let ?step = "node_step sample_sha1 sample_sha256 env True"
  note U = n(1) sample_clock sample_collision_free sample_letters
  note I = node_main_inv [OF U] and M = node_main_spec [OF U] and T = sample_targets [OF n(1)]
  have x: "''b'' \<noteq> nodeID sample_config" "''b'' \<in> fst ` set (cfg_peers sample_config)" unfolding sample_config_peers by simp_all
  obtain m t where r: "?step\<^sup>*\<^sup>* (n0, fs0) (n0\<lparr>n_ms := m, n_clock := t, n_ring := RemoveNode ''b'' (n_ring n0),
      n_calls := [(CbAlive, ''b'')], n_repairs := [''b'']\<rparr>, fs0)"
    using death_starts_repair [OF U x] by blast
  let ?n3 = "n0\<lparr>n_ms := m, n_clock := t, n_ring := RemoveNode ''b'' (n_ring n0), n_calls := [(CbAlive, ''b'')], n_repairs := [''b'']\<rparr>"
  have ok: "store_ok sample_sha256 (n0, fs0)"
    using n M(14,17,22) by (simp add: store_ok_def pool_jobs_def pool_Start_def verified_def Verify_def)
  have s: "\<forall>b. sample_sha256 b \<noteq> []" by (simp add: sample_sha256_def)
  have e: "n_engine n0 = NewEngine ''a'' (repWorkers sample_config)" using M(13) sample_config_peers(1) by simp
  have "addr_book ?n3 = addr_book n0"
    using node_run_log [OF r s ok, unfolded fst_conv, OF I(1)] e M(21) by (simp add: NewEngine_def)
  moreover have "addr_book n0 ''c'' = Some ''c:80''"
    using M(10) [of "''c''"] unfolding sample_config_peers addr_book_def by (cases "gm_get (peers (n_ms n0)) ''c''") simp_all
  moreover have "table_ok (n_ms ?n3)"
  proof -
    have "node_inv sample_sha1 letter_nodes (nodeID sample_config) ?n3"
      using node_reach_inv [OF r] I(1) unfolding fst_conv by blast
    then obtain H where "m_sim (n_clock ?n3) H (n_ms ?n3)" unfolding node_inv_def by blast
    then show ?thesis by (rule m_sim_table)
  qed
  ultimately have "\<exists>n fs'. ?step\<^sup>*\<^sup>* (?n3, fs0) (n, fs') \<and> Push ''c:80'' (ID sample_sha256 [7, 8]) [7, 8] \<in> set (n_log n)"
    using n e M(8,12,14,17) T sample_config_peers(1)
    by (intro repair_pushes [where x = "''b''" and y = "''c''"]) (simp_all add: NewEngine_def manager_New_def)
  with r show ?thesis by (meson rtranclp_trans)
qed




text \<open>
  C11. Reads change nothing. Every request whose method is neither POST nor PUT, whatever its path
  and whatever the peers and the cold tier answer, is served: it hands no job to the engine, leaves the
  manifests, the ring and the table of the server as they are, and not a file of the store changes.
\<close>

theorem reads_change_nothing:
  assumes "Local srv = LocalFS l" and "req_Method rq \<notin> {''POST'', ''PUT''}"
  shows "\<exists>io'. ServeHTTP sha1 sha256 rings ord ord' http_Get fmt_time q rec rq srv io = Some (io', [], srv)
    \<and> tree (io_local io') = tree (io_local io)"
proof (cases "Routes (req_Method rq) (req_segs rq)")
  case (RDownload path)
  obtain io' err where d: "handleDownloadBlob sha1 sha256 ord' http_Get srv path io = (io', err)" by fastforce
  from download_tree [OF assms(1) d] d RDownload show ?thesis by (simp add: ServeHTTP_def)
next
  case (RGetChunk cid)
  obtain w fs' where d: "handleGetChunk cid (io_resp io) srv (io_local io) = (w, fs')" by fastforce
  from get_chunk_tree [OF assms(1) d] d RGetChunk show ?thesis by (simp add: ServeHTTP_def)
qed (use assms(2) in \<open>auto simp: ServeHTTP_def Let_def Routes_def split: if_splits\<close>)

lemma reads_change_nothing_witness:
  "\<exists>io'. ServeHTTP sample_sha1 sample_sha256 (\<lambda>i. sample_ring) rev rev (\<lambda>url n. (Inl EOF, n)) (\<lambda>t. '''')
      (pool_Start (NewEngine ''self'' 4)) (manager_New ''self'') \<lparr>req_Method = ''GET'', req_segs = [''blobs'', ''x''], req_Body = []\<rparr>
      downloading_server sample_io = Some (io', [], downloading_server)
    \<and> tree (io_local io') = tree sample_fs"
  using reads_change_nothing [of downloading_server sample_localfs "\<lparr>req_Method = ''GET'', req_segs = [''blobs'', ''x''], req_Body = []\<rparr>"
      sample_sha1 sample_sha256 "\<lambda>i. sample_ring" rev rev "\<lambda>url n. (Inl EOF, n)" "\<lambda>t. ''''" "pool_Start (NewEngine ''self'' 4)"
      "manager_New ''self''" sample_io]
  by (simp add: downloading_server_def sample_io_def)

text \<open>
  C35. A shutdown during a repair pass ends in a panic. A peer of a node with a stored chunk dies; its
  callback starts a repair pass, and the pass has listed the store when the process is told to stop. The
  shutdown waits for no pass: it closes the queue, and the pass, at the first chunk it owns on the
  shrunken ring, sends on the closed channel. The queue is not drained any more.
\<close>

theorem shutdown_panics_repair:
  assumes "node_main sha1 getenv cfg now clock fs = (Inr n0, fs0)" and "clock_ok now clock"
    and "collision_free sha1 U" and "nodeID cfg \<in> U" and "fst ` set (cfg_peers cfg) \<subseteq> U"
    and "x \<noteq> nodeID cfg" and "x \<in> fst ` set (cfg_peers cfg)"
    and "localfs_inv (n_local n0) fs0" and "no_faults fs0" and "localfs_stored (n_local n0) fs0 c \<noteq> None"
    and "nodeID cfg \<in> set (GetN sha1 (RemoveNode x (n_ring n0)) c Factor)"
  shows "\<exists>n fs'. (node_step sha1 sha256 env True)\<^sup>*\<^sup>* (n0, fs0) (n, fs') \<and> n_phase n = EngineStopped \<and> p_panicked (n_pool n)"
proof -
  note M = node_main_spec [OF assms(1-5)]
  let ?step = "node_step sha1 sha256 env True"
  have np: "\<not> p_panicked (n_pool n0)" "\<not> p_closed (n_pool n0)" using M(14) by (simp_all add: pool_Start_def)
  obtain m t where r: "?step\<^sup>*\<^sup>* (n0, fs0) (n0\<lparr>n_ms := m, n_clock := t, n_ring := RemoveNode x (n_ring n0),
      n_calls := [(CbAlive, x)], n_repairs := [x]\<rparr>, fs0)"
    using death_starts_repair [OF assms(1-7)] by blast
  let ?n3 = "n0\<lparr>n_ms := m, n_clock := t, n_ring := RemoveNode x (n_ring n0), n_calls := [(CbAlive, x)], n_repairs := [x]\<rparr>"
  have "\<exists>n fs'. ?step\<^sup>*\<^sup>* (?n3, fs0) (n, fs') \<and> n_phase n = EngineStopped \<and> p_panicked (n_pool n)"
    by (rule shutdown_during_pass [where x = x and c = c]) (use assms M np in \<open>simp_all add: manager_New_def\<close>)
  then show ?thesis using r by (meson rtranclp_trans)
qed

lemma shutdown_panics_repair_witness:
  "\<forall>env. \<exists>n0 fs0 n fs'. node_main sample_sha1 (\<lambda>k. '''') sample_config 0 int stored_fs = (Inr n0, fs0)
     \<and> (node_step sample_sha1 sample_sha256 env True)\<^sup>*\<^sup>* (n0, fs0) (n, fs') \<and> n_phase n = EngineStopped \<and> p_panicked (n_pool n)"
proof -
  obtain n0 fs0 where n: "node_main sample_sha1 (\<lambda>k. '''') sample_config 0 int stored_fs = (Inr n0, fs0)"
    "n_local n0 = sample_localfs" "localfs_inv sample_localfs fs0" "no_faults fs0"
    "localfs_stored sample_localfs fs0 = [ID sample_sha256 [7, 8] \<mapsto> [7, 8]]"
    using stored_start by blast
  note M = node_main_spec [OF n(1) sample_clock sample_collision_free sample_letters]
  have t: "nodeID sample_config \<in> set (GetN sample_sha1 (RemoveNode ''b'' (n_ring n0)) (ID sample_sha256 [7, 8]) Factor)"
    unfolding sample_targets [OF n(1)] by (simp add: sample_config_peers)
  have x: "''b'' \<noteq> nodeID sample_config" "''b'' \<in> fst ` set (cfg_peers sample_config)" unfolding sample_config_peers by simp_all
  have st: "localfs_inv (n_local n0) fs0" "localfs_stored (n_local n0) fs0 (ID sample_sha256 [7, 8]) \<noteq> None"
    using n by simp_all
  from shutdown_panics_repair [OF n(1) sample_clock sample_collision_free sample_letters x st(1) n(4) st(2) t]
  show ?thesis using n(1) by blast
qed

end
