(* ===== verification/Uploads.thy ===== *)
theory Uploads
  imports NodeStore
begin

text \<open>
  Uploads in a running node: what the recorded manifests say about the replication queue while uploads,
  repair passes and the workers run side by side, and that the steps of an upload that nobody disturbs
  are the handler of \<^verbatim>\<open>internal/api/server.go\<close>.
\<close>

section \<open>The queue of a node\<close>

text \<open>A node's queue behaves as the engine's, with the passes and uploads as the callers of Enqueue.\<close>

lemma pool_inv_append:
  "pool_inv e p \<Longrightarrow> \<not> p_closed p \<Longrightarrow> length (p_queue p) < queue_cap \<Longrightarrow>
     pool_inv e (p\<lparr>p_queue := p_queue p @ [j], accepted := accepted p @ [j]\<rparr>)"
  by (auto simp: pool_inv_def)

lemma node_step_pool:
  assumes "node_step sha1 sha256 env strict s s'" and "pool_inv (n_engine (fst s)) (n_pool (fst s))"
  shows "n_engine (fst s') = n_engine (fst s) \<and> pool_inv (n_engine (fst s')) (n_pool (fst s'))
    \<and> set (accepted (n_pool (fst s))) \<subseteq> set (accepted (n_pool (fst s')))"
  using assms(1)
proof cases
  case (pass_send n xs ids j ys fs)
  with assms(2) pool_inv_append [OF _ pass_send(5,6)] show ?thesis by auto
next
  case (upload_send n xs b mf cs j ys fs)
  with assms(2) pool_inv_append [OF _ upload_send(5,6)] show ?thesis by auto
next
  case (queue n p' fs)
  have "set (accepted (n_pool n)) \<subseteq> set (accepted p')" using queue(3) by (cases rule: pool_step.cases) auto
  with queue assms(2) pool_step_inv [OF queue(3)] show ?thesis by simp
next
  case (work n i j ord results cancels outs log fs)
  with assms(2) pool_step_inv [OF pool_step.finish [OF work(3-5)]] show ?thesis by simp
next
  case (engine_stop n p' fs)
  have "set (accepted (n_pool n)) \<subseteq> set (accepted p')" using engine_stop(4) by (cases rule: pool_step.cases) auto
  with engine_stop assms(2) pool_step_inv [OF engine_stop(4)] show ?thesis by simp
qed (use assms(2) in \<open>auto simp: put_heart_def pool_inv_def\<close>)

section \<open>Manifests and accepted jobs\<close>

text \<open>
  A manifest that splitting a body gave, all of whose chunks are still to come or among the jobs.
\<close>

definition from_upload :: "(bytes \<Rightarrow> bytes) \<Rightarrow> string \<Rightarrow> manifest \<Rightarrow> chunk list \<Rightarrow> job set \<Rightarrow> bool" where
  "from_upload sha256 b mf rest acc \<longleftrightarrow> (\<exists>body chunks. Split sha256 b body DefaultSize = Some (Inr (chunks, mf))
     \<and> (\<forall>c \<in> set chunks. c \<in> set rest \<or> job_of c \<in> acc))"

definition uploads_inv :: "(bytes \<Rightarrow> bytes) \<Rightarrow> node \<Rightarrow> bool" where
  "uploads_inv sha256 n \<longleftrightarrow>
     (\<forall>b mf. gm_get (n_manifests n) b = Some mf \<longrightarrow> from_upload sha256 b mf [] (set (accepted (n_pool n))))
     \<and> (\<forall>u \<in> set (n_uploads n).
          from_upload sha256 (up_id u) (up_manifest u) (up_chunks u) (set (accepted (n_pool n)) \<union> set_option (up_send u)))"

lemma from_upload_mono: "from_upload sha256 b mf cs acc \<Longrightarrow> set cs \<subseteq> set cs' \<Longrightarrow> acc \<subseteq> acc' \<Longrightarrow> from_upload sha256 b mf cs' acc'"
  unfolding from_upload_def by blast

lemma from_upload_chunk: "from_upload sha256 b mf (ch # cs) acc \<Longrightarrow> from_upload sha256 b mf cs (insert (job_of ch) acc)"
  unfolding from_upload_def by fastforce

lemma uploads_inv_grow:
  assumes "uploads_inv sha256 n" and "n_manifests n' = n_manifests n" and "set (n_uploads n') \<subseteq> set (n_uploads n)"
    and "set (accepted (n_pool n)) \<subseteq> set (accepted (n_pool n'))"
  shows "uploads_inv sha256 n'"
proof -
  have "set (accepted (n_pool n)) \<union> x \<subseteq> set (accepted (n_pool n')) \<union> x" for x using assms(4) by blast
  then show ?thesis using assms from_upload_mono unfolding uploads_inv_def by (metis order_refl subsetD)
qed

lemma node_step_uploads:
  assumes "node_step sha1 sha256 env strict s s'" and "pool_inv (n_engine (fst s)) (n_pool (fst s))" and "uploads_inv sha256 (fst s)"
  shows "uploads_inv sha256 (fst s')"
proof -
  have acc: "set (accepted (n_pool (fst s))) \<subseteq> set (accepted (n_pool (fst s')))" using node_step_pool [OF assms(1,2)] by simp
  from assms(1) show ?thesis
  proof cases
    case (upload_start n rq path chunks mf fs)
    then have "from_upload sha256 (TrimPrefix path ''/blobs/'') mf chunks (set (accepted (n_pool n)))"
      unfolding from_upload_def by blast
    with upload_start assms(3) show ?thesis by (auto simp: uploads_inv_def)
  next
    case (upload_chunk n xs b mf ch cs ys fs j fs')
    have "j = job_of ch"
      using upload_chunk(5) by (auto simp: upload_loop_Cons upload_loop.simps(1) split: prod.splits option.splits)
    moreover have "from_upload sha256 b mf (ch # cs) (set (accepted (n_pool n)))"
      using assms(3) upload_chunk(1,4) by (auto simp: uploads_inv_def)
    ultimately have "from_upload sha256 b mf cs (insert j (set (accepted (n_pool n))))" using from_upload_chunk by blast
    with upload_chunk assms(3) show ?thesis by (auto simp: uploads_inv_def)
  next
    case (upload_send n xs b mf cs j ys fs)
    have u: "from_upload sha256 b mf cs (insert j (set (accepted (n_pool n))))"
      using assms(3) upload_send(1,4) by (auto simp: uploads_inv_def)
    have "uploads_inv sha256 (n\<lparr>n_uploads := xs @ ys, n_pool := n_pool (fst s')\<rparr>)"
      by (rule uploads_inv_grow [OF assms(3)]) (use upload_send acc in auto)
    with u upload_send show ?thesis by (auto simp: uploads_inv_def)
  next
    case (upload_end n xs b mf ys fs)
    have "from_upload sha256 b mf [] (set (accepted (n_pool n)))"
      using assms(3) upload_end(1,4) by (auto simp: uploads_inv_def)
    with upload_end assms(3) show ?thesis by (auto simp: uploads_inv_def gomap_simps)
  qed (rule uploads_inv_grow [OF assms(3)]; use acc in \<open>auto simp: put_heart_def\<close>)+
qed

lemma node_run_uploads:
  assumes "(node_step sha1 sha256 env strict)\<^sup>*\<^sup>* s s'"
    and "pool_inv (n_engine (fst s)) (n_pool (fst s))" and "uploads_inv sha256 (fst s)"
  shows "pool_inv (n_engine (fst s')) (n_pool (fst s')) \<and> uploads_inv sha256 (fst s')"
  using assms by (induction rule: rtranclp_induct) (use node_step_pool node_step_uploads in blast)+

lemma busy_iff: "j \<in># busy ws \<longleftrightarrow> Busy j \<in> set ws"
proof (induction ws)
  case (Cons w ws)
  then show ?case by (cases w) (auto simp: busy_def)
qed (simp add: busy_def)

section \<open>An undisturbed upload\<close>

text \<open>A node with \<open>u\<close> in the place of its uploads and \<open>jobs\<close> behind those of its queue.\<close>

definition after_upload :: "upload list \<Rightarrow> job list \<Rightarrow> node \<Rightarrow> node" where
  "after_upload us jobs n = n\<lparr>n_uploads := us,
     n_pool := (n_pool n)\<lparr>p_queue := p_queue (n_pool n) @ jobs, accepted := accepted (n_pool n) @ jobs\<rparr>\<rparr>"

lemma after_upload_fields [simp]:
  "n_uploads (after_upload us jobs n) = us" "n_ring (after_upload us jobs n) = n_ring n" "n_local (after_upload us jobs n) = n_local n"
  "n_rec (after_upload us jobs n) = n_rec n" "p_panicked (n_pool (after_upload us jobs n)) = p_panicked (n_pool n)"
  "p_closed (n_pool (after_upload us jobs n)) = p_closed (n_pool n)" "p_queue (n_pool (after_upload us jobs n)) = p_queue (n_pool n) @ jobs"
  "n_manifests (after_upload us jobs n) = n_manifests n"
  "after_upload us' jobs' (after_upload us jobs n) = after_upload us' (jobs @ jobs') n"
  by (simp_all add: after_upload_def)

lemma after_upload_self [simp]: "n_uploads n = us \<Longrightarrow> after_upload us [] n = n"
  by (cases n; cases "n_pool n") (simp add: after_upload_def)

lemma upload_steps:
  assumes "n_uploads n = us @ [\<lparr>up_id = b, up_manifest = mf, up_chunks = cs, up_send = None\<rparr>]"
    and "\<not> p_panicked (n_pool n)" and "\<not> p_closed (n_pool n)" and "length (p_queue (n_pool n)) + length jobs \<le> queue_cap"
    and "upload_loop (man_selfID (n_rec n)) (LocalFS (n_local n)) (\<lambda>i c. GetN sha1 (n_ring n) c Factor) i cs fs = (res, jobs, fs')"
  shows "(node_step sha1 sha256 env strict)\<^sup>*\<^sup>* (n, fs)
    (after_upload (us @ (case res of None \<Rightarrow> [\<lparr>up_id = b, up_manifest = mf, up_chunks = [], up_send = None\<rparr>] | Some e \<Rightarrow> [])) jobs n, fs')"
  using assms
proof (induction cs arbitrary: n fs jobs i)
  case Nil
  then show ?case by (simp add: upload_loop.simps(1))
next
  case (Cons c cs)
  let ?step = "node_step sha1 sha256 env strict" and ?u = "\<lambda>cs s. \<lparr>up_id = b, up_manifest = mf, up_chunks = cs, up_send = s\<rparr>"
  let ?put = "if local_target (man_selfID (n_rec n)) (GetN sha1 (n_ring n) (chunkID c) Factor)
      then b_Put (LocalFS (n_local n)) (chunkID c) (chunkData c) fs else (None, fs)"
  obtain e fs1 where p: "?put = (e, fs1)" by fastforce
  have one: "upload_loop (man_selfID (n_rec n)) (LocalFS (n_local n)) (node_targets sha1 n) 0 [c] fs
      = (case e of None \<Rightarrow> (None, [job_of c], fs1) | Some e \<Rightarrow> (Some e, [], fs1))"
    using p by (simp add: upload_loop_Cons upload_loop.simps(1) node_targets_def split: option.splits)
  show ?case
  proof (cases e)
    case (Some err)
    with Cons.prems(5) p have r: "res = Some err" "jobs = []" "fs' = fs1" by (simp_all add: upload_loop_Cons)
    have "?step (n, fs) (n\<lparr>n_uploads := us @ []\<rparr>, fs1)"
      by (rule node_step.upload_fails [OF Cons.prems(2,1)]) (simp add: one Some)
    moreover have "n\<lparr>n_uploads := us @ []\<rparr> = after_upload us [] n" by (cases n; cases "n_pool n") (simp add: after_upload_def)
    ultimately show ?thesis using r by auto
  next
    case None
    with Cons.prems(5) p obtain jobs' where
      r: "upload_loop (man_selfID (n_rec n)) (LocalFS (n_local n)) (\<lambda>i c. GetN sha1 (n_ring n) c Factor) (Suc i) cs fs1 = (res, jobs', fs')"
      "jobs = job_of c # jobs'" by (auto simp: upload_loop_Cons split: prod.splits)
    let ?n1 = "n\<lparr>n_uploads := us @ [?u cs (Some (job_of c))]\<rparr>" and ?n2 = "after_upload (us @ [?u cs None]) [job_of c] n"
    have s1: "?step (n, fs) (?n1, fs1)"
      by (rule node_step.upload_chunk [OF Cons.prems(2,1)]) (simp add: one None)
    have s2: "?step (?n1, fs1) (?n2, fs1)"
      using node_step.upload_send [of ?n1 us b mf cs "job_of c" "[]" sha1 sha256 env strict fs1] Cons.prems(2-4) r(2)
      by (simp add: after_upload_def)
    have "?step\<^sup>*\<^sup>* (?n2, fs1)
        (after_upload (us @ (case res of None \<Rightarrow> [?u [] None] | Some e \<Rightarrow> [])) jobs' ?n2, fs')"
      by (rule Cons.IH [where i = "Suc i"]) (use Cons.prems r in simp_all)
    then have s3: "?step\<^sup>*\<^sup>* (?n2, fs1) (after_upload (us @ (case res of None \<Rightarrow> [?u [] None] | Some e \<Rightarrow> [])) jobs n, fs')"
      by (simp add: r(2))
    show ?thesis by (rule converse_rtranclp_into_rtranclp [OF s1 converse_rtranclp_into_rtranclp [OF s2 s3]])
  qed
qed

text \<open>The whole handler: the body is split, the chunks go one by one, the manifest is recorded.\<close>

lemma upload_runs_handler:
  fixes rq :: request
  assumes "Routes (req_Method rq) (req_segs rq) = RUpload path" and "n_uploads n = []"
    and "\<not> p_panicked (n_pool n)" and "\<not> p_closed (n_pool n)"
    and "handleUploadBlob sha1 sha256 (\<lambda>i. n_ring n) path (req_Body rq) w (node_server ord sha256 senv n) fs = Some (w', jobs, srv', fs')"
    and "length (p_queue (n_pool n)) + length jobs \<le> queue_cap"
  shows "(node_step sha1 sha256 env strict)\<^sup>*\<^sup>* (n, fs)
    (n\<lparr>n_manifests := manifests srv',
       n_pool := (n_pool n)\<lparr>p_queue := p_queue (n_pool n) @ jobs, accepted := accepted (n_pool n) @ jobs\<rparr>\<rparr>, fs')"
proof -
  let ?step = "node_step sha1 sha256 env strict" and ?b = "TrimPrefix path ''/blobs/''"
  let ?r = "\<lambda>b srv. (n\<lparr>n_manifests := manifests srv,
       n_pool := (n_pool n)\<lparr>p_queue := p_queue (n_pool n) @ b, accepted := accepted (n_pool n) @ b\<rparr>\<rparr>)"
  have same: "?r [] (node_server ord sha256 senv n) = n" by (cases n; cases "n_pool n") simp
  show ?thesis
  proof (cases "\<exists>chunks mf. ?b \<noteq> '''' \<and> Split sha256 ?b (req_Body rq) DefaultSize = Some (Inr (chunks, mf))")
    case False
    with assms(5) have "jobs = []" "srv' = node_server ord sha256 senv n" "fs' = fs"
      by (auto simp: handleUploadBlob_def Let_def split: if_splits option.splits sum.splits)
    with same show ?thesis by simp
  next
    case True
    then obtain chunks mf where sp: "?b \<noteq> ''''" "Split sha256 ?b (req_Body rq) DefaultSize = Some (Inr (chunks, mf))" by blast
    let ?u = "\<lambda>cs. \<lparr>up_id = ?b, up_manifest = mf, up_chunks = cs, up_send = None\<rparr>"
    let ?n1 = "n\<lparr>n_uploads := [?u chunks]\<rparr>"
    have s1: "?step (n, fs) (?n1, fs)" using node_step.upload_start [OF assms(3,1) sp, of sha1 env strict fs] assms(2) by simp
    obtain res fs'' jobs' where
      l: "upload_loop (man_selfID (n_rec n)) (LocalFS (n_local n)) (\<lambda>i c. GetN sha1 (n_ring n) c Factor) 0 chunks fs = (res, jobs', fs'')"
      by (metis prod.exhaust)
    with assms(5) sp have out: "jobs = jobs'" "fs' = fs''" "srv' = (case res of None \<Rightarrow>
          (node_server ord sha256 senv n)\<lparr>manifests := gm_set (n_manifests n) ?b mf\<rparr> | Some e \<Rightarrow> node_server ord sha256 senv n)"
      by (auto simp: handleUploadBlob_def split: option.splits)
    have s2: "?step\<^sup>*\<^sup>* (?n1, fs) (after_upload ([] @ (case res of None \<Rightarrow> [?u []] | Some e \<Rightarrow> [])) jobs ?n1, fs')"
      by (rule upload_steps [where i = 0 and cs = chunks]) (use assms(3,4,6) l out(1,2) in simp_all)
    show ?thesis
    proof (cases res)
      case (Some e)
      then have "after_upload ([] @ (case res of None \<Rightarrow> [?u []] | Some e \<Rightarrow> [])) jobs ?n1 = ?r jobs srv'"
        using assms(2) out(3) by (cases n) (simp add: after_upload_def)
      with converse_rtranclp_into_rtranclp [of ?step, OF s1 s2] show ?thesis by simp
    next
      case None
      let ?n2 = "after_upload [?u []] jobs ?n1"
      have "?step (?n2, fs') (?n2\<lparr>n_manifests := gm_set (n_manifests ?n2) ?b mf, n_uploads := [] @ []\<rparr>, fs')"
        by (rule node_step.upload_end) (use assms(3) in simp_all)
      moreover have "?n2\<lparr>n_manifests := gm_set (n_manifests ?n2) ?b mf, n_uploads := [] @ []\<rparr> = ?r jobs srv'"
        using assms(2) out(3) None by (cases n) (simp add: after_upload_def)
      ultimately have "?step (?n2, fs') (?r jobs srv', fs')" by simp
      with s2 None have "?step\<^sup>*\<^sup>* (?n1, fs) (?r jobs srv', fs')" by (auto intro: rtranclp.rtrancl_into_rtrancl)
      with s1 show ?thesis by (rule converse_rtranclp_into_rtranclp)
    qed
  qed
qed

text \<open>The sample node with its one stored chunk takes a blob with the same bytes.\<close>

definition sample_request :: request where
  "sample_request = \<lparr>req_Method = ''POST'', req_segs = [''blobs'', ''x''], req_Body = [RData [7, 8]]\<rparr>"

definition small_manifest :: manifest where
  "small_manifest = \<lparr>BlobID = ''x'', Size = 2, ChunkIDs = [ID sample_sha256 [7, 8]], ChunkSize = DefaultSize\<rparr>"

lemma sample_route: "Routes (req_Method sample_request) (req_segs sample_request) = RUpload (''/blobs/'' @ ''x'')"
  by (simp add: sample_request_def Routes_def)

lemma sample_handled:
  assumes "node_main sample_sha1 (\<lambda>k. '''') sample_config 0 int stored_fs = (Inr n, fs)" and "n_local n = sample_localfs"
    and "localfs_inv sample_localfs fs" and "no_faults fs"
  shows "\<exists>w srv fs'. handleUploadBlob sample_sha1 sample_sha256 (\<lambda>i. n_ring n) (''/blobs/'' @ ''x'') (req_Body sample_request)
      (new_response []) (node_server ord sample_sha256 senv n) fs = Some (w, [\<lparr>ChunkID = ID sample_sha256 [7, 8], Data = [7, 8]\<rparr>], srv, fs')
    \<and> manifests srv = [(''x'', small_manifest)]"
proof -
  note M = node_main_spec [OF assms(1) sample_clock sample_collision_free sample_letters]
  let ?cs = "make_chunks sample_sha256 0 [[7, 8]]" and ?srv = "node_server ord sample_sha256 senv n"
  have sp: "Split sample_sha256 ''x'' (req_Body sample_request) DefaultSize = Some (Inr (?cs, small_manifest))"
    by (simp add: Split_spec accepted_end_def effective_size_def DefaultSize_def pieces_short small_manifest_def sample_request_def)
  obtain res jobs fs' where
    l: "upload_loop (SelfID ?srv) (Local ?srv) (\<lambda>i c. GetN sample_sha1 (n_ring n) c Factor) 0 ?cs fs = (res, jobs, fs')"
    by (metis prod.exhaust)
  have cs: "chunkID c = ID sample_sha256 (chunkData c)" if "c \<in> set ?cs" for c using Split_chunks [OF sp] that by blast
  have ok: "\<forall>c \<in> set ?cs. ok_id (chunkID c)" using cs ok_id_ID by (auto simp: sample_sha256_def)
  have eq: "map job_of ?cs = [\<lparr>ChunkID = ID sample_sha256 [7, 8], Data = [7, 8]\<rparr>]"
    by (simp add: job_of_def)
  have "same_data ?cs" by (simp add: same_data_def)
  note L = lfs.upload_loop_spec [OF assms(3) ok this l [unfolded node_server_fields assms(2)]]
  then have "res = None" "jobs = map job_of ?cs" using assms(4) by auto
  with l have l': "upload_loop (SelfID ?srv) (Local ?srv) (\<lambda>i c. GetN sample_sha1 (n_ring n) c Factor) 0 ?cs fs
      = (None, [\<lparr>ChunkID = ID sample_sha256 [7, 8], Data = [7, 8]\<rparr>], fs')" using eq by simp
  have "gm_set (manifests ?srv) ''x'' small_manifest = [(''x'', small_manifest)]" using M(18) by (simp add: gm_set_def)
  with upload_outcome(3) [OF _ sp l', where w = "new_response []"] show ?thesis by auto
qed

lemma sample_upload_ready:
  "\<exists>n fs w srv fs'. node_main sample_sha1 (\<lambda>k. '''') sample_config 0 int stored_fs = (Inr n, fs)
     \<and> n_uploads n = [] \<and> \<not> p_panicked (n_pool n) \<and> \<not> p_closed (n_pool n)
     \<and> handleUploadBlob sample_sha1 sample_sha256 (\<lambda>i. n_ring n) (''/blobs/'' @ ''x'') (req_Body sample_request)
         (new_response []) (node_server ord sample_sha256 senv n) fs = Some (w, [\<lparr>ChunkID = ID sample_sha256 [7, 8], Data = [7, 8]\<rparr>], srv, fs')
     \<and> length (p_queue (n_pool n)) + length [\<lparr>ChunkID = ID sample_sha256 [7, 8], Data = [7, 8 :: byte]\<rparr>] \<le> queue_cap
     \<and> manifests srv = [(''x'', small_manifest)]"
proof -
  obtain n fs where n: "node_main sample_sha1 (\<lambda>k. '''') sample_config 0 int stored_fs = (Inr n, fs)"
    "n_local n = sample_localfs" "localfs_inv sample_localfs fs" "no_faults fs"
    using stored_start by blast
  note M = node_main_spec [OF n(1) sample_clock sample_collision_free sample_letters]
  have "p_queue (n_pool n) = []" "\<not> p_panicked (n_pool n)" "\<not> p_closed (n_pool n)" using M(14) by (simp_all add: pool_Start_def)
  with n(1) M(22) sample_handled [OF n, of ord senv] show ?thesis by (fastforce simp: queue_cap_def)
qed

lemma sample_upload:
  "\<exists>n0 fs0 n fs'. node_main sample_sha1 (\<lambda>k. '''') sample_config 0 int stored_fs = (Inr n0, fs0)
     \<and> (node_step sample_sha1 sample_sha256 env True)\<^sup>*\<^sup>* (n0, fs0) (n, fs') \<and> gm_get (n_manifests n) ''x'' = Some small_manifest"
proof -
  obtain n fs w srv fs' where n: "node_main sample_sha1 (\<lambda>k. '''') sample_config 0 int stored_fs = (Inr n, fs)"
    and m: "manifests srv = [(''x'', small_manifest)]"
    and r: "n_uploads n = []" "\<not> p_panicked (n_pool n)" "\<not> p_closed (n_pool n)"
      "handleUploadBlob sample_sha1 sample_sha256 (\<lambda>i. n_ring n) (''/blobs/'' @ ''x'') (req_Body sample_request)
         (new_response []) (node_server rev sample_sha256 env n) fs = Some (w, [\<lparr>ChunkID = ID sample_sha256 [7, 8], Data = [7, 8]\<rparr>], srv, fs')"
      "length (p_queue (n_pool n)) + length [\<lparr>ChunkID = ID sample_sha256 [7, 8], Data = [7, 8]\<rparr>] \<le> queue_cap"
    using sample_upload_ready [of rev env] by blast
  from upload_runs_handler [OF sample_route r, of env True] n m show ?thesis by (force simp: gm_get_def)
qed

section \<open>Shutdown during an upload\<close>

text \<open>
  An upload that waits in Enqueue when the shutdown closes the queue ends there: the process lives on,
  but the upload is gone without an answer and without a manifest, whatever it had stored and queued before.
\<close>

lemma shutdown_aborts_upload:
  assumes "n_phase n = Running" and "\<not> p_panicked (n_pool n)" and "\<not> p_closed (n_pool n)" and "\<not> n_stopped n"
    and "n_uploads n = [\<lparr>up_id = b, up_manifest = mf, up_chunks = cs, up_send = Some j\<rparr>]"
  shows "\<exists>n'. (node_step sha1 sha256 env strict)\<^sup>*\<^sup>* (n, fs) (n', fs) \<and> n_phase n' = EngineStopped \<and> n_uploads n' = []
    \<and> \<not> p_panicked (n_pool n') \<and> n_manifests n' = n_manifests n \<and> p_queue (n_pool n') = p_queue (n_pool n)"
proof -
  let ?n1 = "n\<lparr>n_stopped := True, n_pool := (n_pool n)\<lparr>p_closed := True\<rparr>, n_phase := EngineStopped\<rparr>"
  let ?n2 = "?n1\<lparr>n_uploads := [] @ []\<rparr>"
  have "node_step sha1 sha256 env strict (?n1, fs) (?n2, fs)"
    by (rule node_step.upload_aborts [where xs = "[]" and ys = "[]"]) (use assms(2,5) in simp_all)
  with shutdown_steps [OF assms(1-4), of sha1 sha256 env strict fs]
  have "(node_step sha1 sha256 env strict)\<^sup>*\<^sup>* (n, fs) (?n2, fs)" by (rule rtranclp.rtrancl_into_rtrancl)
  then show ?thesis using assms(2) by (intro exI [where x = ?n2]) simp
qed

section \<open>Properties\<close>



text \<open>
  C7. No chunk of an acknowledged blob is forgotten while the node runs. In every reachable state, with uploads,
  repair passes, workers and the shutdown interleaved in any way, each manifest the node holds - so each upload it
  has answered with success - is the split of some body, and each chunk of that body is in the queue, with a
  worker or finished by one; the queue holds at most 1024 jobs, and it, the workers and the finished
  jobs are together exactly the jobs that were accepted.
\<close>

theorem acknowledged_blob_queued:
  assumes "node_main sha1 getenv cfg now clock fs = (Inr n0, fs0)"
    and "(node_step sha1 sha256 env strict)\<^sup>*\<^sup>* (n0, fs0) (n, fs')" and "gm_get (n_manifests n) b = Some mf"
  shows "\<exists>body chunks. Split sha256 b body DefaultSize = Some (Inr (chunks, mf))
    \<and> (\<forall>c \<in> set chunks. job_of c \<in> set (p_queue (n_pool n)) \<or> Busy (job_of c) \<in> set (p_workers (n_pool n))
        \<or> job_of c \<in> set (finished (n_pool n)))
    \<and> QueueDepth (n_pool n) \<le> 1024
    \<and> mset (accepted (n_pool n)) = mset (p_queue (n_pool n)) + busy (p_workers (n_pool n)) + mset (finished (n_pool n))"
proof -
  have "n_pool n0 = pool_Start (n_engine n0)" "n_manifests n0 = []" "n_uploads n0 = []"
    using assms(1) by (auto simp: node_main_def Let_def split: prod.splits sum.splits)
  then have "pool_inv (n_engine n0) (n_pool n0)" "uploads_inv sha256 n0"
    using pool_reach_inv [OF pool_reach.start] by (simp_all add: uploads_inv_def gomap_simps)
  with node_run_uploads [OF assms(2)] have I: "pool_inv (n_engine n) (n_pool n)" "uploads_inv sha256 n" by simp_all
  then have acc: "mset (accepted (n_pool n)) = mset (p_queue (n_pool n)) + busy (p_workers (n_pool n)) + mset (finished (n_pool n))"
    and q: "QueueDepth (n_pool n) \<le> 1024"
    by (auto simp: pool_inv_def QueueDepth_def queue_cap_def)
  have "from_upload sha256 b mf [] (set (accepted (n_pool n)))" using I(2) assms(3) unfolding uploads_inv_def by blast
  then obtain body chunks where sp: "Split sha256 b body DefaultSize = Some (Inr (chunks, mf))"
    "\<forall>c \<in> set chunks. job_of c \<in> set (accepted (n_pool n))"
    unfolding from_upload_def by auto
  have "j \<in> set (accepted (n_pool n)) \<Longrightarrow> j \<in> set (p_queue (n_pool n)) \<or> Busy j \<in> set (p_workers (n_pool n)) \<or> j \<in> set (finished (n_pool n))" for j
    using acc busy_iff by (metis set_mset_mset union_iff)
  with sp q acc show ?thesis by blast
qed

lemma acknowledged_blob_queued_witness:
  "\<forall>env. \<exists>n fs'. gm_get (n_manifests n) ''x'' = Some small_manifest \<and> QueueDepth (n_pool n) \<le> 1024
     \<and> (\<exists>n0 fs0. node_main sample_sha1 (\<lambda>k. '''') sample_config 0 int stored_fs = (Inr n0, fs0)
       \<and> (node_step sample_sha1 sample_sha256 env True)\<^sup>*\<^sup>* (n0, fs0) (n, fs'))"
proof
  fix env :: "'n s3_env"
  obtain n0 fs0 n fs' where r: "node_main sample_sha1 (\<lambda>k. '''') sample_config 0 int stored_fs = (Inr n0, fs0)"
    "(node_step sample_sha1 sample_sha256 env True)\<^sup>*\<^sup>* (n0, fs0) (n, fs')" "gm_get (n_manifests n) ''x'' = Some small_manifest"
    using sample_upload by blast
  from acknowledged_blob_queued [OF r] have "QueueDepth (n_pool n) \<le> 1024" by blast
  with r show "\<exists>n fs'. gm_get (n_manifests n) ''x'' = Some small_manifest \<and> QueueDepth (n_pool n) \<le> 1024
     \<and> (\<exists>n0 fs0. node_main sample_sha1 (\<lambda>k. '''') sample_config 0 int stored_fs = (Inr n0, fs0)
       \<and> (node_step sample_sha1 sample_sha256 env True)\<^sup>*\<^sup>* (n0, fs0) (n, fs'))" by blast
qed

end
