(* ===== verification/Rebalance.thy ===== *)
theory Rebalance
  imports RingProperties Recovery
begin

text \<open>
  The rebalancing benchmark, \<^verbatim>\<open>benchmarks/rebalance/main.go\<close>: it counts the keys that change
  their owner when a node joins or leaves, with the owner taken modulo the number of nodes and on the
  consistent hash ring. The percentages, which are floating-point numbers computed from the counts, and
  the printing are left out.
\<close>

section \<open>The scenarios\<close>

text \<open>\<open>None\<close> is the panic of an integer division by zero.\<close>

definition naiveOwner :: "(bytes \<Rightarrow> bytes) \<Rightarrow> string \<Rightarrow> int \<Rightarrow> int option" where
  "naiveOwner sha1 chunkID n =
     (let sum = sha1 (bytes_of chunkID); h = BigEndian_Uint64 (take 8 sum); m = (word_of_int n :: uint64)
      in if m = 0 then None else Some (sint (h mod m)))"

record result =
  scenario :: string
  totalKeys :: int
  movedNaive :: int
  movedConsist :: int
  perChunkCost :: duration
  timeNaive :: duration
  timeConsistent :: duration

definition bench_keys :: "int \<Rightarrow> string list" where
  "bench_keys nkeys = map (\<lambda>i. ''chunk-'' @ fmt_int nkeys @ ''-'' @ fmt_int (int i)) [0..<nat nkeys]"

fun naive_owners :: "(bytes \<Rightarrow> bytes) \<Rightarrow> int \<Rightarrow> string list \<Rightarrow> int list option" where
  "naive_owners sha1 n [] = Some []"
| "naive_owners sha1 n (k # ks) =
     (case naiveOwner sha1 k n of None \<Rightarrow> None | Some x \<Rightarrow> map_option ((#) x) (naive_owners sha1 n ks))"

fun naive_moved :: "(bytes \<Rightarrow> bytes) \<Rightarrow> int \<Rightarrow> string list \<Rightarrow> int list \<Rightarrow> int \<Rightarrow> int option" where
  "naive_moved sha1 n (k # ks) (b # before) moved =
     (case naiveOwner sha1 k n of
        None \<Rightarrow> None
      | Some x \<Rightarrow> naive_moved sha1 n ks before (if x \<noteq> b then moved + 1 else moved))"
| "naive_moved sha1 n ks before moved = Some moved"

definition node_name :: "int \<Rightarrow> string" where
  "node_name i = ''node-'' @ fmt_int i"

definition bench_ring :: "(bytes \<Rightarrow> bytes) \<Rightarrow> int \<Rightarrow> ring" where
  "bench_ring sha1 n = fold (\<lambda>i. AddNode sha1 (node_name (int i))) [0..<nat n] ring_New"

fun ring_moved :: "(bytes \<Rightarrow> bytes) \<Rightarrow> ring \<Rightarrow> string list \<Rightarrow> string list \<Rightarrow> int \<Rightarrow> int" where
  "ring_moved sha1 r (k # ks) (b # before) moved =
     (let (owner, ok) = ring_Get sha1 r k in ring_moved sha1 r ks before (if owner \<noteq> b then moved + 1 else moved))"
| "ring_moved sha1 r ks before moved = moved"

text \<open>The product of a count and a cost, as the 64-bit integer of a \<^verbatim>\<open>time.Duration\<close>.\<close>

definition transfer_time :: "int \<Rightarrow> duration \<Rightarrow> duration" where
  "transfer_time moved cost = sint ((word_of_int moved :: uint64) * word_of_int cost)"

definition runScenario ::
  "(bytes \<Rightarrow> bytes) \<Rightarrow> string \<Rightarrow> int \<Rightarrow> int \<Rightarrow> int \<Rightarrow> duration \<Rightarrow> string \<Rightarrow> result option" where
  "runScenario sha1 scen nkeys nodesBefore nodesAfter cost removed =
     (if nkeys < 0 then None
      else
        (let keys = bench_keys nkeys
         in case naive_owners sha1 nodesBefore keys of
              None \<Rightarrow> None
            | Some beforeNaive \<Rightarrow>
                (case naive_moved sha1 nodesAfter keys beforeNaive 0 of
                   None \<Rightarrow> None
                 | Some moved \<Rightarrow>
                     (let ring = bench_ring sha1 nodesBefore;
                          beforeConsistent = map (\<lambda>k. fst (ring_Get sha1 ring k)) keys;
                          ring' = (if nodesAfter > nodesBefore then AddNode sha1 (node_name nodesBefore) ring
                                   else if nodesAfter < nodesBefore then RemoveNode removed ring
                                   else ring);
                          moved' = ring_moved sha1 ring' keys beforeConsistent 0
                      in Some \<lparr>scenario = scen, totalKeys = nkeys, movedNaive = moved, movedConsist = moved',
                               perChunkCost = cost, timeNaive = transfer_time moved cost,
                               timeConsistent = transfer_time moved' cost\<rparr>))))"

text \<open>The results \<^verbatim>\<open>main\<close> prints, and whether it comes to its end.\<close>

definition rebalance_main :: "(bytes \<Rightarrow> bytes) \<Rightarrow> int \<Rightarrow> int \<Rightarrow> duration \<Rightarrow> result list \<times> bool" where
  "rebalance_main sha1 nkeys n cost =
     (case runScenario sha1 (''Node JOIN: '' @ fmt_int n @ '' -> '' @ fmt_int (n + 1) @ '' nodes'')
             nkeys n (n + 1) cost '''' of
        None \<Rightarrow> ([], False)
      | Some j \<Rightarrow>
          (case runScenario sha1 (''Node LEAVE (failure): '' @ fmt_int n @ '' -> '' @ fmt_int (n - 1) @ '' nodes'')
                  nkeys n (n - 1) cost ''node-0'' of
             None \<Rightarrow> ([j], False)
           | Some l \<Rightarrow> ([j, l], True)))"

section \<open>The modulo placement\<close>

text \<open>
  A key keeps its residue when the modulus grows by one only when its hash lies, modulo the product,
  below the old modulus.
\<close>

lemma mod_succ_eq_iff:
  fixes h n :: int
  assumes "0 < n"
  shows "h mod n = h mod (n + 1) \<longleftrightarrow> h mod (n * (n + 1)) < n"
proof -
  let ?q = "h mod (n * (n + 1))"
  have q: "0 \<le> ?q" "?q < n * (n + 1)" using assms by simp_all
  have m: "?q mod n = h mod n" "?q mod (n + 1) = h mod (n + 1)" by (simp_all add: mod_mod_cancel)
  have "?q < n" if eq: "?q mod n = ?q mod (n + 1)"
  proof -
    let ?r = "?q mod n"
    have r: "0 \<le> ?r" "?r < n" "?r \<le> ?q" using assms q(1) by (simp_all add: zmod_le_nonneg_dividend)
    have "n dvd ?q - ?r" by (simp add: dvd_minus_mod)
    moreover have "n + 1 dvd ?q - ?r" unfolding eq by (rule dvd_minus_mod)
    moreover have "coprime n (n + 1)" by simp
    ultimately have "n * (n + 1) dvd ?q - ?r" by (simp only: divides_mult)
    moreover have "0 \<le> ?q - ?r" "?q - ?r < n * (n + 1)" using q r by linarith+
    ultimately have "?q - ?r = 0" using zdvd_imp_le [of "n * (n + 1)" "?q - ?r"] by linarith
    with r show ?thesis by linarith
  qed
  moreover have "?q mod n = ?q mod (n + 1)" if "?q < n" using that q by simp
  ultimately show ?thesis unfolding m by blast
qed

lemma naiveOwner_eq:
  assumes "0 < n" and "n < 2 ^ 63"
  shows "naiveOwner sha1 k n = Some (uint (hashKey sha1 k) mod n)"
proof -
  let ?h = "hashKey sha1 k" and ?m = "word_of_int n :: uint64"
  have m: "uint ?m = n" using assms by (simp add: uint_word_of_int_eq take_bit_int_eq_self)
  then have "?m \<noteq> 0" using assms(1) by auto
  moreover have u: "uint (?h mod ?m) = uint ?h mod n" by (simp add: uint_mod_distrib m)
  have "0 \<le> uint ?h mod n" "uint ?h mod n < n" using assms(1) by simp_all
  with assms(2) have "sint (?h mod ?m) = uint ?h mod n"
    unfolding sint_uint u by (simp add: signed_take_bit_int_eq_self)
  ultimately show ?thesis by (simp add: naiveOwner_def hashKey_def Let_def)
qed

lemma naiveOwner_zero: "naiveOwner sha1 k 0 = None"
  by (simp add: naiveOwner_def)

lemma naive_owners_eq:
  "0 < n \<Longrightarrow> n < 2 ^ 63 \<Longrightarrow> naive_owners sha1 n ks = Some (map (\<lambda>k. uint (hashKey sha1 k) mod n) ks)"
  by (induction ks) (simp_all add: naiveOwner_eq)

lemma naive_moved_eq:
  assumes "0 < n" and "n < 2 ^ 63"
  shows "naive_moved sha1 n ks (map f ks) moved
    = Some (moved + int (length (filter (\<lambda>k. uint (hashKey sha1 k) mod n \<noteq> f k) ks)))"
  by (induction ks arbitrary: moved) (simp_all add: naiveOwner_eq [OF assms])

lemma ring_moved_eq:
  "ring_moved sha1 r ks (map f ks) moved = moved + int (length (filter (\<lambda>k. fst (ring_Get sha1 r k) \<noteq> f k) ks))"
  by (induction ks arbitrary: moved) (simp_all split: prod.split)

section \<open>The ring placement\<close>

lemma node_name_inj: "0 \<le> i \<Longrightarrow> 0 \<le> j \<Longrightarrow> node_name i = node_name j \<longleftrightarrow> i = j"
  using fmt_d_inj [of "nat i" "nat j"] by (auto simp: node_name_def fmt_int_def)

definition node_names :: "int \<Rightarrow> string set" where
  "node_names n = node_name ` {0..<n}"

lemma node_names_Suc: "0 \<le> n \<Longrightarrow> node_names (n + 1) = insert (node_name n) (node_names n)"
  by (auto simp: node_names_def image_iff) force+

lemma bench_ring_Suc: "0 \<le> n \<Longrightarrow> bench_ring sha1 (n + 1) = AddNode sha1 (node_name n) (bench_ring sha1 n)"
  by (simp add: bench_ring_def nat_add_distrib)

lemma bench_ring_spec:
  assumes "collision_free sha1 U" and "node_names (int n) \<subseteq> U"
  shows "ring_inv sha1 U (bench_ring sha1 (int n)) \<and> ring_set (bench_ring sha1 (int n)) = node_names (int n)"
  using assms(2)
proof (induction n)
  case 0
  then show ?case using ring_New_inv [OF assms(1)] by (simp add: bench_ring_def node_names_def)
next
  case (Suc n)
  have e: "int (Suc n) = int n + 1" by simp
  from Suc have IH: "ring_inv sha1 U (bench_ring sha1 (int n))" "ring_set (bench_ring sha1 (int n)) = node_names (int n)"
    and x: "node_name (int n) \<in> U" unfolding e by (simp_all add: node_names_Suc)
  then show ?case
    unfolding e using hr.inv_add [OF IH(1) x] hr.members_add [OF IH(1) x] by (simp add: bench_ring_Suc node_names_Suc)
qed

lemma ring_Get_member:
  assumes "ring_inv sha1 U r" and "ring_set r \<noteq> {}"
  shows "\<exists>x \<in> ring_set r. GetN sha1 r k 1 = [x] \<and> ring_Get sha1 r k = (x, True)"
proof -
  have "finite (ring_set r)" by (simp add: ring_set_def)
  then have "length (GetN sha1 r k 1) = 1"
    using hr.getn_length [OF assms(1), of k 1] assms(2) by (simp add: card_gt_0_iff Suc_le_eq min_def)
  then obtain x where x: "GetN sha1 r k 1 = [x]" by (cases "GetN sha1 r k 1") auto
  with hr.getn_members [OF assms(1), of k 1] show ?thesis by (simp add: ring_Get_def)
qed

lemma owner_moves_on_join:
  assumes "ring_inv sha1 U r" and "ring_set r \<noteq> {}" and "x \<in> U" and "x \<notin> ring_set r"
  shows "fst (ring_Get sha1 (AddNode sha1 x r) k) \<noteq> fst (ring_Get sha1 r k) \<longleftrightarrow> ring_Get sha1 (AddNode sha1 x r) k = (x, True)"
proof -
  have r': "ring_inv sha1 U (AddNode sha1 x r)" "ring_set (AddNode sha1 x r) \<noteq> {}"
    using hr.inv_add [OF assms(1,3)] hr.members_add [OF assms(1,3)] by simp_all
  obtain y where y: "y \<in> ring_set r" "GetN sha1 r k 1 = [y]" "ring_Get sha1 r k = (y, True)"
    using ring_Get_member [OF assms(1,2)] by blast
  obtain z where z: "GetN sha1 (AddNode sha1 x r) k 1 = [z]" "ring_Get sha1 (AddNode sha1 x r) k = (z, True)"
    using ring_Get_member [OF r'] by blast
  have "z = x \<or> z = y" using hr.getn_add_unaffected [OF assms(1,3,4), of k 1] y z by auto
  with y z assms(4) show ?thesis by auto
qed

lemma owner_moves_on_leave:
  assumes "ring_inv sha1 U r" and "ring_set r - {x} \<noteq> {}"
  shows "fst (ring_Get sha1 (RemoveNode x r) k) \<noteq> fst (ring_Get sha1 r k) \<longleftrightarrow> ring_Get sha1 r k = (x, True)"
proof -
  have r': "ring_inv sha1 U (RemoveNode x r)" "ring_set (RemoveNode x r) = ring_set r - {x}"
    using hr.inv_remove [OF assms(1)] hr.members_remove [OF assms(1)] by simp_all
  obtain y where y: "GetN sha1 r k 1 = [y]" "ring_Get sha1 r k = (y, True)"
    using ring_Get_member [OF assms(1)] assms(2) by blast
  obtain z where z: "z \<noteq> x" "GetN sha1 (RemoveNode x r) k 1 = [z]" "ring_Get sha1 (RemoveNode x r) k = (z, True)"
    using ring_Get_member [OF r'(1)] r'(2) assms(2) by auto
  have "y = x \<or> z = y" using hr.getn_remove_unaffected [OF assms(1), of x k 1] y z by auto
  with y z show ?thesis by auto
qed

lemma runScenario_eq:
  assumes "0 \<le> nkeys" and "0 < nb" and "nb < 2 ^ 63" and "0 < na" and "na < 2 ^ 63"
    and "r' = (if na > nb then AddNode sha1 (node_name nb) (bench_ring sha1 nb)
           else if na < nb then RemoveNode removed (bench_ring sha1 nb) else bench_ring sha1 nb)"
  shows "\<exists>r. runScenario sha1 scen nkeys nb na cost removed = Some r
    \<and> movedNaive r = int (length (filter (\<lambda>k. uint (hashKey sha1 k) mod na \<noteq> uint (hashKey sha1 k) mod nb) (bench_keys nkeys)))
    \<and> movedConsist r = int (length (filter (\<lambda>k. fst (ring_Get sha1 r' k) \<noteq> fst (ring_Get sha1 (bench_ring sha1 nb) k)) (bench_keys nkeys)))"
  using assms(1) unfolding runScenario_def Let_def naive_owners_eq [OF assms(2,3)] ring_moved_eq assms(6) [symmetric]
  by (simp add: naive_moved_eq [OF assms(4,5)])

section \<open>Properties\<close>

text \<open>
  C38. The rebalancing benchmark measures what it says. With two nodes or more its two scenarios run to
  their end. A join moves on the ring exactly the keys the new node owns afterwards, a leave
  exactly those the removed node owned; under the modulo placement all keys move but those
  whose hash, modulo the product of the two cluster sizes, is below the smaller one.
\<close>

theorem rebalance_counts:
  assumes "collision_free sha1 U" and "node_names (n + 1) \<subseteq> U" and "2 \<le> n" and "n + 1 < 2 ^ 63" and "0 \<le> nkeys"
  shows "\<exists>j l. rebalance_main sha1 nkeys n cost = ([j, l], True)
    \<and> movedConsist j = int (length (filter (\<lambda>k. ring_Get sha1 (bench_ring sha1 (n + 1)) k = (node_name n, True)) (bench_keys nkeys)))
    \<and> movedConsist l = int (length (filter (\<lambda>k. ring_Get sha1 (bench_ring sha1 n) k = (''node-0'', True)) (bench_keys nkeys)))
    \<and> movedNaive j = int (length (filter (\<lambda>k. n \<le> uint (hashKey sha1 k) mod (n * (n + 1))) (bench_keys nkeys)))
    \<and> movedNaive l = int (length (filter (\<lambda>k. n - 1 \<le> uint (hashKey sha1 k) mod ((n - 1) * n)) (bench_keys nkeys)))"
proof -
  let ?r = "bench_ring sha1 n" and ?rl = "RemoveNode ''node-0'' (bench_ring sha1 n)" and ?h = "\<lambda>k. uint (hashKey sha1 k)"
  have U: "node_names n \<subseteq> U" "node_name n \<in> U" using assms(2,3) by (simp_all add: node_names_Suc)
  have R: "ring_inv sha1 U ?r" "ring_set ?r = node_names n" using bench_ring_spec [OF assms(1), of "nat n"] U assms(3) by simp_all
  have new: "node_name n \<notin> ring_set ?r" using assms(3) by (auto simp: R(2) node_names_def node_name_inj)
  have one: "node_name 1 \<in> ring_set ?r" "node_name 1 \<noteq> ''node-0''"
  proof -
    show "node_name 1 \<in> ring_set ?r" unfolding R(2) node_names_def using assms(3) by (intro imageI) simp
    have "node_name 0 = ''node-0''" by code_simp
    then show "node_name 1 \<noteq> ''node-0''" using node_name_inj [of 1 0] by simp
  qed
  have join: "fst (ring_Get sha1 (bench_ring sha1 (n + 1)) k) \<noteq> fst (ring_Get sha1 ?r k)
      \<longleftrightarrow> ring_Get sha1 (bench_ring sha1 (n + 1)) k = (node_name n, True)" for k
    using owner_moves_on_join [OF R(1) _ U(2) new] one(1) assms(3) by (auto simp: bench_ring_Suc)
  have leave: "fst (ring_Get sha1 ?rl k) \<noteq> fst (ring_Get sha1 ?r k) \<longleftrightarrow> ring_Get sha1 ?r k = (''node-0'', True)" for k
    by (rule owner_moves_on_leave [OF R(1)]) (use one in auto)
  have naive: "?h k mod (n + 1) \<noteq> ?h k mod n \<longleftrightarrow> n \<le> ?h k mod (n * (n + 1))"
    "?h k mod (n - 1) \<noteq> ?h k mod n \<longleftrightarrow> n - 1 \<le> ?h k mod ((n - 1) * n)" for k
    using mod_succ_eq_iff [of n "?h k"] mod_succ_eq_iff [of "n - 1" "?h k"] assms(3) by auto
  have rj: "bench_ring sha1 (n + 1) = (if n + 1 > n then AddNode sha1 (node_name n) ?r
      else if n + 1 < n then RemoveNode '''' ?r else ?r)" using assms(3) by (simp add: bench_ring_Suc)
  have rl: "?rl = (if n - 1 > n then AddNode sha1 (node_name n) ?r else if n - 1 < n then RemoveNode ''node-0'' ?r else ?r)" by simp
  obtain j where j: "runScenario sha1 (''Node JOIN: '' @ fmt_int n @ '' -> '' @ fmt_int (n + 1) @ '' nodes'') nkeys n (n + 1) cost '''' = Some j"
    "movedNaive j = int (length (filter (\<lambda>k. n \<le> ?h k mod (n * (n + 1))) (bench_keys nkeys)))"
    "movedConsist j = int (length (filter (\<lambda>k. ring_Get sha1 (bench_ring sha1 (n + 1)) k = (node_name n, True)) (bench_keys nkeys)))"
    using runScenario_eq [OF assms(5) _ _ _ assms(4) rj, unfolded naive join] assms(3,4) by auto
  obtain l where l: "runScenario sha1 (''Node LEAVE (failure): '' @ fmt_int n @ '' -> '' @ fmt_int (n - 1) @ '' nodes'') nkeys n (n - 1) cost ''node-0'' = Some l"
    "movedNaive l = int (length (filter (\<lambda>k. n - 1 \<le> ?h k mod ((n - 1) * n)) (bench_keys nkeys)))"
    "movedConsist l = int (length (filter (\<lambda>k. ring_Get sha1 ?r k = (''node-0'', True)) (bench_keys nkeys)))"
    using runScenario_eq [OF assms(5) _ _ _ _ rl, unfolded naive leave] assms(3,4) by auto
  from j l show ?thesis by (simp add: rebalance_main_def)
qed

text \<open>
  With one node the benchmark does not come to its end: the leave scenario divides by zero in
  \<^verbatim>\<open>naiveOwner\<close>, after the join was reported. Without a node the join does.
\<close>

lemma rebalance_one_node_panics:
  assumes "0 < nkeys"
  shows "\<exists>j. rebalance_main sha1 nkeys 1 cost = ([j], False)" and "rebalance_main sha1 nkeys 0 cost = ([], False)"
proof -
  obtain k ks where k: "bench_keys nkeys = k # ks" using assms by (cases "nat nkeys") (simp_all add: bench_keys_def upt_conv_Cons del: upt_Suc)
  have "runScenario sha1 scen nkeys nb 0 c r = None" if "naive_owners sha1 nb (k # ks) = Some (b # bs)" for scen nb c r b bs
    unfolding runScenario_def k that Let_def using assms by (simp add: naiveOwner_zero)
  moreover have "naive_owners sha1 1 (k # ks) = Some (0 # map (\<lambda>k. 0) ks)" by (simp add: naive_owners_eq naiveOwner_eq)
  moreover obtain j where "runScenario sha1 (''Node JOIN: '' @ fmt_int 1 @ '' -> '' @ fmt_int (1 + 1) @ '' nodes'') nkeys 1 (1 + 1) cost '''' = Some j"
    using runScenario_eq [of nkeys 1 "1 + 1"] assms by force
  ultimately show "\<exists>j. rebalance_main sha1 nkeys 1 cost = ([j], False)" by (simp add: rebalance_main_def)
  show "rebalance_main sha1 nkeys 0 cost = ([], False)"
    using assms by (simp add: rebalance_main_def runScenario_def k naiveOwner_zero)
qed

text \<open>A digest without collisions on the names of up to ten nodes.\<close>

definition bench_sha1 :: "bytes \<Rightarrow> bytes" where
  "bench_sha1 b = (if take 5 b = bytes_of ''node-'' then sample_sha1 (drop 5 b) else sample_sha1 b)"

definition bench_nodes :: "string set" where
  "bench_nodes = range (\<lambda>c. ''node-'' @ [c])"

lemma vpoint_bench: "vpoint bench_sha1 (''node-'' @ [c]) i = vpoint sample_sha1 [c] i"
  by (simp add: vpoint_def hashKey_def bench_sha1_def vKey_def bytes_of_def)

lemma bench_collision_free: "collision_free bench_sha1 bench_nodes"
proof -
  have "vpoints bench_sha1 (''node-'' @ [c]) = vpoints sample_sha1 [c]" for c
    unfolding vpoints_def vpoint_bench ..
  with sample_collision_free show ?thesis
    unfolding collision_free_def bench_nodes_def letter_nodes_def by auto
qed

lemma bench_node_names:
  assumes "n \<le> 10"
  shows "node_names n \<subseteq> bench_nodes"
proof
  fix x assume "x \<in> node_names n"
  then obtain i where i: "x = node_name i" "0 \<le> i" "i < 10" using assms by (auto simp: node_names_def)
  have "fmt_d m = [digit_char m]" if "m < 10" for m by (subst fmt_d.simps) (simp add: that)
  with i show "x \<in> bench_nodes" by (auto simp: node_name_def fmt_int_def bench_nodes_def)
qed

lemma rebalance_counts_witness:
  "\<exists>j l. rebalance_main bench_sha1 10000 9 8000000 = ([j, l], True)
    \<and> movedConsist l = int (length (filter (\<lambda>k. ring_Get bench_sha1 (bench_ring bench_sha1 9) k = (''node-0'', True)) (bench_keys 10000)))"
proof -
  have "node_names (9 + 1) \<subseteq> bench_nodes" by (rule bench_node_names) simp
  from rebalance_counts [OF bench_collision_free this, of 10000 8000000] show ?thesis by auto
qed

end
