(* ===== verification/AvailabilityBench.thy ===== *)
theory AvailabilityBench
  imports NodeProperties Rebalance
begin

text \<open>
  The availability benchmark, \<^verbatim>\<open>benchmarks/availability/main.go\<close>: the command lines with which
  it starts the nodes of its cluster, the order in which it kills them, and the node its readers ask.
  The processes themselves, the timers, the requests and the statistics are left out.
\<close>

section \<open>The cluster\<close>

definition nodeBasePort :: int where
  "nodeBasePort = 19100"

definition nodeAddr :: "int \<Rightarrow> string" where
  "nodeAddr port = ''127.0.0.1:'' @ fmt_int port"

definition peerList :: "int \<Rightarrow> int \<Rightarrow> string list" where
  "peerList numNodes i =
     map (\<lambda>j. node_name j @ ''='' @ nodeAddr (nodeBasePort + j)) (filter (\<lambda>j. i \<noteq> j) (map int [0..<nat numNodes]))"

definition benchDir :: "string \<Rightarrow> int \<Rightarrow> string" where
  "benchDir workDir i = ''/'' @ strings_Join ''/'' (Join [workDir, ''node'' @ fmt_int i])"

definition nodeArgs :: "string \<Rightarrow> int \<Rightarrow> int \<Rightarrow> string list" where
  "nodeArgs workDir numNodes i =
     (let port = nodeBasePort + i
      in [''-node-id='' @ node_name i, ''-listen=:'' @ fmt_int port, ''-advertise='' @ nodeAddr port,
          ''-data-dir='' @ benchDir workDir i, ''-peers='' @ strings_Join '','' (peerList numNodes i)])"

text \<open>
  How \<^verbatim>\<open>flag.Parse\<close> reads arguments with a dash and a value behind an equals sign: the last
  one of a name counts.
\<close>

definition flag_arg :: "string \<Rightarrow> string \<times> string" where
  "flag_arg a = (let s = drop 1 a in (takeWhile (\<lambda>c. c \<noteq> CHR ''='') s, drop 1 (dropWhile (\<lambda>c. c \<noteq> CHR ''='') s)))"

definition flag_Parse :: "string list \<Rightarrow> string \<Rightarrow> string option" where
  "flag_Parse args = map_of (rev (map flag_arg args))"

text \<open>The configuration a started node ends up with; it inherits the environment of the benchmark.\<close>

definition nodeConfig :: "(string \<Rightarrow> string) \<Rightarrow> string \<Rightarrow> int \<Rightarrow> int \<Rightarrow> config" where
  "nodeConfig getenv workDir numNodes i = parse_config getenv (flag_Parse (nodeArgs workDir numNodes i)) None None"

section \<open>Kills and reads\<close>

record nodeProc =
  proc_id :: string
  proc_port :: int
  proc_dataDir :: string

definition startNodes :: "string \<Rightarrow> int \<Rightarrow> nodeProc option list" where
  "startNodes workDir numNodes =
     map (\<lambda>i. Some \<lparr>proc_id = node_name i, proc_port = nodeBasePort + i, proc_dataDir = benchDir workDir i\<rparr>)
       (map int [0..<nat numNodes])"

definition capKills :: "int \<Rightarrow> int \<Rightarrow> int" where
  "capKills numNodes maxKills =
     (let allowed = (if numNodes - 2 < 0 then 0 else numNodes - 2) in if maxKills > allowed then allowed else maxKills)"

text \<open>The loop of the kill scheduler from the index below \<open>i\<close> downwards.\<close>

fun kill_loop :: "int \<Rightarrow> nat \<Rightarrow> nodeProc option list \<Rightarrow> int \<Rightarrow> nodeProc option list \<times> int" where
  "kill_loop maxKills 0 ns killed = (ns, killed)"
| "kill_loop maxKills (Suc i) ns killed =
     (if killed < maxKills
      then (case ns ! i of
              None \<Rightarrow> kill_loop maxKills i ns killed
            | Some p \<Rightarrow> kill_loop maxKills i (ns[i := None]) (killed + 1))
      else (ns, killed))"

definition killScheduler :: "int \<Rightarrow> nodeProc option list \<Rightarrow> nodeProc option list \<times> int" where
  "killScheduler maxKills ns = kill_loop maxKills (length ns) ns 0"

text \<open>The port a reader asks; 0 when no node is left.\<close>

definition reader_port :: "nodeProc option list \<Rightarrow> int" where
  "reader_port ns = (case filter (\<lambda>p. p \<noteq> None) ns of Some p # ps \<Rightarrow> proc_port p | _ \<Rightarrow> 0)"

section \<open>The command lines\<close>

lemma flag_arg_eq: "CHR ''='' \<notin> set name \<Longrightarrow> flag_arg (CHR ''-'' # name @ CHR ''='' # val) = (name, val)"
  by (simp add: flag_arg_def takeWhile_tail dropWhile_append)

lemma nodeArgs_flags:
  "flag_Parse (nodeArgs workDir n i) =
     [''node-id'' \<mapsto> node_name i, ''listen'' \<mapsto> '':'' @ fmt_int (nodeBasePort + i), ''advertise'' \<mapsto> nodeAddr (nodeBasePort + i),
      ''data-dir'' \<mapsto> benchDir workDir i, ''peers'' \<mapsto> strings_Join '','' (peerList n i)]"
  unfolding flag_Parse_def nodeArgs_def Let_def
  using flag_arg_eq [of "''node-id''"] flag_arg_eq [of "''listen''"] flag_arg_eq [of "''advertise''"]
    flag_arg_eq [of "''data-dir''"] flag_arg_eq [of "''peers''"]
  by simp

definition bench_peers :: "int \<Rightarrow> int \<Rightarrow> (string \<times> string) list" where
  "bench_peers n i = map (\<lambda>j. (node_name j, nodeAddr (nodeBasePort + j))) (filter (\<lambda>j. i \<noteq> j) (map int [0..<nat n]))"

lemma nodeConfig_fields:
  "nodeID (nodeConfig getenv workDir n i) = node_name i"
  "peersFlag (nodeConfig getenv workDir n i) = render_peers (bench_peers n i)"
  "dataDir (nodeConfig getenv workDir n i) = benchDir workDir i"
  by (simp_all add: nodeConfig_def nodeArgs_flags parse_config_def flag_String_def render_peers_def bench_peers_def
      peerList_def comp_def)

lemma bench_indices: "0 \<le> n \<Longrightarrow> set (filter (\<lambda>j. i \<noteq> j) (map int [0..<nat n])) = {0..<n} - {i}"
  using image_int_atLeastLessThan [of 0 "nat n"] by auto

lemma fst_bench_peers: "0 \<le> n \<Longrightarrow> fst ` set (bench_peers n i) = node_name ` ({0..<n} - {i})"
  unfolding bench_peers_def set_map bench_indices image_image by simp

lemma map_of_bench_peers:
  assumes "0 \<le> j" and "j < n" and "j \<noteq> i"
  shows "map_of (bench_peers n i) (node_name j) = Some (nodeAddr (nodeBasePort + j))"
proof -
  have "map_of (map (\<lambda>j. (node_name j, nodeAddr (nodeBasePort + j))) js) (node_name j) = Some (nodeAddr (nodeBasePort + j))"
    if "j \<in> set js" "\<forall>k \<in> set js. 0 \<le> k" for js
    using that assms(1) by (induction js) (auto simp: node_name_inj)
  moreover have "set (filter (\<lambda>j. i \<noteq> j) (map int [0..<nat n])) = {0..<n} - {i}" using assms by (intro bench_indices) simp
  ultimately show ?thesis unfolding bench_peers_def using assms by simp
qed

lemma set_fmt_int: "0 \<le> j \<Longrightarrow> set (fmt_int j) \<subseteq> digit_chars"
  using set_fmt_d by (simp add: fmt_int_def)

lemma plain_bench_peers: "list_all plain_entry (bench_peers n i)"
proof -
  have no: "CHR '','' \<notin> digit_chars" "CHR ''='' \<notin> digit_chars" "\<And>c. is_space c \<Longrightarrow> c \<notin> digit_chars"
    by (auto simp: digit_chars_def is_space_def)
  have "plain_entry (node_name j, nodeAddr (nodeBasePort + j))" if "0 \<le> j" for j
  proof -
    have "last (nodeAddr (nodeBasePort + j)) \<in> digit_chars"
      using set_fmt_int [of "nodeBasePort + j"] that last_in_set [of "fmt_int (nodeBasePort + j)"]
      by (auto simp: nodeAddr_def nodeBasePort_def fmt_int_def)
    moreover have "\<not> is_space (hd (node_name j))" by (simp add: node_name_def is_space_def)
    ultimately show ?thesis
      using set_fmt_int [of j] set_fmt_int [of "nodeBasePort + j"] that no
      by (auto simp: plain_entry_def node_name_def nodeAddr_def nodeBasePort_def)
  qed
  then show ?thesis by (auto simp: bench_peers_def list_all_iff)
qed

section \<open>Which nodes are left\<close>

lemma kill_loop_spec:
  assumes "0 \<le> killed"
  shows "kill_loop mk (length ps) (map Some ps @ replicate k None) killed
    = (let d = min (length ps) (nat (mk - killed)) in (map Some (take (length ps - d) ps) @ replicate (d + k) None, killed + int d))"
proof (induction ps arbitrary: k killed rule: rev_induct)
  case (snoc p ps)
  show ?case
  proof (cases "killed < mk")
    case True
    have "(map Some (ps @ [p]) @ replicate k None)[length ps := None] = map Some ps @ replicate (Suc k) None"
      by (simp add: list_update_append replicate_app_Cons_same)
    moreover have "(map Some (ps @ [p]) @ replicate k None) ! length ps = Some p" by (simp add: nth_append)
    ultimately have "kill_loop mk (length (ps @ [p])) (map Some (ps @ [p]) @ replicate k None) killed
        = kill_loop mk (length ps) (map Some ps @ replicate (Suc k) None) (killed + 1)" using True by simp
    moreover have "nat (mk - killed) = Suc (nat (mk - (killed + 1)))" using True by simp
    ultimately show ?thesis unfolding snoc by (simp add: Let_def)
  qed simp
qed simp

lemma capKills_bound: "2 \<le> n \<Longrightarrow> capKills n mk \<le> n - 2" "0 \<le> n \<Longrightarrow> n < 2 \<Longrightarrow> capKills n mk \<le> 0"
  by (auto simp: capKills_def Let_def)

text \<open>
  The kills leave at least two nodes, the first ones of the list, and at any time the readers ask the
  first node only: the scheduler stops after any number of kills in such a state.
\<close>

lemma alive_part: "filter (\<lambda>p. p \<noteq> None) (map Some xs @ replicate m None) = map Some xs"
  by (induction xs) simp_all

lemma kills_leave_first_node:
  assumes "2 \<le> n" and "killScheduler (capKills n mk) (startNodes workDir n) = (ns, killed)"
  shows "killed = max 0 (min mk (n - 2)) \<and> ns = take (nat (n - killed)) (startNodes workDir n) @ replicate (nat killed) None
    \<and> 2 \<le> length (filter (\<lambda>p. p \<noteq> None) ns) \<and> reader_port ns = nodeBasePort"
proof -
  let ?proc = "\<lambda>i. \<lparr>proc_id = node_name i, proc_port = nodeBasePort + i, proc_dataDir = benchDir workDir i\<rparr>"
  obtain ps where ps: "ps = map ?proc (map int [0..<nat n])" by blast
  obtain d where d: "d = min (length ps) (nat (capKills n mk))" by blast
  have start: "startNodes workDir n = map Some ps" by (simp add: startNodes_def ps)
  have run: "ns = map Some (take (length ps - d) ps) @ replicate d None" "killed = int d"
    using assms(2) kill_loop_spec [of 0 "capKills n mk" ps 0] unfolding killScheduler_def start d by (simp_all add: Let_def)
  have len: "length ps = nat n" by (simp add: ps)
  have k: "killed = max 0 (min mk (n - 2))" unfolding run(2) d len using assms(1) by (auto simp: capKills_def Let_def)
  then have two: "2 \<le> nat n - d" using run(2) assms(1) by auto
  have hd: "ps = ?proc 0 # tl ps" unfolding ps using assms(1) by (simp add: upt_conv_Cons)
  have cut: "nat (n - killed) = nat n - d" "nat killed = d" unfolding run(2) by simp_all
  have "ns = take (nat (n - killed)) (startNodes workDir n) @ replicate (nat killed) None"
    unfolding cut start take_map by (rule run(1) [unfolded len])
  moreover have "2 \<le> length (filter (\<lambda>p. p \<noteq> None) ns)" unfolding run(1) alive_part using two len by simp
  moreover have "reader_port ns = nodeBasePort"
  proof -
    obtain m where m: "nat n - d = Suc m" using two by (cases "nat n - d") auto
    show ?thesis unfolding reader_port_def run(1) alive_part len m by (subst hd) simp
  qed
  ultimately show ?thesis using k by blast
qed

section \<open>Properties\<close>

text \<open>
  C20. The nodes of the benchmark's cluster form one cluster. Each node started with its command line
  takes its own ID, has all nodes of the cluster and no other on its ring, places every key as every
  other node does, and knows the address of each other node by the port that node listens on.
\<close>

theorem benchmark_cluster:
  assumes "node_main sha1 getenv (nodeConfig getenv workDir n i) now clock fs = (Inr nd, fs')" and "clock_ok now clock"
    and "collision_free sha1 U" and "node_names n \<subseteq> U" and "0 \<le> i" and "i < n" and "range_order ord"
  shows "man_selfID (n_rec nd) = node_name i \<and> ring_set (n_ring nd) = node_names n
    \<and> (\<forall>key m. GetN sha1 (n_ring nd) key m = GetN sha1 (bench_ring sha1 n) key m)
    \<and> (\<forall>j. 0 \<le> j \<longrightarrow> j < n \<longrightarrow>
         AddrFor ord (n_ms nd) (node_name j) = (if j = i then ('''', False) else (nodeAddr (nodeBasePort + j), True)))"
proof -
  let ?cfg = "nodeConfig getenv workDir n i"
  have names: "node_name ` ({0..<n} - {i}) \<subseteq> node_names n" by (auto simp: node_names_def)
  have self: "nodeID ?cfg = node_name i" "node_name i \<in> node_names n" using assms(5,6) by (auto simp: nodeConfig_fields node_names_def)
  have U: "nodeID ?cfg \<in> U" "fst ` set (bench_peers n i) \<subseteq> U"
    using self names assms(4-6) by (auto simp: fst_bench_peers)
  note R = peer_list_roundtrip [OF assms(1-3) U nodeConfig_fields(2) plain_bench_peers assms(7)]
  have cp: "cfg_peers ?cfg = bench_peers n i"
    by (simp add: cfg_peers_def nodeConfig_fields flag_peers_render plain_bench_peers)
  note M = node_main_spec [OF assms(1-3) U(1)]
  have inv: "ring_inv sha1 U (n_ring nd)" "n_rec nd = manager_New (node_name i)" using M(1,12) U(2) cp self by simp_all
  have set: "ring_set (n_ring nd) = node_names n"
    using R self assms(5,6) by (auto simp: fst_bench_peers node_names_def)
  have B: "ring_inv sha1 U (bench_ring sha1 n)" "ring_set (bench_ring sha1 n) = node_names n"
    using bench_ring_spec [OF assms(3), of "nat n"] assms(4-6) by simp_all
  have "GetN sha1 (n_ring nd) key m = GetN sha1 (bench_ring sha1 n) key m" for key m
    by (rule hr.getn_cong [OF inv(1) B(1)]) (simp add: set B(2))
  moreover have "AddrFor ord (n_ms nd) (node_name j) = (if j = i then ('''', False) else (nodeAddr (nodeBasePort + j), True))"
    if "0 \<le> j" "j < n" for j
    using R [of "node_name j"] map_of_bench_peers [OF that, of i] self(1) node_name_inj [OF that(1) assms(5)] by auto
  ultimately show ?thesis using inv(2) set by (simp add: manager_New_def)
qed

lemma benchmark_cluster_witness:
  "\<exists>nd fs'. node_main bench_sha1 (\<lambda>k. '''') (nodeConfig (\<lambda>k. '''') ''/w'' 3 1) 0 int sample_fs = (Inr nd, fs')
     \<and> AddrFor rev (n_ms nd) (node_name 2) = (''127.0.0.1:19102'', True)"
proof -
  let ?cfg = "nodeConfig (\<lambda>k. '''') ''/w'' 3 1"
  have "fst (NewLocalFS ''/w/node1'' sample_fs) = Inr \<lparr>root = ''/w/node1''\<rparr>" by code_simp
  moreover have "dataDir ?cfg = ''/w/node1''" unfolding nodeConfig_fields by code_simp
  ultimately have n: "NewLocalFS (dataDir ?cfg) sample_fs = (Inr \<lparr>root = ''/w/node1''\<rparr>, snd (NewLocalFS ''/w/node1'' sample_fs))"
    by (metis prod.collapse)
  from node_main_ok [OF n] obtain nd fs' where
    m: "node_main bench_sha1 (\<lambda>k. '''') ?cfg 0 int sample_fs = (Inr nd, fs')" by blast
  have "node_names 3 \<subseteq> bench_nodes" by (rule bench_node_names) simp
  note T = benchmark_cluster [OF m sample_clock bench_collision_free this _ _ range_order_rev]
  have "nodeAddr (nodeBasePort + 2) = ''127.0.0.1:19102''"
    by (simp add: nodeAddr_def nodeBasePort_def fmt_int_def fmt_d.simps digit_char_def)
  moreover have "AddrFor rev (n_ms nd) (node_name 2) = (nodeAddr (nodeBasePort + 2), True)"
    using T [THEN conjunct2, THEN conjunct2, THEN conjunct2, rule_format, of 2] by simp
  ultimately have "AddrFor rev (n_ms nd) (node_name 2) = (''127.0.0.1:19102'', True)" by simp
  with m show ?thesis by blast
qed

end
