(* ===== verification/BenchStats.thy ===== *)
theory BenchStats
  imports AvailabilityBench Api
begin

text \<open>
  How the availability benchmark, \<^verbatim>\<open>benchmarks/availability/main.go\<close>, talks to the nodes and
  counts: its health wait, upload and download, and the counters its readers share with the
  breakdown into phases, as a step relation over their atomic operations. The seconds in the label of a
  phase are left out.
\<close>

section \<open>Requests of the benchmark\<close>

definition bench_url :: "int \<Rightarrow> string \<Rightarrow> string" where
  "bench_url port rest = ''http://'' @ nodeAddr port @ rest"

text \<open>The wait for a healthy node: \<open>clock i\<close> and \<open>get i\<close> belong to its i-th round.\<close>

partial_function (option) waitHealthy ::
  "(nat \<Rightarrow> instant) \<Rightarrow> (nat \<Rightarrow> string \<Rightarrow> get_reply) \<Rightarrow> int \<Rightarrow> instant \<Rightarrow> nat \<Rightarrow> bool option" where
  "waitHealthy clock get port deadline i =
     (if clock i < deadline
      then (case get i (bench_url port ''/healthz'') of
              Inl err \<Rightarrow> waitHealthy clock get port deadline (Suc i)
            | Inr (status, body) \<Rightarrow>
                if status = 200 then Some True else waitHealthy clock get port deadline (Suc i))
      else Some False)"

definition uploadBlob ::
  "(string \<Rightarrow> bytes \<Rightarrow> 'n \<Rightarrow> http_result \<times> 'n) \<Rightarrow> int \<Rightarrow> string \<Rightarrow> bytes \<Rightarrow> 'n \<Rightarrow> go_error option \<times> 'n" where
  "uploadBlob http_Post port blobID data n =
     (case http_Post (bench_url port (''/blobs/'' @ blobID)) data n of
        (Inl err, n') \<Rightarrow> (Some err, n')
      | (Inr status, n') \<Rightarrow>
          if status div 100 \<noteq> 2 then (Some (Failure (''upload '' @ blobID @ '': status '' @ fmt_d status)), n')
          else (None, n'))"

definition downloadBlob ::
  "(string \<Rightarrow> 'n \<Rightarrow> get_reply \<times> 'n) \<Rightarrow> int \<Rightarrow> string \<Rightarrow> int \<Rightarrow> 'n \<Rightarrow> bool \<times> 'n" where
  "downloadBlob http_Get port blobID expectedLen n =
     (case http_Get (bench_url port (''/blobs/'' @ blobID)) n of
        (Inl err, n') \<Rightarrow> (False, n')
      | (Inr (status, rest), n') \<Rightarrow>
          if status \<noteq> 200 then (False, n')
          else (case rest of Inl err \<Rightarrow> (False, n') | Inr body \<Rightarrow> (int (length body) = expectedLen, n')))"

section \<open>Counters\<close>

text \<open>
  Where a reader stands: before its next request, or with an answer that it has counted in the total,
  in the phase, in the failures. Where a call of \<^verbatim>\<open>nextPhase\<close> stands, with the next label: it has
  read the requests of the phase, appended the result, or set the first counter back. Only one goroutine calls it.
\<close>

datatype reader_at = Reading | CountedTotal bool | CountedPhase | CountedFailed

datatype phase_at = NoCall | TotalRead string int | Appended string | TotalReset string

record stats =
  totalReqs :: int
  failedReqs :: int
  phaseTotal :: int
  phaseFailed :: int
  phases :: "(string \<times> int \<times> int) list"
  currentPhase :: string
  readers :: "reader_at list"
  phase_call :: phase_at

definition stats_start :: "nat \<Rightarrow> stats" where
  "stats_start readConcurrency =
     \<lparr>totalReqs = 0, failedReqs = 0, phaseTotal = 0, phaseFailed = 0, phases = [], currentPhase = ''baseline (all nodes alive)'',
      readers = replicate readConcurrency Reading, phase_call = NoCall\<rparr>"

inductive stats_step :: "stats \<Rightarrow> stats \<Rightarrow> bool" where
  answer: "i < length (readers s) \<Longrightarrow> readers s ! i = Reading \<Longrightarrow>
     stats_step s (s\<lparr>totalReqs := totalReqs s + 1, readers := (readers s)[i := CountedTotal ok]\<rparr>)"
| count_phase: "i < length (readers s) \<Longrightarrow> readers s ! i = CountedTotal ok \<Longrightarrow>
     stats_step s (s\<lparr>phaseTotal := phaseTotal s + 1, readers := (readers s)[i := if ok then Reading else CountedPhase]\<rparr>)"
| count_failed: "i < length (readers s) \<Longrightarrow> readers s ! i = CountedPhase \<Longrightarrow>
     stats_step s (s\<lparr>failedReqs := failedReqs s + 1, readers := (readers s)[i := CountedFailed]\<rparr>)"
| count_phase_failed: "i < length (readers s) \<Longrightarrow> readers s ! i = CountedFailed \<Longrightarrow>
     stats_step s (s\<lparr>phaseFailed := phaseFailed s + 1, readers := (readers s)[i := Reading]\<rparr>)"
| read_total: "phase_call s = NoCall \<Longrightarrow> stats_step s (s\<lparr>phase_call := TotalRead label (phaseTotal s)\<rparr>)"
| append: "phase_call s = TotalRead label t \<Longrightarrow>
     stats_step s (s\<lparr>phases := phases s @ [(currentPhase s, t, phaseFailed s)], phase_call := Appended label\<rparr>)"
| reset_total: "phase_call s = Appended label \<Longrightarrow> stats_step s (s\<lparr>phaseTotal := 0, phase_call := TotalReset label\<rparr>)"
| reset_failed: "phase_call s = TotalReset label \<Longrightarrow>
     stats_step s (s\<lparr>phaseFailed := 0, currentPhase := label, phase_call := NoCall\<rparr>)"

section \<open>What the waits and checks mean\<close>

text \<open>The health wait ends when its clock passes the deadline, and reports a node that answered before.\<close>

lemma waitHealthy_returns:
  assumes "deadline \<le> clock (i + k)"
  shows "\<exists>b. waitHealthy clock get port deadline i = Some b
    \<and> (b \<longrightarrow> (\<exists>j body. clock j < deadline \<and> get j (bench_url port ''/healthz'') = Inr (200, body)))"
  using assms
proof (induction k arbitrary: i)
  case 0
  then have "waitHealthy clock get port deadline i = Some False" by (subst waitHealthy.simps) simp
  then show ?case by (intro exI [where x = False]) simp
next
  case (Suc k)
  then have "\<exists>b. waitHealthy clock get port deadline (Suc i) = Some b
    \<and> (b \<longrightarrow> (\<exists>j body. clock j < deadline \<and> get j (bench_url port ''/healthz'') = Inr (200, body)))" by simp
  then obtain b where b: "waitHealthy clock get port deadline (Suc i) = Some b"
    "b \<longrightarrow> (\<exists>j body. clock j < deadline \<and> get j (bench_url port ''/healthz'') = Inr (200, body))" by blast
  have "waitHealthy clock get port deadline i
    = (if clock i < deadline
       then (case get i (bench_url port ''/healthz'') of
               Inl err \<Rightarrow> Some b
             | Inr (status, body) \<Rightarrow> if status = 200 then Some True else Some b)
       else Some False)" by (subst waitHealthy.simps) (simp add: b(1) split: sum.split)
  with b(2) show ?case by (auto split: sum.splits if_splits)
qed

section \<open>The breakdown\<close>

definition part :: "(string \<times> int \<times> int \<Rightarrow> int) \<Rightarrow> stats \<Rightarrow> int" where
  "part f s = sum_list (map f (phases s))"

definition reported :: "stats \<Rightarrow> int" where
  "reported s = part (\<lambda>p. fst (snd p)) s"

definition reported_failed :: "stats \<Rightarrow> int" where
  "reported_failed s = part (\<lambda>p. snd (snd p)) s"

text \<open>What the phase counters hold that no reported phase has.\<close>

definition open_total :: "stats \<Rightarrow> int" where
  "open_total s = (case phase_call s of Appended l \<Rightarrow> 0 | _ \<Rightarrow> phaseTotal s)"

definition open_failed :: "stats \<Rightarrow> int" where
  "open_failed s = (case phase_call s of Appended l \<Rightarrow> 0 | TotalReset l \<Rightarrow> 0 | _ \<Rightarrow> phaseFailed s)"

definition at :: "(reader_at \<Rightarrow> bool) \<Rightarrow> stats \<Rightarrow> int" where
  "at P s = int (length (filter P (readers s)))"

definition stats_inv :: "stats \<Rightarrow> bool" where
  "stats_inv s \<longleftrightarrow> 0 \<le> phaseTotal s \<and> 0 \<le> phaseFailed s
     \<and> reported s + open_total s \<le> totalReqs s - at (\<lambda>x. \<exists>ok. x = CountedTotal ok) s
     \<and> reported_failed s + open_failed s \<le> failedReqs s - at (\<lambda>x. x = CountedFailed) s
     \<and> (\<forall>l t. phase_call s = TotalRead l t \<longrightarrow> t \<le> phaseTotal s)"

lemma at_update:
  assumes "i < length (readers s)" and "readers s ! i = x" and "readers s' = (readers s)[i := y]"
  shows "at P s' = at P s - (if P x then 1 else 0) + (if P y then 1 else 0)"
proof -
  have "readers s = take i (readers s) @ x # drop (Suc i) (readers s)" using assms(1,2) id_take_nth_drop by blast
  then have "at P s = int (length (filter P (take i (readers s) @ x # drop (Suc i) (readers s))))"
    by (simp only: at_def)
  moreover have "at P s' = int (length (filter P (take i (readers s) @ y # drop (Suc i) (readers s))))"
    unfolding at_def assms(3) using assms(1) by (simp add: upd_conv_take_nth_drop)
  ultimately show ?thesis by simp
qed

lemmas stats_defs = stats_inv_def reported_def reported_failed_def part_def open_total_def open_failed_def

lemma stats_step_inv:
  assumes "stats_step s s'" and "stats_inv s"
  shows "stats_inv s'"
  using assms(1)
proof cases
  case (answer i ok)
  have "readers s' = (readers s)[i := CountedTotal ok]" using answer(1) by simp
  from at_update [OF answer(2,3) this] assms(2) show ?thesis
    unfolding stats_inv_def answer(1) by (auto simp: stats_defs split: phase_at.splits)
next
  case (count_phase i ok)
  have "readers s' = (readers s)[i := if ok then Reading else CountedPhase]" using count_phase(1) by simp
  from at_update [OF count_phase(2,3) this] assms(2) show ?thesis
    unfolding stats_inv_def count_phase(1) by (auto simp: stats_defs split: phase_at.splits if_splits)
next
  case (count_failed i)
  have "readers s' = (readers s)[i := CountedFailed]" using count_failed(1) by simp
  from at_update [OF count_failed(2,3) this] assms(2) show ?thesis
    unfolding stats_inv_def count_failed(1) by (auto simp: stats_defs split: phase_at.splits)
next
  case (count_phase_failed i)
  have "readers s' = (readers s)[i := Reading]" using count_phase_failed(1) by simp
  from at_update [OF count_phase_failed(2,3) this] assms(2) show ?thesis
    unfolding stats_inv_def count_phase_failed(1) by (auto simp: stats_defs split: phase_at.splits)
qed (use assms(2) in \<open>auto simp: stats_defs at_def split: phase_at.splits\<close>)

text \<open>
  The breakdown reports no request and no failure twice: at any time the sums over its phases are at most the
  counted requests and the counted failures.
\<close>

lemma breakdown_never_overstates:
  assumes "stats_step\<^sup>*\<^sup>* (stats_start k) s"
  shows "reported s \<le> totalReqs s \<and> reported_failed s \<le> failedReqs s"
proof -
  have "stats_inv (stats_start k)" by (simp add: stats_defs at_def stats_start_def)
  with assms have "stats_inv s" by (induction rule: rtranclp_induct) (auto intro: stats_step_inv)
  moreover have "0 \<le> at P s" for P by (simp add: at_def)
  ultimately show ?thesis by (auto simp: stats_inv_def open_total_def open_failed_def split: phase_at.splits) (smt (verit))+
qed

text \<open>
  It can lose one, though: a reader that counts between the reading of the phase counter and its
  reset is in no phase, here with all goroutines at rest again.
\<close>

lemma breakdown_loses_request:
  "\<exists>s. stats_step\<^sup>*\<^sup>* (stats_start 1) s \<and> phase_call s = NoCall \<and> readers s = [Reading]
     \<and> totalReqs s = 1 \<and> reported s = 0 \<and> phaseTotal s = 0"
proof -
  let ?s0 = "stats_start 1"
  let ?s1 = "?s0\<lparr>totalReqs := 1, readers := [CountedTotal True]\<rparr>"
  let ?s2 = "?s1\<lparr>phase_call := TotalRead ''end'' 0\<rparr>"
  let ?s3 = "?s2\<lparr>phases := [(''baseline (all nodes alive)'', 0, 0)], phase_call := Appended ''end''\<rparr>"
  let ?s4 = "?s3\<lparr>phaseTotal := 1, readers := [Reading]\<rparr>"
  let ?s5 = "?s4\<lparr>phaseTotal := 0, phase_call := TotalReset ''end''\<rparr>"
  let ?s6 = "?s5\<lparr>phaseFailed := 0, currentPhase := ''end'', phase_call := NoCall\<rparr>"
  have 1: "stats_step ?s0 ?s1" using stats_step.answer [of 0 ?s0 True] by (simp add: stats_start_def)
  have 2: "stats_step ?s1 ?s2" using stats_step.read_total [of ?s1 "''end''"] by (simp add: stats_start_def)
  have 3: "stats_step ?s2 ?s3" using stats_step.append [of ?s2 "''end''" 0] by (simp add: stats_start_def)
  have 4: "stats_step ?s3 ?s4" using stats_step.count_phase [of 0 ?s3 True] by (simp add: stats_start_def)
  have 5: "stats_step ?s4 ?s5" using stats_step.reset_total [of ?s4 "''end''"] by simp
  have 6: "stats_step ?s5 ?s6" using stats_step.reset_failed [of ?s5 "''end''"] by simp
  have "stats_step\<^sup>*\<^sup>* ?s0 ?s6"
    using 1 2 3 4 5 6 by (meson rtranclp.rtrancl_into_rtrancl rtranclp.rtrancl_refl)
  then show ?thesis by (intro exI [where x = ?s6]) (simp add: reported_def part_def stats_start_def)
qed

end
