(* ===== verification/Spec2Isabelle.thy ===== *)
theory Spec2Isabelle
  imports Prelude GoLib GoNet HashRing RingProperties Chunk Storage LocalFS LocalFSProperties Writers S3 S3Properties
    Membership Heartbeat Replication Recovery Api ApiProperties Healing Availability Node NodeProperties NodeStore Uploads
    Rebalance AvailabilityBench BenchStats
begin

text \<open>
  A verification development for the peer-to-peer distribution of container chunks.

  The program. A node takes a blob over HTTP, cuts it into content-addressed chunks, stores those it
  is an owner of and queues all of them for replication; workers push a chunk to its replica set, the
  first three distinct nodes clockwise from its hash on a consistent-hash ring. Every node pings its
  peers; a peer that is dead for nine seconds leaves the ring, and each survivor re-pushes the chunks
  it owns on the shrunken ring; a revived peer is put back. Reads go to the local store, the replica set and
  an optional S3 tier.

  Theories and code. Prelude: byte types, error values, Go maps as association lists, lists. GoLib: the parts
  of the strings, fmt, hex, binary and sort packages. GoNet: of net/url, net/http and crypto/hmac.
  Chunk: pkg/chunk/chunk.go, the function names kept. HashRing: internal/hashring/hashring.go, \<open>ring_New\<close>,
  \<open>AddNode\<close>, \<open>RemoveNode\<close>, \<open>ring_Nodes\<close>, \<open>ring_Get\<close>, \<open>GetN\<close>; RingProperties: its properties. Storage:
  the interface of internal/storage/storage.go as a record \<open>backend\<close> of operations, \<open>Memory\<close> and \<open>Copy\<close>; LocalFS:
  its file-system store over a tree of files, with failures injected into system calls;
  LocalFSProperties; Writers: interleaved Puts. S3 and S3Properties: internal/storage/s3.go, with \<open>S3_Put\<close> for \<^verbatim>\<open>S3.Put\<close> and so on.
  Membership: internal/cluster/membership.go; \<open>ping_update\<close> is the locked part of pingPeer and \<open>heartbeatRound\<close> a round.
  Heartbeat: its Start and Stop, with the loop and the pings of a round as \<open>loop_step\<close>.
  Replication: internal/replication/replication.go; \<open>push_loop\<close> is the retry loop, \<open>pool_step\<close> the queue
  with its workers. Recovery: internal/recovery/recovery.go. Api and ApiProperties: internal/api/server.go, one
  definition per handler over a model of the response writer, with \<open>ServeHTTP\<close> for a request with its routing. Node, NodeProperties, NodeStore and Uploads: cmd/node/main.go;
  \<open>node_main\<close> is the wiring and \<open>node_step\<close> the running node, with its repair passes and uploads as processes that go on chunk by chunk. Healing: several nodes with their stores, joined
  by the HTTP transport, which composes ring, recovery, replication, handlers and file-system stores. Availability: a blob's
  life in that cluster, from the upload to a download after deaths. Rebalance and AvailabilityBench: the programs
  benchmarks/rebalance/main.go, over the ring, and benchmarks/availability/main.go, whose command lines are
  composed with the node command that reads them; BenchStats: its requests and counters.

  Representation. State is passed explicitly. An operation that can fail returns an option of an error or a
  sum; errors keep the identity that \<^verbatim>\<open>errors.Is\<close> sees. Hash positions are 64-bit words, blob sizes are \<^verbatim>\<open>int64\<close>
  words that wrap. Map iteration order is an argument \<open>ord\<close> with \<open>range_order ord\<close>; so are the interleaving of pings and of
  callbacks. SHA-1, SHA-256, clocks, the network and the HTTP client are parameters. Ring lemmas ask that the virtual
  nodes of the participating nodes do not collide (\<open>collision_free\<close>); \<open>collision_orphans_position\<close> is what happens if they do.

  Interfaces. The locale \<open>placement\<close> is what clients of the ring use and the ring provides (\<open>hr\<close>).
  \<open>backend_spec\<close> is the contract of a store, with the interpretations for Memory and the file system; the
  lemmas on Copy and on the repair pass are proved in it. \<open>blob_io\<close> is what Reassemble needs of its writer and
  its chunk source; the download handler interprets it.

  What is shown. Ring: the replica set is the walk to the first distinct owners, depends only on the members, and a join or
  leave moves no more than it must. Chunks: splitting and reassembling are inverse, and only verified bytes are
  written. Stores: Put is atomic under failures and crashes, interleaved Puts are safe unless a write stops halfway, the stores are maps, Copy merges; the S3 client refines a map
  over a store that behaves as documented, and its requests carry the documented signature. Membership: the state of
  a peer is a function of its last contact and last failed ping, and deaths are detected exactly. Replication:
  pushes reach the replica set within bounds, the queue loses nothing. Handlers: what an acknowledged upload
  and a download guarantee, and what they do not. Heartbeat: a round is a set of
  independent pings, and Stop ends the loop. Node: the ring follows the table while callbacks are in order, and
  whatever a node does, its store and its queue hold verified data only, it pushes those only and only to its
  configured peers, no chunk of an acknowledged blob is missing from its queue, workers and finished jobs, and requests that read change nothing. Benchmarks: what the counts of moved keys are, and that the
  nodes of the started cluster agree on their ring; the breakdown into phases never counts a request twice but can lose one.
  Cluster: after any deaths, each repaired, replicated chunks are replicated again, and a blob that was uploaded
  to a healthy cluster is still downloaded in full. The theorems of kind error state,
  with executions, where the code falls short of its comments.

  Termination and bounds. Loops are structural recursion or have a measure, except the read loop of Split, a
  \<open>partial_function\<close> whose termination on every reader is a theorem. The queue holds 1024 jobs, a push makes six
  attempts, timeouts are 3 s and 9 s, as in the code. No fuel is used.

  Not modelled. Logging and the timeouts of the HTTP server; the text of a time on the status page, a parameter; symbolic links, permissions and fsync; URLs with user information,
  IPv6 hosts or without a host, which the model refuses; non-ASCII spaces in TrimSpace. In the running
  node a worker's job and a request other than an upload are one step each; Writers is about requests that overlap in the store. Of the
  benchmarks the floating-point percentages, the printing, the processes and the timers; the Dockerfile,
  compose, Kubernetes and shell files are not Go code.
\<close>

end
